(* ===== verification/Prelude.thy ===== *)
theory Prelude
  imports Main "HOL-Library.Word"
begin

text \<open>
  Shared vocabulary of the development: the machine types of the Win32 headers, wide strings,
  C buffers, and the lemma collections the component theories add to.
  \<^item> A NUL-terminated string is the list of its characters before the terminator; \<open>chr_at\<close>
    reads it the way C does, with the terminator one past the last character.
  \<^item> A buffer is a list whose length is its capacity; \<open>cstr\<close> is the string it holds.
  \<^item> \<open>heap_simps\<close> collects the read-over-write facts of the pointer models and \<open>step_intros\<close>
    the introduction rules of the step relations.
\<close>

unbundle bit_operations_syntax

named_theorems heap_simps
named_theorems step_intros

section \<open>Machine types\<close>

type_synonym BYTE = "8 word"
type_synonym WORD = "16 word"
type_synonym DWORD = "32 word"
type_synonym LONG = "32 word"
type_synonym ULONGLONG = "64 word"
type_synonym WCHAR = "16 word"
type_synonym wstring = "WCHAR list"
type_synonym addr = nat

section \<open>Error codes\<close>

text \<open>Error codes are those of the Windows headers.\<close>

definition ERROR_INVALID_FUNCTION :: nat where "ERROR_INVALID_FUNCTION = 1"
definition ERROR_PATH_NOT_FOUND :: nat where "ERROR_PATH_NOT_FOUND = 3"
definition ERROR_ACCESS_DENIED :: nat where "ERROR_ACCESS_DENIED = 5"
definition ERROR_INVALID_HANDLE :: nat where "ERROR_INVALID_HANDLE = 6"
definition ERROR_NOT_ENOUGH_MEMORY :: nat where "ERROR_NOT_ENOUGH_MEMORY = 8"
definition ERROR_NOT_SUPPORTED :: nat where "ERROR_NOT_SUPPORTED = 50"
definition ERROR_INVALID_PARAMETER :: nat where "ERROR_INVALID_PARAMETER = 87"
definition ERROR_MORE_DATA :: nat where "ERROR_MORE_DATA = 234"
definition ERROR_BUFFER_OVERFLOW :: nat where "ERROR_BUFFER_OVERFLOW = 111"
definition ERROR_INVALID_LEVEL :: nat where "ERROR_INVALID_LEVEL = 124"
definition ERROR_NO_SYSTEM_RESOURCES :: nat where "ERROR_NO_SYSTEM_RESOURCES = 1450"

lemmas error_codes = ERROR_INVALID_FUNCTION_def ERROR_PATH_NOT_FOUND_def ERROR_ACCESS_DENIED_def
  ERROR_INVALID_HANDLE_def ERROR_NOT_ENOUGH_MEMORY_def ERROR_NOT_SUPPORTED_def
  ERROR_INVALID_PARAMETER_def ERROR_BUFFER_OVERFLOW_def ERROR_INVALID_LEVEL_def
  ERROR_NO_SYSTEM_RESOURCES_def ERROR_MORE_DATA_def

section \<open>Strings and buffers\<close>

definition W :: "string \<Rightarrow> wstring" where
  "W s = map of_char s"

definition chr_at :: "'a::zero list \<Rightarrow> nat \<Rightarrow> 'a" where
  "chr_at s i = (if i < length s then s ! i else 0)"

definition cstr :: "'a::zero list \<Rightarrow> 'a list" where
  "cstr b = takeWhile (\<lambda>c. c \<noteq> 0) b"

definition no_nul :: "'a::zero list \<Rightarrow> bool" where
  "no_nul s \<longleftrightarrow> 0 \<notin> set s"

definition backslash :: WCHAR where "backslash = 92"

text \<open>\<open>same_start s t\<close>: the comparison of the first characters of \<open>s\<close> with \<open>t\<close>, ignoring the case.\<close>

definition lower_w :: "WCHAR \<Rightarrow> WCHAR" where
  "lower_w ch = (if 65 \<le> ch \<and> ch \<le> 90 then ch + 32 else ch)"

definition same_start :: "wstring \<Rightarrow> wstring \<Rightarrow> bool" where
  "same_start s t \<longleftrightarrow> map lower_w (take (length t) s) = map lower_w t"

lemma W_Nil [simp]: "W [] = []"
  and W_Cons [simp]: "W (c # s) = of_char c # W s"
  and length_W [simp]: "length (W s) = length s"
  by (simp_all add: W_def)

lemma chr_at_Nil [simp]: "chr_at [] i = 0"
  and chr_at_0 [simp]: "chr_at (c # s) 0 = c"
  and chr_at_Suc [simp]: "chr_at (c # s) (Suc i) = chr_at s i"
  by (simp_all add: chr_at_def)

lemma chr_at_length [simp]: "chr_at s (length s) = 0"
  by (simp add: chr_at_def)

lemma chr_at_nth [simp]: "i < length s \<Longrightarrow> chr_at s i = s ! i"
  by (simp add: chr_at_def)

lemma cstr_no_nul [simp]: "no_nul (cstr b)"
  by (auto simp: no_nul_def cstr_def dest: set_takeWhileD)

lemma cstr_terminated [simp]: "no_nul s \<Longrightarrow> cstr (s @ 0 # r) = s"
  by (auto simp: no_nul_def cstr_def takeWhile_append intro: takeWhile_eq_all_conv [THEN iffD2])

lemma cstr_id: "no_nul s \<Longrightarrow> cstr s = s"
  by (auto simp: no_nul_def cstr_def takeWhile_eq_all_conv)

lemma length_cstr_le: "length (cstr b) \<le> length b"
  by (simp add: cstr_def length_takeWhile_le)

lemma no_nul_Nil [simp]: "no_nul []"
  and no_nul_Cons [simp]: "no_nul (c # s) \<longleftrightarrow> c \<noteq> 0 \<and> no_nul s"
  and no_nul_append [simp]: "no_nul (s @ t) \<longleftrightarrow> no_nul s \<and> no_nul t"
  by (auto simp: no_nul_def)

lemma no_nul_take [simp]: "no_nul s \<Longrightarrow> no_nul (take n s)"
  by (auto simp: no_nul_def dest: in_set_takeD)

lemma no_nul_drop [simp]: "no_nul s \<Longrightarrow> no_nul (drop n s)"
  by (auto simp: no_nul_def dest: in_set_dropD)

section \<open>Words\<close>

lemma word_bit_mask_le: "(x AND m) \<le> (m :: 'a::len word)"
  by (rule word_and_le1)

lemma unat_bound: "unat (w :: 'a::len word) < 2 ^ LENGTH('a)"
  by (rule unsigned_less)

lemma unat_of_nat_small: "n < 2 ^ LENGTH('a) \<Longrightarrow> unat (of_nat n :: 'a::len word) = n"
  by (simp add: unat_of_nat)

section \<open>Interfaces shared by several components\<close>

text \<open>
  A codec: what the encoder writes for a valid value, the decoder reads back. The two encoders of
  DNS names and the crash-dump scrambler provide it; the facts every client needs follow here.
\<close>

locale codec =
  fixes enc :: "'a \<Rightarrow> 'b" and dec :: "'b \<Rightarrow> 'a option" and valid :: "'a \<Rightarrow> bool"
  assumes dec_enc: "valid x \<Longrightarrow> dec (enc x) = Some x"
begin

lemma enc_inj: "valid x \<Longrightarrow> valid y \<Longrightarrow> enc x = enc y \<Longrightarrow> x = y"
  using dec_enc by (metis option.inject)

lemma enc_inj_on: "inj_on enc {x. valid x}"
  using enc_inj by (auto simp: inj_on_def)

end

section \<open>Step relations\<close>

text \<open>The states a step relation reaches from the initial ones.\<close>

inductive reach :: "('s \<Rightarrow> bool) \<Rightarrow> ('s \<Rightarrow> 's \<Rightarrow> bool) \<Rightarrow> 's \<Rightarrow> bool"
  for init :: "'s \<Rightarrow> bool" and stp :: "'s \<Rightarrow> 's \<Rightarrow> bool" where
  reach_init: "init s \<Longrightarrow> reach init stp s"
| reach_step: "reach init stp s \<Longrightarrow> stp s s' \<Longrightarrow> reach init stp s'"

text \<open>What a component shows of an invariant, and what its clients may conclude.\<close>

locale step_invariant =
  fixes init :: "'s \<Rightarrow> bool" and stp :: "'s \<Rightarrow> 's \<Rightarrow> bool" and inv :: "'s \<Rightarrow> bool"
  assumes inv_init: "init s \<Longrightarrow> inv s"
    and inv_step: "inv s \<Longrightarrow> stp s s' \<Longrightarrow> inv s'"
begin

lemma reach_inv: "reach init stp s \<Longrightarrow> inv s"
  by (induction rule: reach.induct) (blast intro: inv_init inv_step)+

end

end
