(* ===== verification/LinkedList.thy ===== *)
theory LinkedList
  imports Prelude
begin

text \<open>
  The intrusive doubly linked list of \<open>src/legacy/shared/list.h\<close>. A \<open>struct list\<close> is an
  address; the heap holds its two fields. Every assignment of the C functions is one update, in
  the order of the code, so that aliasing (an empty list is its own neighbour) is what the code
  makes of it. \<open>dlist h l xs\<close> is the contract: \<open>xs\<close> are the elements of the list with head \<open>l\<close>.
\<close>

record lheap =
  nxt :: "addr \<Rightarrow> addr"
  prv :: "addr \<Rightarrow> addr"

definition set_nxt :: "addr \<Rightarrow> addr \<Rightarrow> lheap \<Rightarrow> lheap" where
  "set_nxt a v h = h\<lparr>nxt := (nxt h)(a := v)\<rparr>"

definition set_prv :: "addr \<Rightarrow> addr \<Rightarrow> lheap \<Rightarrow> lheap" where
  "set_prv a v h = h\<lparr>prv := (prv h)(a := v)\<rparr>"

lemma lheap_reads [heap_simps]:
  "nxt (set_nxt a v h) b = (if b = a then v else nxt h b)"
  "prv (set_nxt a v h) b = prv h b"
  "prv (set_prv a v h) b = (if b = a then v else prv h b)"
  "nxt (set_prv a v h) b = nxt h b"
  by (simp_all add: set_nxt_def set_prv_def)

section \<open>Operations\<close>

definition list_add_after :: "addr \<Rightarrow> addr \<Rightarrow> lheap \<Rightarrow> lheap" where
  "list_add_after elem to_add h =
     (let h = set_nxt to_add (nxt h elem) h;
          h = set_prv to_add elem h;
          h = set_prv (nxt h elem) to_add h
      in set_nxt elem to_add h)"

definition list_add_before :: "addr \<Rightarrow> addr \<Rightarrow> lheap \<Rightarrow> lheap" where
  "list_add_before elem to_add h =
     (let h = set_nxt to_add elem h;
          h = set_prv to_add (prv h elem) h;
          h = set_nxt (prv h elem) to_add h
      in set_prv elem to_add h)"

definition list_add_head :: "addr \<Rightarrow> addr \<Rightarrow> lheap \<Rightarrow> lheap" where
  "list_add_head l elem h = list_add_after l elem h"

definition list_add_tail :: "addr \<Rightarrow> addr \<Rightarrow> lheap \<Rightarrow> lheap" where
  "list_add_tail l elem h = list_add_before l elem h"

definition list_remove :: "addr \<Rightarrow> lheap \<Rightarrow> lheap" where
  "list_remove elem h =
     (let h = set_prv (nxt h elem) (prv h elem) h
      in set_nxt (prv h elem) (nxt h elem) h)"

definition list_next :: "addr \<Rightarrow> addr \<Rightarrow> lheap \<Rightarrow> addr option" where
  "list_next l elem h = (if nxt h elem = l then None else Some (nxt h elem))"

definition list_prev :: "addr \<Rightarrow> addr \<Rightarrow> lheap \<Rightarrow> addr option" where
  "list_prev l elem h = (if prv h elem = l then None else Some (prv h elem))"

definition list_head :: "addr \<Rightarrow> lheap \<Rightarrow> addr option" where
  "list_head l h = list_next l l h"

definition list_tail :: "addr \<Rightarrow> lheap \<Rightarrow> addr option" where
  "list_tail l h = list_prev l l h"

definition list_empty :: "addr \<Rightarrow> lheap \<Rightarrow> bool" where
  "list_empty l h \<longleftrightarrow> nxt h l = l"

definition list_init :: "addr \<Rightarrow> lheap \<Rightarrow> lheap" where
  "list_init l h = set_nxt l l (set_prv l l h)"

text \<open>The counting loop ends only if the links lead back to the head: \<open>None\<close> is "does not end".\<close>

partial_function (option) list_count_loop :: "lheap \<Rightarrow> addr \<Rightarrow> addr \<Rightarrow> DWORD \<Rightarrow> DWORD option" where
  "list_count_loop h l p count =
     (if p = l then Some count else list_count_loop h l (nxt h p) (count + 1))"

definition list_count :: "addr \<Rightarrow> lheap \<Rightarrow> DWORD option" where
  "list_count l h = list_count_loop h l (nxt h l) 0"

definition list_move_before :: "addr \<Rightarrow> addr \<Rightarrow> lheap \<Rightarrow> lheap" where
  "list_move_before dst src h =
     (if list_empty src h then h
      else let h = set_nxt (prv h dst) (nxt h src) h;
               h = set_prv (nxt h src) (prv h dst) h;
               h = set_prv dst (prv h src) h;
               h = set_nxt (prv h src) dst h
           in list_init src h)"

definition list_move_after :: "addr \<Rightarrow> addr \<Rightarrow> lheap \<Rightarrow> lheap" where
  "list_move_after dst src h =
     (if list_empty src h then h
      else let h = set_prv (nxt h dst) (prv h src) h;
               h = set_nxt (prv h src) (nxt h dst) h;
               h = set_nxt dst (nxt h src) h;
               h = set_prv (nxt h src) dst h
           in list_init src h)"

definition list_move_head :: "addr \<Rightarrow> addr \<Rightarrow> lheap \<Rightarrow> lheap" where
  "list_move_head dst src h = list_move_after dst src h"

definition list_move_tail :: "addr \<Rightarrow> addr \<Rightarrow> lheap \<Rightarrow> lheap" where
  "list_move_tail dst src h = list_move_before dst src h"

definition list_move_slice_head :: "addr \<Rightarrow> addr \<Rightarrow> addr \<Rightarrow> lheap \<Rightarrow> lheap" where
  "list_move_slice_head dst first_e last_e h =
     (let dst_next = nxt h dst;
          h = set_nxt (prv h first_e) (nxt h last_e) h;
          h = set_prv (nxt h last_e) (prv h first_e) h;
          h = set_nxt dst first_e h;
          h = set_prv dst_next last_e h;
          h = set_prv first_e dst h
      in set_nxt last_e dst_next h)"

definition list_move_slice_tail :: "addr \<Rightarrow> addr \<Rightarrow> addr \<Rightarrow> lheap \<Rightarrow> lheap" where
  "list_move_slice_tail dst first_e last_e h =
     (let dst_prev = prv h dst;
          h = set_nxt (prv h first_e) (nxt h last_e) h;
          h = set_prv (nxt h last_e) (prv h first_e) h;
          h = set_nxt dst_prev first_e h;
          h = set_prv dst last_e h;
          h = set_prv first_e dst_prev h
      in set_nxt last_e dst h)"

section \<open>The abstraction: a cyclic list through its head\<close>

text \<open>
  \<open>chain h zs\<close>: each address of \<open>zs\<close> is linked to the one after it, both ways. The list with
  head \<open>l\<close> and elements \<open>xs\<close> is the chain from \<open>l\<close> through \<open>xs\<close> back to \<open>l\<close>. A chain reads the
  forward links of all but its last address and the backward links of all but its first, which
  is what the two frame rules say.
\<close>

definition linked :: "lheap \<Rightarrow> addr \<Rightarrow> addr \<Rightarrow> bool" where
  "linked h a b \<longleftrightarrow> nxt h a = b \<and> prv h b = a"

definition chain :: "lheap \<Rightarrow> addr list \<Rightarrow> bool" where
  "chain h zs \<longleftrightarrow> successively (linked h) zs"

definition dlist :: "lheap \<Rightarrow> addr \<Rightarrow> addr list \<Rightarrow> bool" where
  "dlist h l xs \<longleftrightarrow> chain h (l # xs @ [l]) \<and> distinct (l # xs)"

lemma chain_simps [simp]:
  "chain h []" "chain h [a]"
  "chain h (a # b # zs) \<longleftrightarrow> linked h a b \<and> chain h (b # zs)"
  by (simp_all add: chain_def)

lemma chain_append:
  "chain h (xs @ ys) \<longleftrightarrow>
     chain h xs \<and> chain h ys \<and> (xs \<noteq> [] \<longrightarrow> ys \<noteq> [] \<longrightarrow> linked h (last xs) (hd ys))"
  by (auto simp: chain_def successively_append_iff)

lemma chain_frame:
  assumes "chain h zs"
    and "\<And>u. u \<in> set (butlast zs) \<Longrightarrow> nxt h' u = nxt h u"
    and "\<And>u. u \<in> set (tl zs) \<Longrightarrow> prv h' u = prv h u"
  shows "chain h' zs"
  using assms
proof (induction zs rule: induct_list012)
  case (3 a b zs)
  have "chain h' (b # zs)"
    using 3 by (intro 3) (auto dest: in_set_butlastD list.set_sel(2) split: if_splits)
  with 3 show ?case by (simp add: linked_def)
qed simp_all

lemma chain_set_nxt [heap_simps]: "a \<notin> set (butlast zs) \<Longrightarrow> chain (set_nxt a v h) zs \<longleftrightarrow> chain h zs"
  by (auto simp: heap_simps elim!: chain_frame)

lemma chain_set_prv [heap_simps]: "a \<notin> set (tl zs) \<Longrightarrow> chain (set_prv a v h) zs \<longleftrightarrow> chain h zs"
  by (auto simp: heap_simps elim!: chain_frame)

lemma linked_simps [heap_simps]:
  "linked h a b \<Longrightarrow> nxt h a = b" "linked h a b \<Longrightarrow> prv h b = a"
  by (simp_all add: linked_def)

text \<open>A list cut at one position: the two halves, and the link between their ends.\<close>

lemma dlist_split:
  "dlist h l (xs @ ys) \<longleftrightarrow>
     chain h (l # xs) \<and> chain h (ys @ [l]) \<and> linked h (last (l # xs)) (hd (ys @ [l])) \<and>
     distinct (l # xs @ ys)"
proof -
  have "l # (xs @ ys) @ [l] = (l # xs) @ (ys @ [l])" by simp
  then show ?thesis by (auto simp only: dlist_def chain_append)
qed

lemma dlist_split_elem:
  "dlist h l (xs @ e # ys) \<longleftrightarrow>
     chain h (l # xs) \<and> linked h (last (l # xs)) e \<and> linked h e (hd (ys @ [l])) \<and>
     chain h (ys @ [l]) \<and> distinct (l # xs @ e # ys)"
  by (cases ys) (auto simp: dlist_split)

text \<open>
  \<open>cut h l xs ys p q\<close>: the facts the operations need about the position between \<open>xs\<close> and \<open>ys\<close>,
  with \<open>p\<close> the address before it and \<open>q\<close> the address after it (either may be the head).
\<close>

definition cut :: "lheap \<Rightarrow> addr \<Rightarrow> addr list \<Rightarrow> addr list \<Rightarrow> addr \<Rightarrow> addr \<Rightarrow> bool" where
  "cut h l xs ys p q \<longleftrightarrow>
     chain h (l # xs) \<and> chain h (ys @ [l]) \<and> distinct (l # xs @ ys) \<and>
     p = last (l # xs) \<and> q = hd (ys @ [l])"

lemma cut_notin:
  assumes "cut h l xs ys p q"
  shows "p \<notin> set (butlast (l # xs))" "p \<notin> set ys" "q \<notin> set xs" "q \<notin> set (tl (ys @ [l]))"
    "p \<in> insert l (set xs)" "q \<in> insert l (set ys)"
proof -
  from assms have d: "distinct (l # xs @ ys)" and p: "p = last (l # xs)" and q: "q = hd (ys @ [l])"
    by (auto simp: cut_def)
  have "butlast (l # xs) @ [p] = l # xs" by (simp add: p)
  moreover have "distinct (l # xs)" using d by simp
  ultimately show "p \<notin> set (butlast (l # xs))"
    by (metis distinct_append disjoint_iff list.set_intros(1) list.simps(15))
  show *: "p \<in> insert l (set xs)" using p by (metis last_in_set list.distinct(1) list.simps(15))
  then show "p \<notin> set ys" using d by auto
  show "q \<in> insert l (set ys)" using q by (cases ys) auto
  then show "q \<notin> set xs" using d by auto
  show "q \<notin> set (tl (ys @ [l]))" using q d by (cases ys) auto
qed

lemma cut_reads:
  assumes "cut h l xs ys p q"
  shows "u \<in> set (butlast (l # xs)) \<Longrightarrow> u \<in> insert l (set xs) \<and> u \<noteq> p"
    and "u \<in> set (tl (ys @ [l])) \<Longrightarrow> u \<in> insert l (set ys) \<and> u \<noteq> q"
  using cut_notin [OF assms] in_set_butlastD [of u "l # xs"]
  by (cases ys; auto)+

lemma dlist_cut:
  assumes "dlist h l (xs @ ys)"
  obtains p q where "cut h l xs ys p q" "nxt h p = q" "prv h q = p"
  using assms by (auto simp: dlist_split cut_def linked_def)

lemma dlist_cut_elem:
  assumes "dlist h l (xs @ e # ys)"
  obtains p q where "cut h l xs ys p q" "nxt h p = e" "prv h e = p" "nxt h e = q" "prv h q = e"
    "e \<notin> set (l # xs @ ys)"
  using assms by (auto simp: dlist_split_elem cut_def linked_def)

text \<open>Rebuilding the list at a cut, when only the links at the cut have changed.\<close>

lemma cut_frame:
  assumes "cut h l xs ys p q"
    and "\<And>u. u \<in> insert l (set xs) \<union> set ys \<Longrightarrow> u \<noteq> p \<Longrightarrow> nxt h' u = nxt h u"
    and "\<And>u. u \<in> insert l (set ys) \<union> set xs \<Longrightarrow> u \<noteq> q \<Longrightarrow> prv h' u = prv h u"
  shows "cut h' l xs ys p q"
proof -
  note nn = cut_notin [OF assms(1)] and rd = cut_reads [OF assms(1)]
  have "chain h' (l # xs)"
  proof (rule chain_frame [of h])
    show "chain h (l # xs)" using assms(1) by (simp add: cut_def)
    show "nxt h' u = nxt h u" if "u \<in> set (butlast (l # xs))" for u
      using rd(1) [OF that] assms(2) [of u] by blast
    show "prv h' u = prv h u" if "u \<in> set (tl (l # xs))" for u
    proof -
      have "u \<in> set xs" using that by simp
      then show ?thesis using nn(3) assms(3) [of u] by blast
    qed
  qed
  moreover have "chain h' (ys @ [l])"
  proof (rule chain_frame [of h])
    show "chain h (ys @ [l])" using assms(1) by (simp add: cut_def)
    show "nxt h' u = nxt h u" if "u \<in> set (butlast (ys @ [l]))" for u
    proof -
      have "u \<in> set ys" using that by simp
      then show ?thesis using nn(2) assms(2) [of u] by blast
    qed
    show "prv h' u = prv h u" if "u \<in> set (tl (ys @ [l]))" for u
      using rd(2) [OF that] assms(3) [of u] by blast
  qed
  ultimately show ?thesis using assms(1) by (simp add: cut_def)
qed

lemma cut_join: "cut h l xs ys p q \<Longrightarrow> nxt h p = q \<Longrightarrow> prv h q = p \<Longrightarrow> dlist h l (xs @ ys)"
  by (auto simp: dlist_split cut_def linked_def)

lemma cut_join_elem:
  "cut h l xs ys p q \<Longrightarrow> e \<notin> set (l # xs @ ys) \<Longrightarrow> nxt h p = e \<Longrightarrow> prv h e = p \<Longrightarrow>
   nxt h e = q \<Longrightarrow> prv h q = e \<Longrightarrow> dlist h l (xs @ e # ys)"
  by (auto simp: dlist_split_elem cut_def linked_def)

section \<open>The operations on the abstract list\<close>

lemma list_init_dlist: "dlist (list_init l h) l []"
  by (simp add: dlist_def list_init_def linked_def heap_simps)

lemma list_add_after_dlist:
  assumes "dlist h l (xs @ ys)" "e = last (l # xs)" "n \<notin> set (l # xs @ ys)"
  shows "dlist (list_add_after e n h) l (xs @ n # ys)"
proof -
  from assms(1) obtain p q where c: "cut h l xs ys p q" and lk: "nxt h p = q" "prv h q = p"
    by (rule dlist_cut)
  have [simp]: "e = p" using c assms(2) by (simp add: cut_def)
  note nn = cut_notin [OF c]
  have ne: "n \<noteq> p" "n \<noteq> q" using nn assms(3) by auto
  show ?thesis
    by (rule cut_join_elem [OF cut_frame [OF c]])
      (use assms(3) ne lk in \<open>auto simp: list_add_after_def Let_def heap_simps\<close>)
qed

lemma list_add_before_dlist:
  assumes "dlist h l (xs @ ys)" "e = hd (ys @ [l])" "n \<notin> set (l # xs @ ys)"
  shows "dlist (list_add_before e n h) l (xs @ n # ys)"
proof -
  from assms(1) obtain p q where c: "cut h l xs ys p q" and lk: "nxt h p = q" "prv h q = p"
    by (rule dlist_cut)
  have [simp]: "e = q" using c assms(2) by (simp add: cut_def)
  note nn = cut_notin [OF c]
  have ne: "n \<noteq> p" "n \<noteq> q" using nn assms(3) by auto
  show ?thesis
    by (rule cut_join_elem [OF cut_frame [OF c]])
      (use assms(3) ne lk in \<open>auto simp: list_add_before_def Let_def heap_simps\<close>)
qed

lemma list_add_head_dlist: "dlist h l xs \<Longrightarrow> n \<notin> set (l # xs) \<Longrightarrow> dlist (list_add_head l n h) l (n # xs)"
  using list_add_after_dlist [of h l "[]" xs l n] by (simp add: list_add_head_def)

lemma list_add_tail_dlist: "dlist h l xs \<Longrightarrow> n \<notin> set (l # xs) \<Longrightarrow> dlist (list_add_tail l n h) l (xs @ [n])"
  using list_add_before_dlist [of h l xs "[]" l n] by (simp add: list_add_tail_def)

lemma list_remove_dlist:
  assumes "dlist h l (xs @ e # ys)"
  shows "dlist (list_remove e h) l (xs @ ys)"
proof -
  from assms obtain p q where c: "cut h l xs ys p q"
    and lk: "nxt h p = e" "prv h e = p" "nxt h e = q" "prv h q = e" and e: "e \<notin> set (l # xs @ ys)"
    by (rule dlist_cut_elem)
  note nn = cut_notin [OF c]
  have ne: "e \<noteq> p" "e \<noteq> q" using nn e by auto
  show ?thesis
    by (rule cut_join [OF cut_frame [OF c]])
      (use ne lk in \<open>auto simp: list_remove_def Let_def heap_simps\<close>)
qed

text \<open>Removing leaves the links of the removed element: a loop that stands on it can go on.\<close>

lemma list_remove_keeps_elem:
  assumes "dlist h l (xs @ e # ys)"
  shows "nxt (list_remove e h) e = nxt h e" "prv (list_remove e h) e = prv h e"
proof -
  from assms obtain p q where "cut h l xs ys p q" and lk: "prv h e = p" "nxt h e = q"
    and e: "e \<notin> set (l # xs @ ys)" by (rule dlist_cut_elem)
  then have "e \<noteq> p" "e \<noteq> q" using cut_notin [of h l xs ys p q] by auto
  then show "nxt (list_remove e h) e = nxt h e" "prv (list_remove e h) e = prv h e"
    by (auto simp: list_remove_def Let_def heap_simps lk)
qed

text \<open>A whole run of elements between the two halves.\<close>

lemma cut_join_list:
  assumes "cut h l xs zs p q" "ys \<noteq> []" "chain h ys" "distinct ys" "set ys \<inter> set (l # xs @ zs) = {}"
    and "nxt h p = hd ys" "prv h (hd ys) = p" "nxt h (last ys) = q" "prv h q = last ys"
  shows "dlist h l (xs @ ys @ zs)"
proof -
  have "chain h ((l # xs) @ ys)"
    unfolding chain_append [of h "l # xs" ys] using assms by (simp add: cut_def linked_def)
  moreover have "last (l # xs @ ys) = last ys" using assms(2) by simp
  ultimately have "dlist h l ((xs @ ys) @ zs)"
    unfolding dlist_split using assms by (auto simp: cut_def linked_def)
  then show ?thesis by simp
qed

lemma dlist_cut_list:
  assumes "dlist h l (xs @ ys @ zs)" "ys \<noteq> []"
  obtains p q where "cut h l xs zs p q" "chain h ys" "distinct ys" "set ys \<inter> set (l # xs @ zs) = {}"
    "nxt h p = hd ys" "prv h (hd ys) = p" "nxt h (last ys) = q" "prv h q = last ys"
proof -
  have "dlist h l ((xs @ ys) @ zs)" using assms by simp
  then have c: "chain h ((l # xs) @ ys)" and *: "chain h (zs @ [l])" "linked h (last ys) (hd (zs @ [l]))"
      "distinct (l # (xs @ ys) @ zs)"
    unfolding dlist_split using assms(2) by (auto split: if_splits)
  from c have "chain h (l # xs)" "chain h ys" "linked h (last (l # xs)) (hd ys)"
    unfolding chain_append [of h "l # xs" ys] using assms(2) by simp_all
  with * that [of "last (l # xs)" "hd (zs @ [l])"] show ?thesis
    by (auto simp: cut_def linked_def)
qed

lemma chain_frame_inner:
  assumes "chain h ys" "distinct ys"
    and "\<And>u. u \<in> set ys \<Longrightarrow> u \<noteq> last ys \<Longrightarrow> nxt h' u = nxt h u"
    and "\<And>u. u \<in> set ys \<Longrightarrow> u \<noteq> hd ys \<Longrightarrow> prv h' u = prv h u"
  shows "chain h' ys"
proof (cases "ys = []")
  case False
  then have "last ys \<notin> set (butlast ys)" "hd ys \<notin> set (tl ys)"
    using assms(2) by (metis append_butlast_last_id disjoint_iff distinct_append list.set_intros(1))
      (metis False assms(2) distinct.simps(2) list.collapse)
  then show ?thesis
    by (intro chain_frame [OF assms(1)] assms(3,4)) (auto dest: in_set_butlastD list.set_sel(2) [OF False])
qed simp

lemma list_empty_dlist: "dlist h l xs \<Longrightarrow> list_empty l h \<longleftrightarrow> xs = []"
  by (cases xs) (auto simp: dlist_def list_empty_def linked_def)

lemma dlist_inner:
  assumes "dlist h s ys" "ys \<noteq> []"
  shows "chain h ys" "distinct ys" "s \<notin> set ys" "nxt h s = hd ys" "prv h (hd ys) = s"
    "nxt h (last ys) = s" "prv h s = last ys" "hd ys \<in> set ys" "last ys \<in> set ys"
proof -
  have "dlist h s ([] @ ys @ [])" using assms(1) by simp
  then obtain p q where "cut h s [] [] p q" "chain h ys" "distinct ys" "set ys \<inter> set (s # [] @ []) = {}"
    "nxt h p = hd ys" "prv h (hd ys) = p" "nxt h (last ys) = q" "prv h q = last ys"
    using assms(2) by (rule dlist_cut_list)
  moreover from this(1) have "p = s" "q = s" by (simp_all add: cut_def)
  ultimately show "chain h ys" "distinct ys" "s \<notin> set ys" "nxt h s = hd ys" "prv h (hd ys) = s"
    "nxt h (last ys) = s" "prv h s = last ys" "hd ys \<in> set ys" "last ys \<in> set ys"
    using assms(2) by auto
qed

text \<open>Both directions of moving a whole list rewrite the same six links.\<close>

lemma list_move_core:
  assumes "cut h d xs zs p q" "dlist h s ys" "ys \<noteq> []" "set (d # xs @ zs) \<inter> set (s # ys) = {}"
    and r: "\<And>u. nxt h' u = (if u = s then s else if u = last ys then q else if u = p then hd ys else nxt h u)"
       "\<And>u. prv h' u = (if u = s then s else if u = q then last ys else if u = hd ys then p else prv h u)"
  shows "dlist h' d (xs @ ys @ zs) \<and> dlist h' s []"
proof -
  note ys = dlist_inner [OF assms(2,3)]
  have dis: "p \<notin> set (s # ys)" "q \<notin> set (s # ys)" using cut_notin(5,6) [OF assms(1)] assms(4) by auto
  have "dlist h' d (xs @ ys @ zs)"
    by (rule cut_join_list [OF cut_frame [OF assms(1)] assms(3) chain_frame_inner [OF ys(1,2)]])
      (use r ys dis assms(4) in auto)
  moreover have "dlist h' s []" by (simp add: dlist_def linked_def r)
  ultimately show ?thesis by simp
qed

lemma list_move_before_dlist:
  assumes "dlist h d (xs @ zs)" "e = hd (zs @ [d])" "dlist h s ys" "set (d # xs @ zs) \<inter> set (s # ys) = {}"
  shows "dlist (list_move_before e s h) d (xs @ ys @ zs) \<and> dlist (list_move_before e s h) s []"
proof (cases "ys = []")
  case True
  then show ?thesis using assms by (simp add: list_move_before_def list_empty_dlist)
next
  case False
  from assms(1) obtain p q where c: "cut h d xs zs p q" and lk: "nxt h p = q" "prv h q = p"
    by (rule dlist_cut)
  have "e = q" using c assms(2) by (simp add: cut_def)
  moreover have "p \<notin> set (s # ys)" "q \<notin> set (s # ys)" using cut_notin(5,6) [OF c] assms(4) by auto
  ultimately show ?thesis
    by (intro list_move_core [OF c assms(3) False assms(4)])
      (use dlist_inner [OF assms(3) False] False assms(3) lk in
        \<open>auto simp: list_move_before_def list_empty_dlist list_init_def Let_def heap_simps\<close>)
qed

lemma list_move_after_dlist:
  assumes "dlist h d (xs @ zs)" "e = last (d # xs)" "dlist h s ys" "set (d # xs @ zs) \<inter> set (s # ys) = {}"
  shows "dlist (list_move_after e s h) d (xs @ ys @ zs) \<and> dlist (list_move_after e s h) s []"
proof (cases "ys = []")
  case True
  then show ?thesis using assms by (simp add: list_move_after_def list_empty_dlist)
next
  case False
  from assms(1) obtain p q where c: "cut h d xs zs p q" and lk: "nxt h p = q" "prv h q = p"
    by (rule dlist_cut)
  have "e = p" using c assms(2) by (simp add: cut_def)
  moreover have "p \<notin> set (s # ys)" "q \<notin> set (s # ys)" using cut_notin(5,6) [OF c] assms(4) by auto
  ultimately show ?thesis
    by (intro list_move_core [OF c assms(3) False assms(4)])
      (use dlist_inner [OF assms(3) False] False assms(3) lk in
        \<open>auto simp: list_move_after_def list_empty_dlist list_init_def Let_def heap_simps\<close>)
qed

lemma list_move_slice_head_dlist:
  assumes "dlist h s (xs @ ys @ zs)" "ys \<noteq> []" "dlist h d ws" "set (s # xs @ ys @ zs) \<inter> set (d # ws) = {}"
  shows "dlist (list_move_slice_head d (hd ys) (last ys) h) s (xs @ zs) \<and>
    dlist (list_move_slice_head d (hd ys) (last ys) h) d (ys @ ws)"
proof -
  from assms(1,2) obtain p q where c: "cut h s xs zs p q" and ys: "chain h ys" "distinct ys"
      "set ys \<inter> set (s # xs @ zs) = {}"
    and lk: "nxt h p = hd ys" "prv h (hd ys) = p" "nxt h (last ys) = q" "prv h q = last ys"
    by (rule dlist_cut_list)
  from assms(3) obtain p' q' where c': "cut h d [] ws p' q'" and lk': "nxt h p' = q'" "prv h q' = p'"
    using dlist_cut [of h d "[]" ws] by auto
  have [simp]: "p' = d" using c' by (simp add: cut_def)
  note nn = cut_notin [OF c] cut_notin [OF c']
  have ne: "hd ys \<in> set ys" "last ys \<in> set ys" using assms(2) by auto
  have dis: "p \<notin> set ys" "q \<notin> set ys" "p \<noteq> d" "q \<noteq> q'" "p \<notin> set ws" "q \<notin> set (d # ws)" "q' \<notin> set (s # xs @ ys @ zs)"
      "d \<notin> set ys" "q' \<notin> set ys"
    using nn(5,6,11,12) assms(4) ys(3) by auto
  let ?h = "list_move_slice_head d (hd ys) (last ys) h"
  have r: "nxt ?h u = (if u = last ys then q' else if u = d then hd ys else if u = p then q else nxt h u)"
       "prv ?h u = (if u = hd ys then d else if u = q' then last ys else if u = q then p else prv h u)" for u
    using ne dis lk lk'
    by (auto simp: list_move_slice_head_def Let_def heap_simps)
  have "dlist ?h s (xs @ zs)"
    by (rule cut_join [OF cut_frame [OF c]]) (use r ne dis assms(4) ys(3) in auto)
  moreover have "dlist ?h d ([] @ ys @ ws)"
    by (rule cut_join_list [OF cut_frame [OF c'] assms(2) chain_frame_inner [OF ys(1,2)]])
      (use r ys ne dis assms(4) nn(5,6) in auto)
  ultimately show ?thesis by simp
qed

lemma list_move_slice_tail_dlist:
  assumes "dlist h s (xs @ ys @ zs)" "ys \<noteq> []" "dlist h d ws" "set (s # xs @ ys @ zs) \<inter> set (d # ws) = {}"
  shows "dlist (list_move_slice_tail d (hd ys) (last ys) h) s (xs @ zs) \<and>
    dlist (list_move_slice_tail d (hd ys) (last ys) h) d (ws @ ys)"
proof -
  from assms(1,2) obtain p q where c: "cut h s xs zs p q" and ys: "chain h ys" "distinct ys"
      "set ys \<inter> set (s # xs @ zs) = {}"
    and lk: "nxt h p = hd ys" "prv h (hd ys) = p" "nxt h (last ys) = q" "prv h q = last ys"
    by (rule dlist_cut_list)
  from assms(3) obtain p' q' where c': "cut h d ws [] p' q'" and lk': "nxt h p' = q'" "prv h q' = p'"
    using dlist_cut [of h d ws "[]"] by auto
  have [simp]: "q' = d" using c' by (simp add: cut_def)
  note nn = cut_notin [OF c] cut_notin [OF c']
  have ne: "hd ys \<in> set ys" "last ys \<in> set ys" using assms(2) by auto
  have dis: "p \<notin> set ys" "q \<notin> set ys" "q \<noteq> d" "p \<noteq> p'" "p \<notin> set (d # ws)" "q \<notin> set (d # ws)"
      "p' \<notin> set (s # xs @ ys @ zs)" "d \<notin> set ys" "p' \<notin> set ys"
    using nn(5,6,11,12) assms(4) ys(3) by auto
  let ?h = "list_move_slice_tail d (hd ys) (last ys) h"
  have r: "nxt ?h u = (if u = last ys then d else if u = p' then hd ys else if u = p then q else nxt h u)"
       "prv ?h u = (if u = hd ys then p' else if u = d then last ys else if u = q then p else prv h u)" for u
    using ne dis lk lk'
    by (auto simp: list_move_slice_tail_def Let_def heap_simps)
  have "dlist ?h s (xs @ zs)"
    by (rule cut_join [OF cut_frame [OF c]]) (use r ne dis assms(4) ys(3) in auto)
  moreover have "dlist ?h d (ws @ ys @ [])"
    by (rule cut_join_list [OF cut_frame [OF c'] assms(2) chain_frame_inner [OF ys(1,2)]])
      (use r ys ne dis assms(4) nn(5,6) in auto)
  ultimately show ?thesis by simp
qed

text \<open>Reading the list: its ends, its neighbours and its length.\<close>

lemma list_head_dlist: "dlist h l xs \<Longrightarrow> list_head l h = (case xs of [] \<Rightarrow> None | x # _ \<Rightarrow> Some x)"
  by (auto simp: dlist_def list_head_def list_next_def linked_def split: list.splits)

lemma list_tail_dlist: "dlist h l xs \<Longrightarrow> list_tail l h = (if xs = [] then None else Some (last xs))"
proof (cases "xs = []")
  case False
  moreover assume "dlist h l xs"
  ultimately show ?thesis using dlist_inner(3,7,9) [of h l xs]
    by (metis list_prev_def list_tail_def)
qed (auto simp: dlist_def list_tail_def list_prev_def linked_def)

lemma list_next_dlist:
  "dlist h l (xs @ e # ys) \<Longrightarrow> list_next l e h = (case ys of [] \<Rightarrow> None | y # _ \<Rightarrow> Some y)"
proof -
  assume "dlist h l (xs @ e # ys)"
  then have "nxt h e = hd (ys @ [l])" "l \<notin> set ys" by (auto simp: dlist_split_elem linked_def)
  then show ?thesis by (cases ys) (auto simp: list_next_def)
qed

lemma list_prev_dlist:
  "dlist h l (xs @ e # ys) \<Longrightarrow> list_prev l e h = (if xs = [] then None else Some (last xs))"
proof -
  assume "dlist h l (xs @ e # ys)"
  then have "prv h e = last (l # xs)" "l \<notin> set xs" by (auto simp: dlist_split_elem linked_def)
  then show ?thesis by (cases "xs = []") (auto simp: list_prev_def dest: last_in_set)
qed

lemma list_count_loop_chain:
  "chain h (p # ys @ [l]) \<Longrightarrow> l \<notin> set (p # ys) \<Longrightarrow>
   list_count_loop h l p c = Some (c + of_nat (Suc (length ys)))"
proof (induction ys arbitrary: p c)
  case Nil
  then show ?case by (simp add: linked_def list_count_loop.simps)
next
  case (Cons y ys)
  then have "list_count_loop h l y (c + 1) = Some (c + 1 + of_nat (Suc (length ys)))"
    by (intro Cons.IH) auto
  with Cons.prems show ?case by (simp add: linked_def list_count_loop.simps [of h l p] ac_simps)
qed

lemma list_count_dlist: "dlist h l xs \<Longrightarrow> list_count l h = Some (of_nat (length xs))"
proof (cases xs)
  case (Cons x ys)
  assume "dlist h l xs"
  with Cons list_count_loop_chain [of h x ys l 0] show ?thesis
    by (auto simp: dlist_def linked_def list_count_def)
qed (auto simp: dlist_def linked_def list_count_def list_count_loop.simps)

section \<open>The queue interface\<close>

text \<open>
  What the waiting queues of the synchronisation layer need of a list: an empty list, appending a
  fresh node, unlinking a node wherever it stands.
\<close>

locale node_queue =
  fixes repr :: "'h \<Rightarrow> addr \<Rightarrow> addr list \<Rightarrow> bool"
    and init :: "addr \<Rightarrow> 'h \<Rightarrow> 'h"
    and push :: "addr \<Rightarrow> addr \<Rightarrow> 'h \<Rightarrow> 'h"
    and unlink :: "addr \<Rightarrow> 'h \<Rightarrow> 'h"
  assumes repr_init: "repr (init l h) l []"
    and repr_push: "repr h l xs \<Longrightarrow> n \<noteq> l \<Longrightarrow> n \<notin> set xs \<Longrightarrow> repr (push l n h) l (xs @ [n])"
    and repr_unlink: "repr h l (xs @ e # ys) \<Longrightarrow> repr (unlink e h) l (xs @ ys)"
    and repr_distinct: "repr h l xs \<Longrightarrow> distinct xs"
begin

lemma repr_push_all:
  "repr h l xs \<Longrightarrow> distinct ns \<Longrightarrow> l \<notin> set ns \<Longrightarrow> set ns \<inter> set xs = {} \<Longrightarrow>
   repr (fold (push l) ns h) l (xs @ ns)"
proof (induction ns arbitrary: h xs)
  case (Cons n ns)
  then have "repr (push l n h) l (xs @ [n])" by (intro repr_push) auto
  with Cons have "repr (fold (push l) ns (push l n h)) l ((xs @ [n]) @ ns)" by (intro Cons.IH) auto
  then show ?case by simp
qed simp

lemma repr_unlink_mem:
  assumes "repr h l xs" "e \<in> set xs"
  shows "repr (unlink e h) l (remove1 e xs)"
proof -
  obtain as bs where xs: "xs = as @ e # bs" "e \<notin> set as"
    using assms(2) by (metis split_list_first)
  then have "remove1 e xs = as @ bs" by (simp add: remove1_append)
  with assms(1) xs show ?thesis using repr_unlink by simp
qed

text \<open>Unlinking the nodes that satisfy a test leaves the others, in their order.\<close>

lemma repr_unlink_filter:
  "repr h l (as @ xs) \<Longrightarrow> repr (fold unlink (filter P xs) h) l (as @ filter (\<lambda>x. \<not> P x) xs)"
proof (induction xs arbitrary: h as)
  case (Cons x xs)
  show ?case
  proof (cases "P x")
    case True
    with Cons repr_unlink [of h l as x xs] show ?thesis by simp
  next
    case False
    with Cons.IH [of h "as @ [x]"] Cons.prems show ?thesis by simp
  qed
qed simp

end

interpretation ll: node_queue dlist list_init list_add_tail list_remove
proof unfold_locales
  show "dlist (list_init l h) l []" for l h by (rule list_init_dlist)
  show "dlist (list_add_tail l n h) l (xs @ [n])" if "dlist h l xs" "n \<noteq> l" "n \<notin> set xs" for h l xs n
    using that by (intro list_add_tail_dlist) auto
  show "dlist (list_remove e h) l (xs @ ys)" if "dlist h l (xs @ e # ys)" for h l xs e ys
    using that by (rule list_remove_dlist)
  show "distinct xs" if "dlist h l xs" for h l xs
    using that by (simp add: dlist_def)
qed

section \<open>The list operations as operations on sequences\<close>


text \<open>Two lists, with heads 1 and 2.\<close>

definition two_lists :: lheap where
  "two_lists = \<lparr>nxt = (\<lambda>_. 0)(1 := 11, 11 := 12, 12 := 1, 2 := 20, 20 := 2),
     prv = (\<lambda>_. 0)(1 := 12, 11 := 1, 12 := 11, 2 := 20, 20 := 2)\<rparr>"


text \<open>
  Moving a whole list to another place and moving a slice to the head of another list keep
  every element, in order, and leave both lists well formed.
\<close>

lemma list_moves_refine:
  assumes "dlist h d (xs @ zs)" "dlist h s ys" "set (d # xs @ zs) \<inter> set (s # ys) = {}"
  shows "(case zs of [] \<Rightarrow> True | z # _ \<Rightarrow>
      dlist (list_move_before z s h) d (xs @ ys @ zs) \<and> dlist (list_move_before z s h) s []) \<and>
    dlist (list_move_head d s h) d (ys @ xs @ zs) \<and> dlist (list_move_head d s h) s [] \<and>
    dlist (list_move_tail d s h) d (xs @ zs @ ys) \<and> dlist (list_move_tail d s h) s []"
proof (intro conjI)
  show "case zs of [] \<Rightarrow> True | z # _ \<Rightarrow>
      dlist (list_move_before z s h) d (xs @ ys @ zs) \<and> dlist (list_move_before z s h) s []"
    using list_move_before_dlist [OF assms(1) refl assms(2,3)] by (cases zs) simp_all
  show "dlist (list_move_head d s h) d (ys @ xs @ zs)" "dlist (list_move_head d s h) s []"
    using list_move_after_dlist [of h d "[]" "xs @ zs" d s ys] assms by (simp_all add: list_move_head_def)
  show "dlist (list_move_tail d s h) d (xs @ zs @ ys)" "dlist (list_move_tail d s h) s []"
    using list_move_before_dlist [of h d "xs @ zs" "[]" d s ys] assms by (simp_all add: list_move_tail_def)
qed

lemma list_moves_refine_witness:
  "dlist (list_move_head 1 2 two_lists) 1 [20, 11, 12] \<and> dlist (list_move_tail 1 2 two_lists) 1 [11, 12, 20]"
proof -
  have "dlist two_lists 1 ([11] @ [12])" "dlist two_lists 2 [20]"
    by (simp_all add: two_lists_def dlist_def linked_def)
  then show ?thesis using list_moves_refine [of two_lists 1 "[11]" "[12]" 2 "[20]"] by simp
qed

end
