(* ===== verification/Resolver.thy ===== *)
theory Resolver
  imports Prelude
begin

text \<open>
  The DNS resolver of \<open>src/helpers/resolver.c\<close>: choosing the name server, the name
  compression pair \<open>dn_comp\<close> / \<open>dn_expand\<close>, the query packet and its reply on the UDP path
  (\<open>res_query_compat\<close>) and the synthetic reply on the \<open>DnsQuery_A\<close> path
  (\<open>res_query_dnsapi\<close>). Names and packets are byte lists; a result \<open>None\<close> of a routine that
  works on memory is an access outside its buffer. The Win32 and socket calls are fields of
  \<open>dns_env\<close>.
\<close>

section \<open>Names: dn_expand and dn_comp\<close>

abbreviation dot :: BYTE where "dot \<equiv> 46"

text \<open>
  One pass of the loop of \<open>dn_expand\<close>. \<open>m\<close> is the message (\<open>base\<close> to \<open>end\<close>), \<open>p\<close> and \<open>src\<close>
  are offsets in it, \<open>out\<close> the bytes written to \<open>dest\<close>, \<open>cap\<close> the size of \<open>dest\<close> and \<open>dend\<close>
  the write limit the code computes from it.
\<close>

function dn_expand_loop ::
  "BYTE list \<Rightarrow> nat \<Rightarrow> nat \<Rightarrow> nat \<Rightarrow> nat \<Rightarrow> nat \<Rightarrow> BYTE list \<Rightarrow> int \<Rightarrow> (int \<times> BYTE list) option" where
  "dn_expand_loop m src cap dend i p out len =
     (if \<not> i < length m then Some (-1, out)
      else if \<not> p < length m then None
      else if m ! p AND 0xc0 \<noteq> 0 then
        if p + 1 = length m then Some (-1, out)
        else let j = unat (m ! p AND 0x3f) * 256 + unat (m ! (p + 1));
                 len = (if len < 0 then int p + 2 - int src else len)
             in if j \<ge> length m then Some (-1, out)
                else dn_expand_loop m src cap dend (i + 2) j out len
      else if m ! p \<noteq> 0 then
        (let dotted = out \<noteq> [] in
         if dotted \<and> \<not> length out < cap then None
         else let out = (if dotted then out @ [dot] else out);
                  j = unat (m ! p);
                  p = p + 1
              in if int j \<ge> int (length m) - int p \<or> int j \<ge> int dend - int (length out) then Some (-1, out)
                 else if length m < p + j \<or> cap < length out + j then None
                 else dn_expand_loop m src cap dend (i + 2) (p + j) (out @ take j (drop p m)) len)
      else if \<not> length out < cap then None
      else Some (if len < 0 then int p + 1 - int src else len, out))"
  by pat_completeness auto
termination
  by (relation "measure (\<lambda>(m, src, cap, dend, i, p, out, len). length m - i)") auto

declare dn_expand_loop.simps [simp del]

text \<open>The string left in \<open>dest\<close> on success is \<open>out\<close> and its terminator.\<close>

definition dn_expand :: "BYTE list \<Rightarrow> nat \<Rightarrow> int \<Rightarrow> (int \<times> BYTE list) option" where
  "dn_expand m src space =
     (if src = length m \<or> space \<le> 0 then Some (-1, [])
      else dn_expand_loop m src (nat space) (nat (if space > 254 then 254 else space)) 0 src [] (-1))"

text \<open>
  \<open>dn_comp\<close> returns its value and the bytes it has written; \<open>space\<close> is what is left of the
  destination. The two pointer arguments of the interface are not used by the code.
\<close>

function dn_comp_loop :: "BYTE list \<Rightarrow> BYTE list \<Rightarrow> int \<Rightarrow> int \<times> BYTE list" where
  "dn_comp_loop src out space =
     (if src = [] then
        (if space < 1 then (-1, out) else (int (length out) + 1, out @ [0]))
      else
        let label = takeWhile (\<lambda>c. c \<noteq> dot) src; label_len = length label in
        if label_len > 63 then (-1, out)
        else if space < int label_len + 1 then (-1, out)
        else let rest = drop label_len src;
                 rest = (if rest \<noteq> [] then tl rest else rest)
             in dn_comp_loop rest (out @ of_nat label_len # label) (space - 1 - int label_len))"
  by pat_completeness auto
termination
proof (relation "measure (\<lambda>(src, out, space). length src)", goal_cases)
  case (2 src out space label label_len rest rest')
  show ?case
  proof (cases "label_len = length src")
    case True
    with 2 show ?thesis by (cases src) auto
  next
    case False
    then have "label_len < length src" using 2 by (simp add: length_takeWhile_le le_neq_implies_less)
    with 2 show ?thesis by auto
  qed
qed simp

declare dn_comp_loop.simps [simp del]

definition dn_comp :: "BYTE list \<Rightarrow> int \<Rightarrow> int \<times> BYTE list" where
  "dn_comp src space = dn_comp_loop src [] space"

text \<open>
  Memory safety of \<open>dn_expand\<close>, whatever the message holds: no access leaves the message or the
  destination, so the loop, which always ends, never yields \<open>None\<close>; and what it leaves in the
  destination fits with its terminator.
\<close>

lemma dn_expand_loop_safe:
  assumes "p < length m" "length out < dend" "dend \<le> cap"
  shows "\<exists>r out'. dn_expand_loop m src cap dend i p out len = Some (r, out') \<and> length out' \<le> dend \<and>
    (r \<noteq> -1 \<longrightarrow> length out' < dend)"
  using assms
proof (induction m src cap dend i p out len rule: dn_expand_loop.induct)
  case (1 m src cap dend i p out len)
  show ?case
  proof (cases "i < length m")
    case i: True
    consider (ptr) "m ! p AND 0xc0 \<noteq> 0" | (label) "m ! p AND 0xc0 = 0" "m ! p \<noteq> 0" | (stop) "m ! p AND 0xc0 = 0" "m ! p = 0"
      by blast
    then show ?thesis
    proof cases
      case ptr
      with 1 i show ?thesis
        by (subst dn_expand_loop.simps) (auto simp: Let_def)
    next
      case label
      let ?out = "if out \<noteq> [] then out @ [dot] else out"
      let ?j = "unat (m ! p)"
      show ?thesis
      proof (cases "int ?j \<ge> int (length m) - int (p + 1) \<or> int ?j \<ge> int dend - int (length ?out)")
        case True
        with 1(3,4,5) i label show ?thesis
          by (subst dn_expand_loop.simps) (auto simp: Let_def)
      next
        case False
        then have b: "p + 1 + ?j < length m" "length ?out + ?j < dend" by linarith+
        have "\<exists>r out'. dn_expand_loop m src cap dend (i + 2) (p + 1 + ?j) (?out @ take ?j (drop (p + 1) m)) len =
            Some (r, out') \<and> length out' \<le> dend \<and> (r \<noteq> -1 \<longrightarrow> length out' < dend)"
          by (rule 1(2)) (use 1(3,4,5) i label False b in auto)
        with False b 1(3,4,5) i label show ?thesis
          by (subst dn_expand_loop.simps) (auto simp: Let_def)
      qed
    next
      case stop
      with 1(3,4,5) i show ?thesis by (subst dn_expand_loop.simps) auto
    qed
  qed (use 1(3,4,5) in \<open>subst dn_expand_loop.simps; auto\<close>)
qed

lemma dn_expand_safe_lemma:
  assumes "src \<le> length m"
  shows "\<exists>r out. dn_expand m src space = Some (r, out) \<and>
    (r \<noteq> -1 \<longrightarrow> length out < 254 \<and> int (length out) < space)"
proof (cases "src = length m \<or> space \<le> 0")
  case False
  let ?dend = "nat (if space > 254 then 254 else space)"
  have "\<exists>r out. dn_expand_loop m src (nat space) ?dend 0 src [] (-1) = Some (r, out) \<and>
      length out \<le> ?dend \<and> (r \<noteq> -1 \<longrightarrow> length out < ?dend)"
    by (rule dn_expand_loop_safe) (use False assms in auto)
  then obtain r out where "dn_expand_loop m src (nat space) ?dend 0 src [] (-1) = Some (r, out)"
      "r \<noteq> -1 \<longrightarrow> length out < ?dend" by blast
  then show ?thesis using False by (auto simp: dn_expand_def split: if_splits)
qed (auto simp: dn_expand_def)

lemma dn_comp_loop_bounds:
  "dn_comp_loop src out space = (r, bs) \<Longrightarrow> 0 \<le> space \<Longrightarrow>
   int (length bs) \<le> int (length out) + space \<and> (r = -1 \<or> r = int (length bs))"
proof (induction src out space arbitrary: r bs rule: dn_comp_loop.induct)
  case (1 src out space)
  show ?case
  proof (cases "src = []")
    case True
    with 1(2,3) show ?thesis by (subst (asm) dn_comp_loop.simps) (auto split: if_splits)
  next
    case False
    let ?l = "takeWhile (\<lambda>c. c \<noteq> dot) src"
    let ?rest = "drop (length ?l) src"
    let ?rest' = "if ?rest \<noteq> [] then tl ?rest else ?rest"
    let ?out = "out @ of_nat (length ?l) # ?l"
    show ?thesis
    proof (cases "length ?l > 63 \<or> space < int (length ?l) + 1")
      case True
      with 1(2,3) False show ?thesis
        by (subst (asm) dn_comp_loop.simps) (auto simp: Let_def split: if_splits)
    next
      case f: False
      with 1(2) False have "dn_comp_loop ?rest' ?out (space - 1 - int (length ?l)) = (r, bs)"
        by (subst (asm) dn_comp_loop.simps) (simp add: Let_def)
      then have "int (length bs) \<le> int (length ?out) + (space - 1 - int (length ?l)) \<and> (r = -1 \<or> r = int (length bs))"
        by (intro 1(1)) (use f False in auto)
      then show ?thesis by simp
    qed
  qed
qed

section \<open>The wire format\<close>

text \<open>
  The reference: a name is its labels joined by dots, its wire form is each label after its
  length, and a zero. A label is good when the code's limits allow it.
\<close>

fun join_dots :: "BYTE list list \<Rightarrow> BYTE list" where
  "join_dots [] = []"
| "join_dots [l] = l"
| "join_dots (l # ls) = l @ dot # join_dots ls"

definition wire :: "BYTE list list \<Rightarrow> BYTE list" where
  "wire ls = concat (map (\<lambda>l. of_nat (length l) # l) ls)"

definition good_label :: "BYTE list \<Rightarrow> bool" where
  "good_label l \<longleftrightarrow> l \<noteq> [] \<and> length l \<le> 63 \<and> dot \<notin> set l \<and> no_nul l"

lemma wire_simps [simp]: "wire [] = []" "wire (l # ls) = of_nat (length l) # l @ wire ls"
  by (simp_all add: wire_def)

lemma length_wire: "length (wire ls) = sum_list (map (\<lambda>l. Suc (length l)) ls)"
  by (induction ls) auto

lemma length_join_dots: "ls \<noteq> [] \<Longrightarrow> Suc (length (join_dots ls)) = length (wire ls)"
  by (induction ls rule: join_dots.induct) auto

lemma join_dots_Cons: "join_dots (l # ls) = l @ (if ls = [] then [] else dot # join_dots ls)"
  by (cases ls) auto

lemma two_per_label: "list_all good_label ls \<Longrightarrow> 2 * length ls \<le> length (wire ls)"
  by (induction ls) (auto simp: good_label_def neq_Nil_conv)

lemma len_byte:
  assumes "0 < n" "n \<le> 63"
  shows "(of_nat n :: BYTE) AND 0xc0 = 0" "(of_nat n :: BYTE) \<noteq> 0" "unat (of_nat n :: BYTE) = n"
proof -
  have "(of_nat n :: BYTE) AND 0xc0 = 0"
    using assms(2) by (auto simp: less_Suc_eq eval_nat_numeral le_Suc_eq)
  then show "(of_nat n :: BYTE) AND 0xc0 = 0" .
  show u: "unat (of_nat n :: BYTE) = n" using assms by (simp add: unat_of_nat)
  show "(of_nat n :: BYTE) \<noteq> 0" using u assms by (metis less_numeral_extra(3) unat_0)
qed

lemma takeWhile_label: "dot \<notin> set l \<Longrightarrow> takeWhile (\<lambda>c. c \<noteq> dot) (l @ dot # r) = l"
  by (subst takeWhile_append2) auto

lemma takeWhile_label_end: "dot \<notin> set l \<Longrightarrow> takeWhile (\<lambda>c. c \<noteq> dot) l = l"
  by (induction l) auto

lemma dn_comp_loop_wire:
  "list_all good_label ls \<Longrightarrow> int (length (wire ls)) < space \<Longrightarrow>
   dn_comp_loop (join_dots ls) out space =
     (int (length out + length (wire ls)) + 1, out @ wire ls @ [0])"
proof (induction ls arbitrary: out space)
  case Nil
  then show ?case by (subst dn_comp_loop.simps) simp
next
  case (Cons l ls)
  let ?r = "if ls = [] then [] else dot # join_dots ls"
  have g: "l \<noteq> []" "length l \<le> 63" "dot \<notin> set l" using Cons.prems by (auto simp: good_label_def)
  have tw: "takeWhile (\<lambda>c. c \<noteq> dot) (l @ ?r) = l"
    using g by (simp add: takeWhile_label takeWhile_label_end)
  have rest: "(if drop (length l) (l @ ?r) \<noteq> [] then tl (drop (length l) (l @ ?r)) else drop (length l) (l @ ?r))
      = join_dots ls" by simp
  have "dn_comp_loop (join_dots (l # ls)) out space =
      dn_comp_loop (join_dots ls) (out @ of_nat (length l) # l) (space - 1 - int (length l))"
    unfolding join_dots_Cons
    using g Cons.prems(2) by (subst dn_comp_loop.simps, simp only: tw Let_def rest) auto
  also have "\<dots> = (int (length (out @ of_nat (length l) # l) + length (wire ls)) + 1,
      (out @ of_nat (length l) # l) @ wire ls @ [0])"
    by (rule Cons.IH) (use Cons.prems in auto)
  finally show ?case by simp
qed

lemma dn_expand_loop_wire:
  assumes "list_all good_label ls" "m = pre @ wire ls @ 0 # post" "p = length pre"
    and "i + 2 * length ls < length m"
    and "length out + (if out = [] \<or> ls = [] then 0 else 1) + length (join_dots ls) < dend" "dend \<le> cap"
  shows "dn_expand_loop m src cap dend i p out len =
    Some (if len < 0 then int (p + length (wire ls)) + 1 - int src else len,
      out @ (if out = [] \<or> ls = [] then [] else [dot]) @ join_dots ls)"
  using assms
proof (induction ls arbitrary: pre p i out)
  case Nil
  then have "m ! p = 0" "p < length m" by auto
  with Nil show ?case by (subst dn_expand_loop.simps) auto
next
  case (Cons l ls)
  let ?n = "of_nat (length l) :: BYTE"
  have g: "l \<noteq> []" "0 < length l" "length l \<le> 63" "good_label l" using Cons.prems(1) by (auto simp: good_label_def)
  note b = len_byte [OF g(2,3)]
  have m: "m = (pre @ ?n # l) @ wire ls @ 0 # post" and p: "p = length pre" using Cons.prems by auto
  have mp: "m ! p = ?n" "p < length m" "Suc p + length l < length m" "drop (Suc p) m = l @ wire ls @ 0 # post"
    using m p by (auto simp: nth_append)
  let ?out = "if out \<noteq> [] then out @ [dot] else out"
  have i: "i < length m" using Cons.prems(4) by simp
  have lo: "length ?out + length l < dend"
    using Cons.prems(5) by (auto simp: join_dots_Cons split: if_splits)
  have IH: "dn_expand_loop m src cap dend (i + 2) (length (pre @ ?n # l)) (?out @ l) len =
    Some (if len < 0 then int (length (pre @ ?n # l) + length (wire ls)) + 1 - int src else len,
      (?out @ l) @ (if ?out @ l = [] \<or> ls = [] then [] else [dot]) @ join_dots ls)"
    by (rule Cons.IH) (use Cons.prems m g in \<open>auto simp: join_dots_Cons split: if_splits\<close>)
  have "dn_expand_loop m src cap dend i p out len =
      dn_expand_loop m src cap dend (i + 2) (length (pre @ ?n # l)) (?out @ l) len"
    using i mp b lo Cons.prems(6) p
    by (subst dn_expand_loop.simps) (auto simp: Let_def)
  also note IH
  finally show ?case using p g(1) by (auto simp: join_dots_Cons)
qed

lemma dn_expand_wire:
  assumes "list_all good_label ls" "int (length (join_dots ls)) < min 254 space"
  shows "dn_expand (pre @ wire ls @ 0 # post) (length pre) space =
    Some (int (length (wire ls)) + 1, join_dots ls)"
proof -
  let ?m = "pre @ wire ls @ 0 # post"
  have "2 * length ls < length ?m" using two_per_label [OF assms(1)] by simp
  then have "dn_expand_loop ?m (length pre) (nat space) (nat (if space > 254 then 254 else space)) 0 (length pre) [] (-1) =
      Some (int (length pre + length (wire ls)) + 1 - int (length pre), join_dots ls)"
    using assms by (subst dn_expand_loop_wire [OF assms(1) refl refl]) auto
  then show ?thesis using assms(2) by (simp add: dn_expand_def)
qed

text \<open>A name given by a compression pointer to an earlier place expands to the name stored there.\<close>

lemma dn_expand_pointer:
  assumes "list_all good_label ls" "int (length (join_dots ls)) < min 254 space"
    and m: "m = pre @ wire ls @ 0 # mid @ hi # lo # post"
    and "hi AND 0xc0 = 0xc0" "unat (hi AND 0x3f) * 256 + unat lo = length pre"
  shows "dn_expand m (length pre + length (wire ls) + 1 + length mid) space = Some (2, join_dots ls)"
proof -
  let ?src = "length pre + length (wire ls) + 1 + length mid"
  have m': "m = (pre @ wire ls @ 0 # mid) @ hi # lo # post" using m by simp
  have at: "m ! ?src = hi" "m ! Suc ?src = lo" "Suc ?src < length m"
    unfolding m' by (simp_all add: nth_append)
  have "2 + 2 * length ls < length m" using two_per_label [OF assms(1)] m by simp
  then have "dn_expand_loop m ?src (nat space) (nat (if space > 254 then 254 else space)) (Suc (Suc 0)) (length pre) [] 2 = Some (2, join_dots ls)"
    by (subst dn_expand_loop_wire [OF assms(1) _ refl, where post = "mid @ hi # lo # post"]) (use assms m in auto)
  moreover have "length pre < length m" using m by simp
  ultimately have "dn_expand_loop m ?src (nat space) (nat (if space > 254 then 254 else space)) 0 ?src [] (-1) = Some (2, join_dots ls)"
    using at assms(4,5) by (subst dn_expand_loop.simps) (auto simp: Let_def)
  then show ?thesis using at assms(2) by (auto simp: dn_expand_def)
qed

section \<open>The environment: system calls the resolver makes\<close>

record dns_record =
  wType :: WORD
  dwTtl :: DWORD
  TXT :: "BYTE list"

text \<open>
  \<open>net_first\<close> and \<open>net_second\<close> are the results of the two \<open>GetNetworkParams\<close> calls,
  \<open>reg_value\<close> a registry read (type, data, length), \<open>inet_none\<close> whether \<open>inet_addr\<close> rejects
  a string, \<open>reply\<close> the datagram received (\<open>None\<close> on error), \<open>DnsQuery\<close> the status and the
  records of \<open>DnsQuery_A\<close>.
\<close>

record dns_env =
  net_first :: DWORD
  net_second :: DWORD
  net_server :: "BYTE list"
  reg_open :: bool
  reg_value :: "string \<Rightarrow> (DWORD \<times> BYTE list \<times> nat) option"
  inet_none :: "BYTE list \<Rightarrow> bool"
  host_known :: "BYTE list \<Rightarrow> bool"
  socket_ok :: bool
  rand_id :: WORD
  send_ok :: bool
  reply :: "BYTE list option"
  have_dnsapi :: bool
  os_major :: DWORD
  os_minor :: DWORD
  DnsQuery :: "BYTE list \<Rightarrow> WORD \<Rightarrow> DWORD \<Rightarrow> DWORD \<times> dns_record list"

fun dns_from_keys :: "dns_env \<Rightarrow> string list \<Rightarrow> BYTE list option" where
  "dns_from_keys env [] = None"
| "dns_from_keys env (k # ks) =
     (case reg_value env k of
        None \<Rightarrow> dns_from_keys env ks
      | Some (ty, data, datalen) \<Rightarrow>
          if datalen > 1 \<and> ty = 1
          then let d = takeWhile (\<lambda>c. c \<noteq> 32) (cstr data)
               in if inet_none env d then None else Some d
          else dns_from_keys env ks)"

definition get_dns_fromreg :: "dns_env \<Rightarrow> BYTE list option" where
  "get_dns_fromreg env =
     (if \<not> reg_open env then None
      else dns_from_keys env [''ClamWinNameServer'', ''NameServer'', ''DhcpNameServer''])"

definition get_dns :: "dns_env \<Rightarrow> BYTE list option" where
  "get_dns env =
     (if net_first env = 111 \<or> net_first env = 0
      then if net_second env \<noteq> 0 then None else Some (net_server env)
      else if net_first env = 50 then get_dns_fromreg env
      else None)"

definition rcode_to_string :: "BYTE \<Rightarrow> string" where
  "rcode_to_string rcode =
     (let rcodes = [''No error'', ''Format error'', ''Server failure'', ''Non-Existent Domain'',
        ''Not Implemented'', ''Query Refused'', ''Name Exists when it should not'',
        ''RR Set Exists when it should not'', ''RR Set that should exist does not'',
        ''Server Not Authoritative for zone'', ''Name not contained in zone'',
        ''DSO-TYPE Not Implemented'']
      in if rcode < 12 then rcodes ! unat rcode else ''Unassigned'')"

section \<open>The UDP path\<close>

text \<open>
  The header is 12 bytes: id (network order), flag byte 2 with \<open>rd\<close> in bit 0 and \<open>qr\<close> in bit
  7, flag byte 3 with the response code in its low four bits, then four 16-bit counts.
\<close>

definition be16 :: "DWORD \<Rightarrow> BYTE list" where
  "be16 w = [ucast (drop_bit 8 w AND 0xff), ucast (w AND 0xff)]"

definition be32 :: "DWORD \<Rightarrow> BYTE list" where
  "be32 w = [ucast (drop_bit 24 w AND 0xff), ucast (drop_bit 16 w AND 0xff),
     ucast (drop_bit 8 w AND 0xff), ucast (w AND 0xff)]"

definition query_header :: "WORD \<Rightarrow> BYTE list" where
  "query_header qid = [ucast (drop_bit 8 qid), ucast qid, 1, 0, 0, 1, 0, 0, 0, 0, 0, 0]"

text \<open>
  The name is copied backwards into the packet, each dot becoming the length of the label after
  it: \<open>n\<close> characters are left, \<open>rpos\<close> (\<open>rev\<close> in the code) is the write position, \<open>start\<close> the position of the last dot.
\<close>

fun stringize :: "BYTE list \<Rightarrow> nat \<Rightarrow> BYTE list \<Rightarrow> nat \<Rightarrow> nat \<Rightarrow> BYTE list \<times> nat \<times> nat" where
  "stringize dname 0 packet rpos start = (packet, rpos, start)"
| "stringize dname (Suc i) packet rpos start =
     (if chr_at dname i \<noteq> dot
      then stringize dname i (packet[rpos := chr_at dname i]) (rpos - 1) start
      else stringize dname i (packet[rpos := of_nat (start - rpos - 1)]) (rpos - 1) rpos)"

definition build_query :: "BYTE list \<Rightarrow> WORD \<Rightarrow> BYTE list" where
  "build_query dname qid =
     (let dlen = length dname;
          len = 12 + 1 + dlen + 1 + 2 * 2;
          packet = query_header qid @ replicate (len - 12) 0;
          off = 12 + 1 + dlen;
          (packet, rpos, start) = stringize dname (dlen + 1) packet off off;
          packet = packet[rpos := of_nat (start - rpos - 1)];
          packet = packet[off := 0];
          off = off + 1;
          packet = packet[off := 0, off + 1 := 16];
          off = off + 2
      in packet[off := 0, off + 1 := 1])"

definition be_word :: "BYTE \<Rightarrow> BYTE \<Rightarrow> WORD" where
  "be_word hi lo = push_bit 8 (ucast hi) OR ucast lo"

text \<open>The checks on the reply, in the order of the code; \<open>n\<close> is the number of bytes received.\<close>

definition check_reply :: "BYTE list \<Rightarrow> nat \<Rightarrow> WORD \<Rightarrow> int" where
  "check_reply answer n qid =
     (if n < 12 then -1
      else if be_word (answer ! 0) (answer ! 1) \<noteq> qid then -1
      else if answer ! 2 AND 0x80 = 0 then -1
      else if answer ! 3 AND 0x0f \<noteq> 0 then -1
      else if be_word (answer ! 6) (answer ! 7) < 1 then -1
      else int n)"

text \<open>
  The result is the return value, the answer buffer and the number of sockets left open. The
  receive call is given \<open>NS_PACKETSZ\<close> whatever the size of \<open>answer\<close>: a longer datagram than the
  buffer holds is written past its end.
\<close>

definition res_query_compat :: "dns_env \<Rightarrow> BYTE list \<Rightarrow> BYTE list \<Rightarrow> (int \<times> BYTE list \<times> nat) option" where
  "res_query_compat env dname answer =
     (case get_dns env of
        None \<Rightarrow> Some (-1, answer, 0)
      | Some nameserver \<Rightarrow>
          if \<not> host_known env nameserver then Some (-1, answer, 0)
          else if \<not> socket_ok env then Some (-1, answer, 0)
          else if \<not> send_ok env then Some (-1, answer, 1)
          else case reply env of
              None \<Rightarrow> Some (-1, answer, 1)
            | Some dgram \<Rightarrow>
                let data = take 512 dgram in
                if length answer < length data then None
                else let answer = data @ drop (length data) answer
                     in Some (check_reply answer (length data) (rand_id env), answer, 1))"

section \<open>The DnsQuery_A path\<close>

definition put :: "nat \<Rightarrow> BYTE list \<Rightarrow> BYTE list \<Rightarrow> BYTE list option" where
  "put off bs buf =
     (if off + length bs \<le> length buf then Some (take off buf @ bs @ drop (off + length bs) buf) else None)"

definition dnsapi_header :: "BYTE list \<Rightarrow> BYTE list" where
  "dnsapi_header answer =
     answer[0 := 1, 1 := 0, 2 := 0x81, 3 := (answer ! 3 AND 0x30) OR 0x80, 4 := 0, 5 := 1, 6 := 0, 7 := 0]"

definition query_options :: "dns_env \<Rightarrow> DWORD" where
  "query_options env =
     (let opts = 8 OR 0x100000
      in if os_major env > 6 \<or> (os_major env = 5 \<and> os_minor env > 0) then opts + 0x40 else opts)"

fun answer_records ::
  "DWORD \<Rightarrow> DWORD \<Rightarrow> nat \<Rightarrow> dns_record list \<Rightarrow> BYTE list \<Rightarrow> nat \<Rightarrow> (int \<times> BYTE list) option" where
  "answer_records klass type anslen [] answer offset = Some (-1, answer)"
| "answer_records klass type anslen (rr # rrs) answer offset =
     (if wType rr = ucast type then
        (case put 6 [0, 1] answer of None \<Rightarrow> None | Some answer \<Rightarrow>
         if offset + 2 > anslen then Some (-1, answer)
         else case put offset [0xC0, 12] answer of None \<Rightarrow> None | Some answer \<Rightarrow>
         let offset = offset + 2 in
         if offset + 10 > anslen then Some (-1, answer)
         else case put offset (be16 type @ be16 klass @ be32 (dwTtl rr)) answer of None \<Rightarrow> None | Some answer \<Rightarrow>
         let offset = offset + 8; txtlen = length (TXT rr); rdata_len = txtlen + 1 in
         if offset + 2 + rdata_len > anslen then Some (-1, answer)
         else case put offset (be16 (of_nat rdata_len) @ [of_nat txtlen]) answer of None \<Rightarrow> None | Some answer \<Rightarrow>
         let offset = offset + 3 in
         case put offset (TXT rr) answer of None \<Rightarrow> None | Some answer \<Rightarrow>
         Some (int (offset + txtlen), answer))
      else answer_records klass type anslen rrs answer offset)"

definition res_query_dnsapi ::
  "dns_env \<Rightarrow> BYTE list \<Rightarrow> DWORD \<Rightarrow> DWORD \<Rightarrow> BYTE list \<Rightarrow> nat \<Rightarrow> (int \<times> BYTE list \<times> nat) option" where
  "res_query_dnsapi env dname klass type answer anslen =
     (if anslen \<le> 12 then Some (-1, answer, 0)
      else case DnsQuery env dname (ucast type) (query_options env) of (s, rrs) \<Rightarrow>
      if s \<noteq> 0 then res_query_compat env dname answer
      else
        let answer = dnsapi_header answer;
            (qname_len, written) = dn_comp dname (int anslen - 12)
        in case put 12 written answer of None \<Rightarrow> None | Some answer \<Rightarrow>
        if qname_len < 0 then Some (-1, answer, 0)
        else let offset = 12 + nat qname_len in
        if offset + 4 > anslen then Some (-1, answer, 0)
        else case put offset (be16 type @ be16 klass) answer of None \<Rightarrow> None | Some answer \<Rightarrow>
        map_option (\<lambda>(ret, answer). (ret, answer, 0)) (answer_records klass type anslen rrs answer (offset + 4)))"

definition res_query ::
  "dns_env \<Rightarrow> BYTE list \<Rightarrow> DWORD \<Rightarrow> DWORD \<Rightarrow> BYTE list \<Rightarrow> nat \<Rightarrow> (int \<times> BYTE list \<times> nat) option" where
  "res_query env dname klass type answer anslen =
     (if have_dnsapi env then res_query_dnsapi env dname klass type answer anslen
      else res_query_compat env dname answer)"

section \<open>The query packet\<close>

text \<open>The reference: cut the name at its dots and write each piece after its length.\<close>

fun labels :: "BYTE list \<Rightarrow> BYTE list list" where
  "labels [] = [[]]"
| "labels (c # s) = (if c = dot then [] # labels s
     else case labels s of [] \<Rightarrow> [[c]] | l # ls \<Rightarrow> (c # l) # ls)"

text \<open>What the backward loop leaves behind: every dot replaced by the length of the label after it.\<close>

fun enc_tail :: "BYTE list \<Rightarrow> BYTE list" where
  "enc_tail [] = []"
| "enc_tail (c # s) =
     (if c = dot then of_nat (length (takeWhile (\<lambda>c. c \<noteq> dot) s)) else c) # enc_tail s"

lemma labels_ne [simp]: "labels s \<noteq> []"
  by (cases s) (auto split: list.split)

lemma hd_labels: "hd (labels s) = takeWhile (\<lambda>c. c \<noteq> dot) s"
  by (induction s) (auto split: list.split)

lemma length_enc_tail [simp]: "length (enc_tail s) = length s"
  by (induction s) auto

lemma enc_tail_labels: "enc_tail s = hd (labels s) @ wire (tl (labels s))"
proof (induction s)
  case (Cons c s)
  have "wire (labels s) = of_nat (length (hd (labels s))) # hd (labels s) @ wire (tl (labels s))"
    by (metis hd_Cons_tl labels_ne wire_simps(2))
  with Cons show ?case by (auto simp: hd_labels split: list.split)
qed simp

lemma wire_labels: "wire (labels s) = of_nat (length (takeWhile (\<lambda>c. c \<noteq> dot) s)) # enc_tail s"
  unfolding enc_tail_labels hd_labels [symmetric] by (metis hd_Cons_tl labels_ne wire_simps(2) append_Cons)

lemma labels_join_dots: "ls \<noteq> [] \<Longrightarrow> \<forall>l \<in> set ls. dot \<notin> set l \<Longrightarrow> labels (join_dots ls) = ls"
proof (induction ls rule: join_dots.induct)
  case (2 l)
  then show ?case by (induction l) auto
next
  case (3 l l' ls)
  then have IH: "labels (join_dots (l' # ls)) = l' # ls" and l: "dot \<notin> set l" by auto
  have "labels (l @ dot # s) = l # labels s" for s
    using l by (induction l) auto
  with IH show ?case by simp
qed simp

lemma stringize_enc:
  assumes "i \<le> length s" "length A = 13 + i"
  shows "stringize s i (A @ enc_tail (drop i s) @ B) (12 + i) (13 + i + length (takeWhile (\<lambda>c. c \<noteq> dot) (drop i s))) =
    (take 13 A @ enc_tail s @ B, 12, 13 + length (takeWhile (\<lambda>c. c \<noteq> dot) s))"
  using assms
proof (induction i arbitrary: A)
  case (Suc i)
  then obtain a A' where A: "A = A' @ [a]" "length A' = 13 + i"
    by (metis append_butlast_last_id length_butlast add_Suc_right diff_Suc_1 length_0_conv nat.distinct(1))
  have d: "drop i s = s ! i # drop (Suc i) s" using Suc.prems by (simp add: Cons_nth_drop_Suc)
  let ?tw = "length (takeWhile (\<lambda>c. c \<noteq> dot) (drop (Suc i) s))"
  have upd: "(A @ r)[12 + Suc i := v] = A' @ v # r" for v r
    using A by (simp add: list_update_append)
  have c: "chr_at s i = s ! i" using Suc.prems by simp
  have IH: "stringize s i (A' @ enc_tail (drop i s) @ B) (12 + i) (13 + i + length (takeWhile (\<lambda>c. c \<noteq> dot) (drop i s))) =
    (take 13 A @ enc_tail s @ B, 12, 13 + length (takeWhile (\<lambda>c. c \<noteq> dot) s))"
    using Suc.IH [of A'] A Suc.prems by simp
  show ?case
  proof (cases "s ! i = dot")
    case True
    have "stringize s (Suc i) (A @ enc_tail (drop (Suc i) s) @ B) (12 + Suc i) (13 + Suc i + ?tw) =
        stringize s i ((A @ enc_tail (drop (Suc i) s) @ B)[12 + Suc i := of_nat ?tw]) (12 + i) (12 + Suc i)"
      by (simp only: stringize.simps c True) simp
    also have "\<dots> = stringize s i (A' @ enc_tail (drop i s) @ B) (12 + i) (13 + i + length (takeWhile (\<lambda>c. c \<noteq> dot) (drop i s)))"
      unfolding upd using True by (simp add: d)
    finally show ?thesis using IH by simp
  next
    case False
    have "stringize s (Suc i) (A @ enc_tail (drop (Suc i) s) @ B) (12 + Suc i) (13 + Suc i + ?tw) =
        stringize s i ((A @ enc_tail (drop (Suc i) s) @ B)[12 + Suc i := s ! i]) (12 + i) (13 + Suc i + ?tw)"
      by (simp only: stringize.simps c False) (simp add: False)
    also have "\<dots> = stringize s i (A' @ enc_tail (drop i s) @ B) (12 + i) (13 + i + length (takeWhile (\<lambda>c. c \<noteq> dot) (drop i s)))"
      unfolding upd using False by (simp add: d add.assoc)
    finally show ?thesis using IH by simp
  qed
qed simp

lemma build_query_wire: "no_nul dname \<Longrightarrow>
    build_query dname qid = query_header qid @ wire (labels dname) @ [0, 0, 16, 0, 1]"
proof -
  assume nn: "no_nul dname"
  let ?n = "length dname"
  let ?tw = "length (takeWhile (\<lambda>c. c \<noteq> dot) dname)"
  let ?A = "query_header qid @ replicate (1 + ?n) 0"
  have hdr: "length (query_header qid) = 12" by (simp add: query_header_def)
  have p0: "query_header qid @ replicate (12 + 1 + ?n + 1 + 2 * 2 - 12) 0 = ?A @ 0 # replicate 4 0"
    by (simp add: replicate_add [symmetric] replicate_append_same flip: replicate_Suc)
  have "stringize dname (?n + 1) (?A @ 0 # replicate 4 0) (12 + 1 + ?n) (12 + 1 + ?n) =
      stringize dname ?n (?A @ 0 # replicate 4 0) (12 + ?n) (13 + ?n)"
    using hdr by (simp add: list_update_append)
  also have "\<dots> = (take 13 ?A @ enc_tail dname @ 0 # replicate 4 0, 12, 13 + ?tw)"
    using stringize_enc [of ?n dname ?A "0 # replicate 4 0"] hdr by simp
  also have "take 13 ?A = query_header qid @ [0]" using hdr by (simp add: take_Cons')
  finally have st: "stringize dname (?n + 1) (?A @ 0 # replicate 4 0) (12 + 1 + ?n) (12 + 1 + ?n) =
      (query_header qid @ 0 # enc_tail dname @ 0 # replicate 4 0, 12, 13 + ?tw)" by simp
  show ?thesis
    unfolding build_query_def Let_def p0 st prod.case wire_labels
    using hdr by (simp add: list_update_append numeral_eq_Suc)
qed

section \<open>The synthetic reply\<close>

lemma put_Some: "off + length bs \<le> length buf \<Longrightarrow> \<exists>buf'. put off bs buf = Some buf' \<and> length buf' = length buf"
  by (simp add: put_def)

lemma put_None_iff [simp]: "put off bs buf = None \<longleftrightarrow> length buf < off + length bs"
  by (simp add: put_def not_le)

lemma put_length: "put off bs buf = Some buf' \<Longrightarrow> length buf' = length buf"
  by (auto simp: put_def split: if_splits)

lemma put_at: "length pre = off \<Longrightarrow> length old = length bs \<Longrightarrow> put off bs (pre @ old @ post) = Some (pre @ bs @ post)"
  by (simp add: put_def)

lemma length_be [simp]: "length (be16 w) = 2" "length (be32 w) = 4"
  by (simp_all add: be16_def be32_def)

lemma length_dnsapi_header [simp]: "length (dnsapi_header a) = length a"
  by (simp add: dnsapi_header_def)

lemma answer_records_safe:
  "length answer = anslen \<Longrightarrow> 12 \<le> offset \<Longrightarrow> offset \<le> anslen \<Longrightarrow>
   \<exists>r ans. answer_records klass type anslen rrs answer offset = Some (r, ans) \<and>
     length ans = anslen \<and> r \<le> int anslen"
proof (induction rrs)
  case (Cons rr rrs)
  then show ?case
    by (auto simp: Let_def split: option.split dest!: put_length)
qed simp

lemma dnsapi_safe_lemma:
  assumes "length answer = anslen" "fst (DnsQuery env dname (ucast type) (query_options env)) = 0"
  shows "\<exists>r ans. res_query_dnsapi env dname klass type answer anslen = Some (r, ans, 0) \<and>
    length ans = anslen \<and> r \<le> int anslen"
proof (cases "anslen \<le> 12")
  case True
  then show ?thesis using assms by (simp add: res_query_dnsapi_def)
next
  case f: False
  obtain rrs where q: "DnsQuery env dname (ucast type) (query_options env) = (0, rrs)"
    using assms(2) by (metis prod.collapse)
  obtain r bs where c: "dn_comp dname (int anslen - 12) = (r, bs)" by fastforce
  then have b: "int (length bs) \<le> int anslen - 12" "r = -1 \<or> r = int (length bs)"
    using dn_comp_loop_bounds [of dname "[]" "int anslen - 12" r bs] f by (auto simp: dn_comp_def)
  then obtain a1 where a1: "put 12 bs (dnsapi_header answer) = Some a1" "length a1 = anslen"
    using put_Some [of 12 bs "dnsapi_header answer"] assms(1) f by auto
  show ?thesis
  proof (cases "r < 0 \<or> 12 + nat r + 4 > anslen")
    case True
    then show ?thesis using f q c a1 by (auto simp: res_query_dnsapi_def)
  next
    case False
    then obtain a2 where a2: "put (12 + nat r) (be16 type @ be16 klass) a1 = Some a2" "length a2 = anslen"
      using put_Some [of "12 + nat r" "be16 type @ be16 klass" a1] a1 by auto
    obtain r' ans where "answer_records klass type anslen rrs a2 (12 + nat r + 4) = Some (r', ans)"
        "length ans = anslen" "r' \<le> int anslen"
      using answer_records_safe [OF a2(2), of "12 + nat r + 4" klass type rrs] False by auto
    then show ?thesis using f q c a1 a2 False by (simp add: res_query_dnsapi_def)
  qed
qed

text \<open>The answer record: a pointer to the question's name, then the fixed fields and the text.\<close>

definition record_bytes :: "DWORD \<Rightarrow> DWORD \<Rightarrow> dns_record \<Rightarrow> BYTE list" where
  "record_bytes klass type rr =
     [0xC0, 12] @ be16 type @ be16 klass @ be32 (dwTtl rr) @
     be16 (of_nat (length (TXT rr) + 1)) @ [of_nat (length (TXT rr))] @ TXT rr"

lemma answer_records_skip:
  "\<forall>r \<in> set rs. wType r \<noteq> ucast type \<Longrightarrow>
   answer_records klass type anslen (rs @ rrs) answer offset = answer_records klass type anslen rrs answer offset"
  by (induction rs) auto

lemma answer_records_hit:
  assumes rr: "wType rr = ucast type" and h: "length hdr = 12"
    and len: "length rec = 13 + length (TXT rr)" "12 + length q + length rec \<le> anslen"
  shows "answer_records klass type anslen (rr # rrs) (hdr @ q @ rec @ rest) (12 + length q) =
    Some (int (12 + length q + 13 + length (TXT rr)), hdr[6 := 0, 7 := 1] @ q @ record_bytes klass type rr @ rest)"
proof -
  let ?n = "length (TXT rr)"
  let ?h = "hdr[6 := 0, 7 := 1]"
  have len': "length rec = 13 + length (TXT rr)" by (rule len(1))
  define r1 where "r1 = take 2 rec"
  define r2 where "r2 = take 8 (drop 2 rec)"
  define r3 where "r3 = take 3 (drop 10 rec)"
  define r4 where "r4 = drop 13 rec"
  have rec: "rec = r1 @ r2 @ r3 @ r4"
    using append_take_drop_id [of 2 rec] append_take_drop_id [of 8 "drop 2 rec"] append_take_drop_id [of 3 "drop 10 rec"]
    unfolding r1_def r2_def r3_def r4_def by simp
  have l: "length r1 = 2" "length r2 = 8" "length r3 = 3" "length r4 = ?n"
    using len' by (simp_all add: r1_def r2_def r3_def r4_def)
  have H: "hdr = take 6 hdr @ take 2 (drop 6 hdr) @ drop 8 hdr"
    using append_take_drop_id [of 6 hdr] append_take_drop_id [of 2 "drop 6 hdr"] by simp
  have "put 6 [0, 1] (take 6 hdr @ take 2 (drop 6 hdr) @ drop 8 hdr @ q @ rec @ rest) =
      Some (take 6 hdr @ [0, 1] @ drop 8 hdr @ q @ rec @ rest)"
    by (rule put_at) (use h in auto)
  moreover have "?h = take 6 hdr @ [0, 1] @ drop 8 hdr"
    using h by (simp add: upd_conv_take_nth_drop take_Suc_conv_app_nth)
  ultimately have p0: "put 6 [0, 1] (hdr @ q @ rec @ rest) = Some (?h @ q @ rec @ rest)"
    by (metis H append_assoc)
  have p1: "put (12 + length q) [0xC0, 12] (?h @ q @ rec @ rest) = Some ((?h @ q) @ [0xC0, 12] @ r2 @ r3 @ r4 @ rest)"
    unfolding rec using put_at [of "?h @ q" "12 + length q" r1 "[0xC0, 12]" "r2 @ r3 @ r4 @ rest"] h l by simp
  let ?bs = "be16 type @ be16 klass @ be32 (dwTtl rr)"
  let ?cs = "be16 (of_nat (?n + 1)) @ [of_nat ?n]"
  have lb: "length ?bs = 8" "length ?cs = 3" by simp_all
  have p2: "put (14 + length q) bs ((?h @ q) @ [0xC0, 12] @ r2 @ r3 @ r4 @ rest) = Some ((?h @ q @ [0xC0, 12]) @ bs @ r3 @ r4 @ rest)"
    if "length bs = 8" for bs
    using put_at [of "?h @ q @ [0xC0, 12]" "14 + length q" r2 bs "r3 @ r4 @ rest"] h l that by simp
  have p3: "put (22 + length q) cs ((?h @ q @ [0xC0, 12]) @ bs @ r3 @ r4 @ rest) = Some ((?h @ q @ [0xC0, 12] @ bs) @ cs @ r4 @ rest)"
    if "length bs = 8" "length cs = 3" for bs cs
    using put_at [of "?h @ q @ [0xC0, 12] @ bs" "22 + length q" r3 cs "r4 @ rest"] h l that by simp
  have p4: "put (25 + length q) (TXT rr) ((?h @ q @ [0xC0, 12] @ bs) @ cs @ r4 @ rest) = Some ((?h @ q @ [0xC0, 12] @ bs @ cs) @ TXT rr @ rest)"
    if "length bs = 8" "length cs = 3" for bs cs
    using put_at [of "?h @ q @ [0xC0, 12] @ bs @ cs" "25 + length q" r4 "TXT rr" rest] h l that by simp
  have c: "\<not> 12 + length q + 2 > anslen" "\<not> 12 + length q + 2 + 10 > anslen"
      "\<not> 12 + length q + 2 + 8 + 2 + (?n + 1) > anslen"
    using len by auto
  have e: "12 + length q + 2 = 14 + length q" "14 + length q + 8 = 22 + length q" "22 + length q + 3 = 25 + length q"
    "25 + length q + ?n = 12 + length q + 13 + ?n" by auto
  show ?thesis
    unfolding answer_records.simps Let_def using c
    by (simp only: rr if_True if_False p0 p1 p2 [OF lb(1)] p3 [OF lb] p4 [OF lb] e option.case)
      (simp add: record_bytes_def)
qed

lemma dnsapi_reply_lemma:
  assumes q: "DnsQuery env dname (ucast type) (query_options env) = (0, rs @ rr # rrs)"
    and rr: "\<forall>r \<in> set rs. wType r \<noteq> ucast type" "wType rr = ucast type"
    and n: "list_all good_label ls" "dname = join_dots ls"
    and len: "length answer = anslen" "12 + length (wire ls) + 18 + length (TXT rr) \<le> anslen"
  shows "\<exists>hdr rest. length hdr = 12 \<and> res_query_dnsapi env dname klass type answer anslen =
    Some (int (30 + length (wire ls) + length (TXT rr)),
      hdr @ wire ls @ 0 # (be16 type @ be16 klass) @ record_bytes klass type rr @ rest, 0)"
proof -
  let ?n = "length (wire ls)" and ?t = "length (TXT rr)"
  let ?hdr = "take 12 (dnsapi_header answer)"
  let ?a = "drop 12 (dnsapi_header answer)"
  let ?old = "take (?n + 1) ?a" and ?q4 = "take 4 (drop (?n + 1) ?a)"
  let ?rec = "take (13 + ?t) (drop (?n + 5) ?a)" and ?rest = "drop (?n + 18 + ?t) ?a"
  have split: "dnsapi_header answer = ?hdr @ ?old @ ?q4 @ ?rec @ ?rest"
    using append_take_drop_id [of 12 "dnsapi_header answer"] append_take_drop_id [of "?n + 1" ?a]
      append_take_drop_id [of 4 "drop (?n + 1) ?a"] append_take_drop_id [of "13 + ?t" "drop (?n + 5) ?a"]
    by (simp add: add.commute)
  have l: "length ?hdr = 12" "length ?old = ?n + 1" "length ?q4 = 4" "length ?rec = 13 + ?t"
    using len by simp_all
  have c: "dn_comp dname (int anslen - 12) = (int ?n + 1, wire ls @ [0])"
    using dn_comp_loop_wire [OF n(1), of "int anslen - 12" "[]"] len n(2) by (simp add: dn_comp_def)
  have p1: "put 12 (wire ls @ [0]) (dnsapi_header answer) = Some ((?hdr @ wire ls @ [0]) @ ?q4 @ ?rec @ ?rest)"
    using put_at [OF l(1), of ?old "wire ls @ [0]"] l(2) by (subst split) simp
  have p2: "put (13 + ?n) (be16 type @ be16 klass) ((?hdr @ wire ls @ [0]) @ ?q4 @ ?rec @ ?rest) =
      Some ((?hdr @ wire ls @ [0]) @ (be16 type @ be16 klass) @ ?rec @ ?rest)"
    by (rule put_at) (use l in auto)
  let ?Q = "wire ls @ [0] @ be16 type @ be16 klass"
  have "answer_records klass type anslen (rr # rrs) (?hdr @ ?Q @ ?rec @ ?rest) (12 + length ?Q) =
      Some (int (12 + length ?Q + 13 + ?t), ?hdr[6 := 0, 7 := 1] @ ?Q @ record_bytes klass type rr @ ?rest)"
    by (rule answer_records_hit) (use rr l len in auto)
  then have r: "answer_records klass type anslen (rs @ rr # rrs) ((?hdr @ wire ls @ [0]) @ (be16 type @ be16 klass) @ ?rec @ ?rest) (17 + ?n) =
      Some (int (30 + ?n + ?t), ?hdr[6 := 0, 7 := 1] @ ?Q @ record_bytes klass type rr @ ?rest)"
    unfolding answer_records_skip [OF rr(1)] by (simp add: add.commute)
  have "res_query_dnsapi env dname klass type answer anslen =
      Some (int (30 + ?n + ?t), ?hdr[6 := 0, 7 := 1] @ ?Q @ record_bytes klass type rr @ ?rest, 0)"
    unfolding res_query_dnsapi_def q c Let_def prod.case using len
    by (simp add: p1 nat_add_distrib) (use p2 r in \<open>simp add: nat_add_distrib add.commute\<close>)
  then show ?thesis using l(1) by (intro exI [of _ "?hdr[6 := 0, 7 := 1]"] exI [of _ ?rest]) simp
qed

section \<open>Names as a codec\<close>

definition dns_encode :: "BYTE list list \<Rightarrow> BYTE list" where
  "dns_encode ls = snd (dn_comp (join_dots ls) 256)"

definition dns_decode :: "BYTE list \<Rightarrow> BYTE list list option" where
  "dns_decode pkt =
     (case dn_expand pkt 0 256 of None \<Rightarrow> None
      | Some (r, name) \<Rightarrow> if r = -1 then None else Some (labels name))"

definition valid_name :: "BYTE list list \<Rightarrow> bool" where
  "valid_name ls \<longleftrightarrow> ls \<noteq> [] \<and> list_all good_label ls \<and> length (join_dots ls) < 254"

lemma dn_comp_valid:
  "list_all good_label ls \<Longrightarrow> int (length (wire ls)) < space \<Longrightarrow>
   dn_comp (join_dots ls) space = (int (length (wire ls)) + 1, wire ls @ [0])"
  by (simp add: dn_comp_def dn_comp_loop_wire)

interpretation dns: codec dns_encode dns_decode valid_name
proof
  fix ls assume v: "valid_name ls"
  then have "length (wire ls) < 255" using length_join_dots [of ls] by (auto simp: valid_name_def)
  then have e: "dns_encode ls = [] @ wire ls @ 0 # []"
    using v by (simp add: dns_encode_def dn_comp_valid valid_name_def)
  have "labels (join_dots ls) = ls"
    using v by (intro labels_join_dots) (auto simp: valid_name_def good_label_def list_all_iff)
  then show "dns_decode (dns_encode ls) = Some ls"
    unfolding e dns_decode_def
    using dn_expand_wire [of ls 256 "[]" "[]"] v by (simp add: valid_name_def)
qed

section \<open>Properties\<close>

text \<open>
  C1: \<open>dn_expand\<close> is memory safe on every message: from any offset inside it (or its end) the
  loop ends without reading outside the message or writing outside the destination, even when the
  compression pointers form a cycle, and a name it accepts is shorter than 254 bytes and fits the
  destination with its terminator.
\<close>

theorem dn_expand_memory_safe:
  assumes "src \<le> length m"
  shows "\<exists>r out. dn_expand m src space = Some (r, out) \<and>
    (r \<noteq> -1 \<longrightarrow> length out < 254 \<and> int (length out) < space)"
  using assms by (rule dn_expand_safe_lemma)

theorem dn_expand_memory_safe_witness:
  "\<exists>r out. dn_expand [0xC0, 0, 1, 97, 0xC0, 2] 0 64 = Some (r, out) \<and>
    (r \<noteq> -1 \<longrightarrow> length out < 254 \<and> int (length out) < 64)"
  by (rule dn_expand_memory_safe) simp

text \<open>
  C4: \<open>dn_comp\<close> and \<open>dn_expand\<close> are inverse: a name made of labels of 1 to 63 bytes, shorter
  than 254 bytes in all, is compressed into a byte string whose length is the value returned, and
  expanding that string anywhere in a message returns the same length and the name.
\<close>

theorem dn_comp_expand_roundtrip:
  assumes "list_all good_label ls" "int (length (wire ls)) < space"
    and "int (length (join_dots ls)) < min 254 space'"
  shows "\<exists>bs. dn_comp (join_dots ls) space = (int (length bs), bs) \<and>
    dn_expand (pre @ bs @ post) (length pre) space' = Some (int (length bs), join_dots ls)"
  using dn_comp_valid [OF assms(1,2)] dn_expand_wire [OF assms(1,3)] by simp

theorem dn_comp_expand_roundtrip_witness:
  "\<exists>bs. dn_comp (join_dots [[100, 98], [99, 108, 97, 109]]) 20 = (int (length bs), bs) \<and>
    dn_expand ([7] @ bs @ [9, 9]) (length [7 :: BYTE]) 100 = Some (int (length bs), join_dots [[100, 98], [99, 108, 97, 109]])"
  by (rule dn_comp_expand_roundtrip) (simp_all add: good_label_def)

text \<open>
  Different names have different wire forms: the encoder is injective on the names within its
  limits.
\<close>

lemma dns_encode_injective: "inj_on dns_encode {ls. valid_name ls}"
  by (rule dns.enc_inj_on)


definition sample_env :: dns_env where
  "sample_env = \<lparr>net_first = 0, net_second = 0, net_server = [49], reg_open = True,
     reg_value = (\<lambda>_. None), inet_none = (\<lambda>_. False), host_known = (\<lambda>_. True), socket_ok = True,
     rand_id = 0x1234, send_ok = True, reply = Some [0x12, 0x34, 0x80, 0, 0, 0, 0, 1, 0, 0, 0, 0],
     have_dnsapi = True, os_major = 5, os_minor = 1,
     DnsQuery = (\<lambda>_ t _. (0, [\<lparr>wType = t, dwTtl = 60, TXT = [104, 105]\<rparr>]))\<rparr>"


text \<open>
  The \<open>DnsQuery_A\<close> path never touches memory outside the caller's buffer, whatever the name,
  the records and the sizes are, and never returns more than the buffer's size.
\<close>

lemma dnsapi_within_buffer:
  assumes "length answer = anslen" "fst (DnsQuery env dname (ucast type) (query_options env)) = 0"
  shows "\<exists>r ans. res_query_dnsapi env dname klass type answer anslen = Some (r, ans, 0) \<and>
    length ans = anslen \<and> r \<le> int anslen"
  using assms by (rule dnsapi_safe_lemma)

lemma dnsapi_within_buffer_witness:
  "\<exists>r ans. res_query_dnsapi sample_env [97, 46, 46, 98] 1 16 (replicate 20 0) 20 = Some (r, ans, 0) \<and>
    length ans = 20 \<and> r \<le> int 20"
  by (rule dnsapi_within_buffer) (simp_all add: sample_env_def)

text \<open>
  The query packet that the UDP path builds backwards in place is the header, the name cut at
  its dots with each piece after its length, the terminating zero, the type TXT and the class IN.
\<close>

lemma build_query_is_wire:
  assumes "no_nul dname"
  shows "build_query dname qid = query_header qid @ wire (labels dname) @ [0, 0, 16, 0, 1]"
  using assms by (rule build_query_wire)

lemma build_query_is_wire_witness:
  "build_query [97, 98, 46, 99] 7 = query_header 7 @ wire (labels [97, 98, 46, 99]) @ [0, 0, 16, 0, 1]"
  by (rule build_query_is_wire) simp

text \<open>
  The UDP path writes past the caller's buffer exactly when the datagram received (cut at 512
  bytes) is longer than that buffer: the size the caller passes is never looked at.
\<close>

lemma compat_overflow_iff:
  "res_query_compat env dname answer = None \<longleftrightarrow>
    (\<exists>ns dgram. get_dns env = Some ns \<and> host_known env ns \<and> socket_ok env \<and> send_ok env \<and>
       reply env = Some dgram \<and> length answer < min 512 (length dgram))"
  by (auto simp: res_query_compat_def Let_def split: option.splits if_splits)

text \<open>
  A reply the UDP path accepts has a whole header, carries the identifier of the query and the
  reply flag, has response code 0 and at least one answer; the value returned is its length; and the
  socket the query was sent on is left open.
\<close>

lemma compat_accepts_own_reply:
  assumes "res_query_compat env dname answer = Some (r, ans, socks)" "0 \<le> r"
  shows "12 \<le> r \<and> r \<le> 512 \<and> be_word (ans ! 0) (ans ! 1) = rand_id env \<and> ans ! 2 AND 0x80 \<noteq> 0 \<and>
    ans ! 3 AND 0x0f = 0 \<and> be_word (ans ! 6) (ans ! 7) \<noteq> 0 \<and> socks = 1"
  using assms
  by (auto simp: res_query_compat_def check_reply_def Let_def not_less split: option.splits if_splits)

lemma compat_accepts_own_reply_witness:
  "\<exists>ans. res_query_compat sample_env [97] (replicate 512 0) = Some (12, ans, 1) \<and>
    (12 :: int) \<le> 12 \<and> be_word (ans ! 0) (ans ! 1) = 0x1234"
proof -
  let ?ans = "[0x12, 0x34, 0x80, 0, 0, 0, 0, 1, 0, 0, 0, 0] @ replicate 500 0"
  have "res_query_compat sample_env [97] (replicate 512 0) = Some (12, ?ans, 1)"
    by (simp add: res_query_compat_def check_reply_def get_dns_def sample_env_def be_word_def)
  from compat_accepts_own_reply [OF this] this show ?thesis
    by (intro exI [of _ ?ans]) (simp add: sample_env_def)
qed

end
