(* ===== verification/Errno.thy ===== *)
theory Errno
  imports Prelude
begin

text \<open>
  Error numbers: the constants of \<open>include/posix-errno.h\<close>, the message table, the two
  translations of Windows error codes to \<open>errno\<close> and \<open>cw_strerror\<close> of
  \<open>src/dllmain/posix-errno.c\<close>, and the socket wrappers of
  \<open>include/socket_inline.h\<close> that set \<open>errno\<close> through them. The header defines a constant
  only where the C runtime has not; the values here are the header's own. The constants of the C
  runtime (\<open>EPERM\<close> to \<open>ENOTEMPTY\<close>) are \<open>crt_errno\<close>.
\<close>

section \<open>The constants\<close>

text \<open>The group of the codes specific to winsock.\<close>

datatype winsock_errno =
    ELOOP
  | EPROCLIM
  | EUSERS
  | EREMOTE
  | SYSNOTREADY
  | VERNOTSUPPORTED
  | NOTINITIALISED
  | EDISCON
  | ENOMORE
  | ECANCELLED
  | EINVALIDPROCTABLE
  | EINVALIDPROVIDER
  | EPROVIDERFAILEDINIT
  | SYSCALLFAILURE
  | SERVICE_NOT_FOUND
  | TYPE_NOT_FOUND
  | E_NO_MORE
  | E_CANCELLED
  | EREFUSED

primrec winsock_value :: "winsock_errno \<Rightarrow> int" where
  "winsock_value ELOOP = 44"
| "winsock_value EPROCLIM = 45"
| "winsock_value EUSERS = 46"
| "winsock_value EREMOTE = 47"
| "winsock_value SYSNOTREADY = 48"
| "winsock_value VERNOTSUPPORTED = 49"
| "winsock_value NOTINITIALISED = 50"
| "winsock_value EDISCON = 51"
| "winsock_value ENOMORE = 52"
| "winsock_value ECANCELLED = 53"
| "winsock_value EINVALIDPROCTABLE = 54"
| "winsock_value EINVALIDPROVIDER = 55"
| "winsock_value EPROVIDERFAILEDINIT = 56"
| "winsock_value SYSCALLFAILURE = 57"
| "winsock_value SERVICE_NOT_FOUND = 58"
| "winsock_value TYPE_NOT_FOUND = 59"
| "winsock_value E_NO_MORE = 60"
| "winsock_value E_CANCELLED = 61"
| "winsock_value EREFUSED = 62"

text \<open>The group of the port itself and libdl.\<close>

datatype local_errno =
    ENOTREADY
  | ENOMOD
  | ENOPROC
  | OPERATION_ABORTED
  | IO_INCOMPLETE
  | IO_PENDING
  | INVALID_PARAMETER

primrec local_value :: "local_errno \<Rightarrow> int" where
  "local_value ENOTREADY = 70"
| "local_value ENOMOD = 71"
| "local_value ENOPROC = 72"
| "local_value OPERATION_ABORTED = 81"
| "local_value IO_INCOMPLETE = 82"
| "local_value IO_PENDING = 83"
| "local_value INVALID_PARAMETER = 87"

text \<open>The group of Linux numbers of the socket errors.\<close>

datatype socket_errno =
    ENOTSOCK
  | EDESTADDRREQ
  | EMSGSIZE
  | EPROTOTYPE
  | ENOPROTOOPT
  | EPROTONOSUPPORT
  | ESOCKTNOSUPPORT
  | EOPNOTSUPP
  | EPFNOSUPPORT
  | EAFNOSUPPORT
  | EADDRINUSE
  | EADDRNOTAVAIL
  | ENETDOWN
  | ENETUNREACH
  | ENETRESET
  | ECONNABORTED
  | ECONNRESET
  | ENOBUFS
  | EISCONN
  | ENOTCONN

primrec socket_value :: "socket_errno \<Rightarrow> int" where
  "socket_value ENOTSOCK = 88"
| "socket_value EDESTADDRREQ = 89"
| "socket_value EMSGSIZE = 90"
| "socket_value EPROTOTYPE = 91"
| "socket_value ENOPROTOOPT = 92"
| "socket_value EPROTONOSUPPORT = 93"
| "socket_value ESOCKTNOSUPPORT = 94"
| "socket_value EOPNOTSUPP = 95"
| "socket_value EPFNOSUPPORT = 96"
| "socket_value EAFNOSUPPORT = 97"
| "socket_value EADDRINUSE = 98"
| "socket_value EADDRNOTAVAIL = 99"
| "socket_value ENETDOWN = 100"
| "socket_value ENETUNREACH = 101"
| "socket_value ENETRESET = 102"
| "socket_value ECONNABORTED = 103"
| "socket_value ECONNRESET = 104"
| "socket_value ENOBUFS = 105"
| "socket_value EISCONN = 106"
| "socket_value ENOTCONN = 107"

text \<open>The group of the rest of the Linux numbers.\<close>

datatype linux_errno =
    ESHUTDOWN
  | ETOOMANYREFS
  | ETIMEDOUT_linux
  | ECONNREFUSED
  | EHOSTDOWN
  | EHOSTUNREACH
  | EALREADY
  | EINPROGRESS
  | ESTALE
  | EUCLEAN
  | ENOTNAM
  | ENAVAIL
  | EISNAM
  | EREMOTEIO
  | EDQUOT

primrec linux_value :: "linux_errno \<Rightarrow> int" where
  "linux_value ESHUTDOWN = 108"
| "linux_value ETOOMANYREFS = 109"
| "linux_value ETIMEDOUT_linux = 110"
| "linux_value ECONNREFUSED = 111"
| "linux_value EHOSTDOWN = 112"
| "linux_value EHOSTUNREACH = 113"
| "linux_value EALREADY = 114"
| "linux_value EINPROGRESS = 115"
| "linux_value ESTALE = 116"
| "linux_value EUCLEAN = 117"
| "linux_value ENOTNAM = 118"
| "linux_value ENAVAIL = 119"
| "linux_value EISNAM = 120"
| "linux_value EREMOTEIO = 121"
| "linux_value EDQUOT = 122"

text \<open>\<open>ETIMEDOUT\<close> is the winsock value, 10060, and \<open>EWOULDBLOCK\<close> is \<open>EALREADY\<close>.\<close>

definition ETIMEDOUT :: int where
  "ETIMEDOUT = 10060"

definition EWOULDBLOCK :: int where
  "EWOULDBLOCK = linux_value EALREADY"

definition MAX_CW_ERRNO :: nat where
  "MAX_CW_ERRNO = 128"

datatype crt_errno = EPERM | ENOENT | EINTR | EBADF | ENOMEM | EACCES | EFAULT | ENODEV | EINVAL | EMFILE | ENAMETOOLONG | ENOTEMPTY

primrec crt_value :: "crt_errno \<Rightarrow> int" where
  "crt_value EPERM = 1"
| "crt_value ENOENT = 2"
| "crt_value EINTR = 4"
| "crt_value EBADF = 9"
| "crt_value ENOMEM = 12"
| "crt_value EACCES = 13"
| "crt_value EFAULT = 14"
| "crt_value ENODEV = 19"
| "crt_value EINVAL = 22"
| "crt_value EMFILE = 24"
| "crt_value ENAMETOOLONG = 38"
| "crt_value ENOTEMPTY = 41"

section \<open>Messages\<close>

definition cw_errlist :: "string list" where
  "cw_errlist = [
     ''No error'',
     ''Operation not permitted'',
     ''No such file or directory'',
     ''No such process'',
     ''Interrupted function call'',
     ''Input/output error'',
     ''No such device or address'',
     ''Arg list too long'',
     ''Exec format error'',
     ''Bad file descriptor'',
     ''No child processes'',
     ''Resource temporarily unavailable'',
     ''Not enough space'',
     ''Permission denied'',
     ''Bad address'',
     ''Unknown error'',
     ''Resource device'',
     ''File exists'',
     ''Improper link'',
     ''No such device'',
     ''Not a directory'',
     ''Is a directory'',
     ''Invalid argument'',
     ''Too many open files in system'',
     ''Too many open files'',
     ''Inappropriate I/O control operation'',
     ''Unknown error'',
     ''File too large'',
     ''No space left on device'',
     ''Invalid seek'',
     ''Read-only file system'',
     ''Too many links'',
     ''Broken pipe'',
     ''Domain error'',
     ''Result too large'',
     ''Unknown error'',
     ''Resource deadlock avoided'',
     ''Unknown error'',
     ''Filename too long'',
     ''No locks available'',
     ''Function not implemented'',
     ''Directory not empty'',
     ''Illegal byte sequence'',
     ''Unknown error'',
     ''Cannot translate name'',
     ''Too many processes'',
     ''User quota exceeded'',
     ''Item is remote'',
     ''Network subsystem is unavailable'',
     ''Winsock.dll version out of range'',
     ''Successful WSAStartup not yet performed'',
     ''Graceful shutdown in progress'',
     ''No more results'',
     ''Call has been canceled'',
     ''Procedure call table is invalid'',
     ''Service provider is invalid'',
     ''Service provider failed to initialize'',
     ''System call failure'',
     ''Service not found'',
     ''Class type not found'',
     ''No more results'',
     ''Call was canceled'',
     ''Database query was refused'',
     ''Host not found'',
     ''Nonauthoritative host not found'',
     ''This is a nonrecoverable error'',
     ''Valid name, no data record of requested type'',
     ''Unknown error'',
     ''Unknown error'',
     ''Unknown error'',
     ''Drive not ready'',
     ''The specified module could not be found'',
     ''The specified procedure could not be found'',
     ''Unknown error'',
     ''Unknown error'',
     ''Unknown error'',
     ''Unknown error'',
     ''Unknown error'',
     ''Unknown error'',
     ''Unknown error'',
     ''String truncation occurred'',
     ''Unknown error'',
     ''I/O incomplete'',
     ''I/O pending'',
     ''Unknown error'',
     ''Unknown error'',
     ''Unknown error'',
     ''Invalid parameter'',
     ''Socket operation on non-socket'',
     ''Destination address required'',
     ''Message too long'',
     ''Protocol wrong type for socket'',
     ''Protocol not available'',
     ''Protocol not supported'',
     ''Socket type not supported'',
     ''Operation not supported on transport endpoint'',
     ''Protocol family not supported'',
     ''Address family not supported by protocol'',
     ''Address already in use'',
     ''Cannot assign requested address'',
     ''Network is down'',
     ''Network is unreachable'',
     ''Network dropped connection because of reset'',
     ''Software caused connection abort'',
     ''Connection reset by peer'',
     ''No buffer space available'',
     ''Transport endpoint is already connected'',
     ''Transport endpoint is not connected'',
     ''Cannot send after transport endpoint shutdown'',
     ''Too many references: cannot splice'',
     ''Connection timed out'',
     ''Connection refused'',
     ''Host is down'',
     ''No route to host'',
     ''Operation already in progress'',
     ''Operation now in progress'',
     ''Stale NFS file handle'',
     ''Structure needs cleaning'',
     ''Not a XENIX named type file'',
     ''No XENIX semaphores available'',
     ''Is a named type file'',
     ''Remote I/O error'',
     ''Quota exceeded'',
     ''Unknown error'',
     ''Unknown error'',
     ''Unknown error'',
     ''Unknown error'',
     ''Unknown error'']"

section \<open>Winsock and system error codes\<close>

text \<open>
  The switch of \<open>cw_wseterrno\<close>, one pair per case. The last four name macros of winsock itself
  (\<open>posix-errno.h\<close> leaves them unmapped), so their value is the winsock code.
\<close>

definition wsa_table :: "(int \<times> int) list" where
  "wsa_table = [
     (6, crt_value EBADF),
     (8, crt_value ENOMEM),
     (87, local_value INVALID_PARAMETER),
     (995, local_value OPERATION_ABORTED),
     (996, local_value IO_INCOMPLETE),
     (997, local_value IO_PENDING),
     (10004, crt_value EINTR),
     (10009, crt_value EBADF),
     (10013, crt_value EACCES),
     (10014, crt_value EFAULT),
     (10022, crt_value EINVAL),
     (10024, crt_value EMFILE),
     (10035, linux_value EALREADY),
     (10036, linux_value EINPROGRESS),
     (10037, linux_value EALREADY),
     (10038, socket_value ENOTSOCK),
     (10039, socket_value EDESTADDRREQ),
     (10040, socket_value EMSGSIZE),
     (10041, socket_value EPROTOTYPE),
     (10042, socket_value ENOPROTOOPT),
     (10043, socket_value EPROTONOSUPPORT),
     (10044, socket_value ESOCKTNOSUPPORT),
     (10045, socket_value EOPNOTSUPP),
     (10046, socket_value EPFNOSUPPORT),
     (10047, socket_value EAFNOSUPPORT),
     (10048, socket_value EADDRINUSE),
     (10049, socket_value EADDRNOTAVAIL),
     (10050, socket_value ENETDOWN),
     (10051, socket_value ENETUNREACH),
     (10052, socket_value ENETRESET),
     (10053, socket_value ECONNABORTED),
     (10054, socket_value ECONNRESET),
     (10055, socket_value ENOBUFS),
     (10056, socket_value EISCONN),
     (10057, socket_value ENOTCONN),
     (10058, linux_value ESHUTDOWN),
     (10059, linux_value ETOOMANYREFS),
     (10060, ETIMEDOUT),
     (10061, linux_value ECONNREFUSED),
     (10062, winsock_value ELOOP),
     (10063, crt_value ENAMETOOLONG),
     (10064, linux_value EHOSTDOWN),
     (10065, linux_value EHOSTUNREACH),
     (10066, crt_value ENOTEMPTY),
     (10067, winsock_value EPROCLIM),
     (10068, winsock_value EUSERS),
     (10069, linux_value EDQUOT),
     (10070, linux_value ESTALE),
     (10071, winsock_value EREMOTE),
     (10091, winsock_value SYSNOTREADY),
     (10092, winsock_value VERNOTSUPPORTED),
     (10093, winsock_value NOTINITIALISED),
     (10101, winsock_value EDISCON),
     (10102, winsock_value ENOMORE),
     (10103, winsock_value ECANCELLED),
     (10104, winsock_value EINVALIDPROCTABLE),
     (10105, winsock_value EINVALIDPROVIDER),
     (10106, winsock_value EPROVIDERFAILEDINIT),
     (10107, winsock_value SYSCALLFAILURE),
     (10108, winsock_value SERVICE_NOT_FOUND),
     (10109, winsock_value TYPE_NOT_FOUND),
     (10110, winsock_value E_NO_MORE),
     (10111, winsock_value E_CANCELLED),
     (10112, winsock_value EREFUSED),
     (11001, 11001),
     (11002, 11002),
     (11003, 11003),
     (11004, 11004)]"

record err_state =
  errno :: int
  wsa_last :: int
  last_error :: DWORD

definition cw_wseterrno :: "err_state \<Rightarrow> int \<times> err_state" where
  "cw_wseterrno st =
     (let e = (case map_of wsa_table (wsa_last st) of Some e \<Rightarrow> e | None \<Rightarrow> 0)
      in (e, st\<lparr>errno := e\<rparr>))"

definition cw_leerrno :: "err_state \<Rightarrow> int \<times> err_state" where
  "cw_leerrno st =
     (let err = last_error st;
          e = (if err = 18 then 0
               else if err \<in> {2, 3, 123, 161, 53, 67} then crt_value ENOENT
               else if err \<in> {126, 1157} then local_value ENOMOD
               else if err = 127 then local_value ENOPROC
               else if err = 1200 then crt_value ENODEV
               else if err \<in> {5, 32, 33} then crt_value EACCES
               else if err = 21 then local_value ENOTREADY
               else if err = 206 then crt_value ENOENT
               else 0)
      in (e, st\<lparr>errno := e\<rparr>))"

text \<open>
  \<open>None\<close> is the failed assertion, which stops the program unless \<open>NDEBUG\<close> is defined.
\<close>

definition cw_strerror :: "bool \<Rightarrow> int \<Rightarrow> string option" where
  "cw_strerror ndebug errnum =
     (let errnum = (if errnum = ETIMEDOUT then linux_value ETIMEDOUT_linux else errnum);
          ok = (errnum \<ge> 0 \<and> errnum < int MAX_CW_ERRNO)
      in if \<not> ndebug \<and> \<not> ok then None
         else if ok then Some (cw_errlist ! nat errnum)
         else Some ''Invalid error number'')"

definition cw_perror :: "bool \<Rightarrow> string option \<Rightarrow> err_state \<Rightarrow> string option" where
  "cw_perror ndebug msg st =
     (case msg of None \<Rightarrow> None
      | Some m \<Rightarrow> map_option (\<lambda>e. m @ '': '' @ e @ [CHR 0x0A]) (cw_strerror ndebug (errno st)))"

section \<open>Socket wrappers\<close>

text \<open>
  Each wrapper is given the result \<open>r\<close> of the winsock call it makes; \<open>-1\<close> is
  \<open>SOCKET_ERROR\<close>, and \<open>INVALID_SOCKET\<close> once it is cut to an \<open>int\<close>. The three shapes of the
  header: calls that return 0 or -1, calls that return a count, and calls that return a socket.
\<close>

definition set_wserrno :: "err_state \<Rightarrow> err_state" where
  "set_wserrno st = snd (cw_wseterrno st)"

definition inl_accept :: "int \<Rightarrow> err_state \<Rightarrow> int \<times> err_state" where
  "inl_accept r st = (let st = (if r = -1 then set_wserrno st else st) in (r, st))"

definition inl_bind :: "int \<Rightarrow> err_state \<Rightarrow> int \<times> err_state" where
  "inl_bind r st = (if r = -1 then (-1, set_wserrno st) else (0, st))"

definition inl_closesocket :: "int \<Rightarrow> err_state \<Rightarrow> int \<times> err_state" where
  "inl_closesocket r st = (if r = -1 then (-1, set_wserrno st) else (0, st))"

definition inl_connect :: "int \<Rightarrow> err_state \<Rightarrow> int \<times> err_state" where
  "inl_connect r st = (if r = -1 then (-1, set_wserrno st) else (0, st))"

definition inl_getpeername :: "int \<Rightarrow> err_state \<Rightarrow> int \<times> err_state" where
  "inl_getpeername r st = (if r = -1 then (-1, set_wserrno st) else (0, st))"

definition inl_getsockname :: "int \<Rightarrow> err_state \<Rightarrow> int \<times> err_state" where
  "inl_getsockname r st = (if r = -1 then (-1, set_wserrno st) else (0, st))"

definition inl_getsockopt :: "int \<Rightarrow> err_state \<Rightarrow> int \<times> err_state" where
  "inl_getsockopt r st = (if r \<noteq> 0 then (-1, set_wserrno st) else (0, st))"

definition inl_listen :: "int \<Rightarrow> err_state \<Rightarrow> int \<times> err_state" where
  "inl_listen r st = (if r = -1 then (-1, set_wserrno st) else (0, st))"

definition inl_recv :: "int \<Rightarrow> err_state \<Rightarrow> int \<times> err_state" where
  "inl_recv r st = (let st = (if r = -1 then set_wserrno st else st) in (r, st))"

definition inl_recvfrom :: "int \<Rightarrow> err_state \<Rightarrow> int \<times> err_state" where
  "inl_recvfrom r st = (let st = (if r = -1 then set_wserrno st else st) in (r, st))"

definition inl_select :: "int \<Rightarrow> err_state \<Rightarrow> int \<times> err_state" where
  "inl_select r st = (if r = -1 then (-1, set_wserrno st) else (r, st))"

text \<open>Sending keeps only the flags winsock knows, \<open>MSG_DONTROUTE\<close> (4) and \<open>MSG_OOB\<close> (1).\<close>

definition send_flags :: "DWORD \<Rightarrow> DWORD" where
  "send_flags flags = flags AND (4 OR 1)"

definition inl_send :: "(DWORD \<Rightarrow> int) \<Rightarrow> DWORD \<Rightarrow> err_state \<Rightarrow> int \<times> err_state" where
  "inl_send send flags st =
     (let r = send (send_flags flags); st = (if r = -1 then set_wserrno st else st) in (r, st))"

definition inl_sendto :: "(DWORD \<Rightarrow> int) \<Rightarrow> DWORD \<Rightarrow> err_state \<Rightarrow> int \<times> err_state" where
  "inl_sendto sendto flags st =
     (let r = sendto (send_flags flags); st = (if r = -1 then set_wserrno st else st) in (r, st))"

definition inl_setsockopt :: "int \<Rightarrow> err_state \<Rightarrow> int \<times> err_state" where
  "inl_setsockopt r st = (if r = -1 then (-1, set_wserrno st) else (0, st))"

definition inl_shutdown :: "int \<Rightarrow> err_state \<Rightarrow> int \<times> err_state" where
  "inl_shutdown r st = (if r = -1 then (-1, set_wserrno st) else (0, st))"

definition inl_socket :: "int \<Rightarrow> err_state \<Rightarrow> int \<times> err_state" where
  "inl_socket r st = (let st = (if r = -1 then set_wserrno st else st) in (r, st))"

definition ntohl :: "DWORD \<Rightarrow> DWORD" where
  "ntohl x = (drop_bit 24 x OR (drop_bit 8 x AND 0xff00)) OR ((push_bit 8 x AND 0xff0000) OR push_bit 24 x)"

text \<open>The fcntl emulation of \<open>src/dllmain/fcntl.c\<close>: \<open>ioctl\<close> is the non-blocking switch.\<close>

definition cw_fcntl :: "(bool \<Rightarrow> int) \<Rightarrow> int \<Rightarrow> int \<Rightarrow> err_state \<Rightarrow> int \<times> err_state" where
  "cw_fcntl ioctl cmd arg st =
     (if cmd = 1 then (0, st)
      else if cmd = 2 then
        (if ioctl (arg = 1) \<noteq> 0 then (-1, set_wserrno st) else (0, st))
      else (-1, st))"

section \<open>Facts about the tables\<close>

lemma length_cw_errlist: "length cw_errlist = 128"
  by (simp add: cw_errlist_def)

lemmas errno_unfold = cw_wseterrno_def cw_leerrno_def set_wserrno_def

lemma wsa_nonneg: "list_all (\<lambda>(w, e). 0 \<le> e) wsa_table"
  by (simp add: wsa_table_def EWOULDBLOCK_def ETIMEDOUT_def)

lemma wsa_bound: "list_all (\<lambda>(w, e). e < 128 \<or> e = 10060 \<or> 11001 \<le> w \<and> w \<le> 11004) wsa_table"
  by (simp add: wsa_table_def EWOULDBLOCK_def ETIMEDOUT_def)

lemma wsa_resolver: "list_all (\<lambda>(w, e). 11001 \<le> w \<and> w \<le> 11004 \<longrightarrow> e = w) wsa_table"
  by (simp add: wsa_table_def EWOULDBLOCK_def ETIMEDOUT_def)

lemma wsa_range:
  assumes "(w, e) \<in> set wsa_table"
  shows "0 \<le> e" "e < 128 \<or> e = 10060 \<or> 11001 \<le> w \<and> w \<le> 11004" "11001 \<le> w \<and> w \<le> 11004 \<longrightarrow> e = w"
  using wsa_nonneg wsa_bound wsa_resolver assms unfolding list_all_iff by blast+

lemma wsa_resolver_codes: "{11001, 11002, 11003, 11004} \<subseteq> fst ` set wsa_table"
  by (simp add: wsa_table_def)

lemma wsa_linear: "list_all (\<lambda>w. w = 10060 \<or> (w, w - 9950) \<in> set wsa_table) [10038..10061]"
  by (simp add: wsa_table_def ETIMEDOUT_def)

lemma wsa_distinct: "distinct (map fst wsa_table)"
  by (simp add: wsa_table_def)

lemma cw_wseterrno_cases:
  obtains e where "(wsa_last st, e) \<in> set wsa_table" "fst (cw_wseterrno st) = e"
  | "wsa_last st \<notin> fst ` set wsa_table" "fst (cw_wseterrno st) = 0"
proof (cases "map_of wsa_table (wsa_last st)")
  case None
  then have "wsa_last st \<notin> fst ` set wsa_table" by (simp add: map_of_eq_None_iff)
  moreover have "fst (cw_wseterrno st) = 0" using None by (simp add: cw_wseterrno_def Let_def)
  ultimately show ?thesis by (rule that(2))
next
  case (Some e)
  then show ?thesis using that(1) [of e] by (simp add: cw_wseterrno_def Let_def map_of_SomeD)
qed

lemma cw_wseterrno_mapped: "(w, e) \<in> set wsa_table \<Longrightarrow> wsa_last st = w \<Longrightarrow> fst (cw_wseterrno st) = e"
  by (simp add: cw_wseterrno_def Let_def map_of_is_SomeI [OF wsa_distinct])

text \<open>
  The contract of the wrappers that report a status: the call they wrap failed exactly when they
  return -1, and only then \<open>errno\<close> changes, to the translated code.
\<close>

locale status_wrapper =
  fixes call :: "int \<Rightarrow> err_state \<Rightarrow> int \<times> err_state"
  assumes call_ok: "r \<noteq> -1 \<Longrightarrow> call r st = (r', st') \<Longrightarrow> st' = st \<and> r' \<noteq> -1"
    and call_fail: "call (-1) st = (-1, set_wserrno st)"
begin

lemma failed_iff: "fst (call r st) = -1 \<longleftrightarrow> r = -1"
  using call_ok [of r st] call_fail [of st] by (cases "call r st") force

lemma errno_after: "errno (snd (call r st)) = (if r = -1 then fst (cw_wseterrno st) else errno st)"
proof (cases "r = -1")
  case True
  then show ?thesis by (simp add: call_fail set_wserrno_def cw_wseterrno_def Let_def)
next
  case False
  then show ?thesis using call_ok [of r st] by (cases "call r st") auto
qed

lemma wrapper_contract:
  "(fst (call r st) = -1 \<longleftrightarrow> r = -1) \<and>
   errno (snd (call r st)) = (if r = -1 then fst (cw_wseterrno st) else errno st)"
  using failed_iff errno_after by simp

end

interpretation w_accept: status_wrapper inl_accept
  by unfold_locales (auto simp: inl_accept_def)

interpretation w_bind: status_wrapper inl_bind
  by unfold_locales (auto simp: inl_bind_def)

interpretation w_closesocket: status_wrapper inl_closesocket
  by unfold_locales (auto simp: inl_closesocket_def)

interpretation w_connect: status_wrapper inl_connect
  by unfold_locales (auto simp: inl_connect_def)

interpretation w_getpeername: status_wrapper inl_getpeername
  by unfold_locales (auto simp: inl_getpeername_def)

interpretation w_getsockname: status_wrapper inl_getsockname
  by unfold_locales (auto simp: inl_getsockname_def)

interpretation w_listen: status_wrapper inl_listen
  by unfold_locales (auto simp: inl_listen_def)

interpretation w_recv: status_wrapper inl_recv
  by unfold_locales (auto simp: inl_recv_def)

interpretation w_recvfrom: status_wrapper inl_recvfrom
  by unfold_locales (auto simp: inl_recvfrom_def)

interpretation w_select: status_wrapper inl_select
  by unfold_locales (auto simp: inl_select_def)

interpretation w_setsockopt: status_wrapper inl_setsockopt
  by unfold_locales (auto simp: inl_setsockopt_def)

interpretation w_shutdown: status_wrapper inl_shutdown
  by unfold_locales (auto simp: inl_shutdown_def)

interpretation w_socket: status_wrapper inl_socket
  by unfold_locales (auto simp: inl_socket_def)

definition socket_wrappers :: "(int \<Rightarrow> err_state \<Rightarrow> int \<times> err_state) list" where
  "socket_wrappers = [inl_accept, inl_bind, inl_closesocket, inl_connect, inl_getpeername,
     inl_getsockname, inl_listen, inl_recv, inl_recvfrom, inl_select, inl_setsockopt, inl_shutdown,
     inl_socket]"

section \<open>Byte order\<close>

text \<open>The 32-bit word with the bytes \<open>a\<close> (highest) to \<open>d\<close> is \<open>bytes32 a b c d\<close>.\<close>

lemma high_bits: "32 \<le> n \<Longrightarrow> \<not> bit (x :: DWORD) n"
  using bit_imp_le_length [of x n] by auto

lemma byte_masks: "(0xff00 :: DWORD) = push_bit 8 (mask 8)" "(0xff0000 :: DWORD) = push_bit 16 (mask 8)"
  by (simp_all add: mask_eq_decr_exp push_bit_eq_mult)

lemma ntohl_bit:
  assumes "j < 8"
  shows "bit (ntohl x) j \<longleftrightarrow> bit x (24 + j)" "bit (ntohl x) (8 + j) \<longleftrightarrow> bit x (16 + j)"
    "bit (ntohl x) (16 + j) \<longleftrightarrow> bit x (8 + j)" "bit (ntohl x) (24 + j) \<longleftrightarrow> bit x j"
  using assms unfolding ntohl_def byte_masks
  by (simp_all add: bit_simps high_bits)

lemma byte_cases:
  fixes n :: nat
  assumes "n < 32"
  obtains j where "j < 8" "n = j \<or> n = 8 + j \<or> n = 16 + j \<or> n = 24 + j"
proof -
  define k j where "k = n div 8" "j = n mod 8"
  have n: "n = 8 * k + j" "j < 8" by (simp_all add: k_j_def)
  with assms have "k < 4" by linarith
  then have "k = 0 \<or> k = 1 \<or> k = 2 \<or> k = 3" by linarith
  with n show thesis by (intro that [of j]) auto
qed

lemma ntohl_ntohl: "ntohl (ntohl x) = x"
proof (rule bit_word_eqI)
  fix n assume "n < LENGTH(32)"
  then obtain j where "j < 8" "n = j \<or> n = 8 + j \<or> n = 16 + j \<or> n = 24 + j" by (auto elim: byte_cases)
  then show "bit (ntohl (ntohl x)) n \<longleftrightarrow> bit x n" by (auto simp: ntohl_bit)
qed


definition bytes32 :: "BYTE \<Rightarrow> BYTE \<Rightarrow> BYTE \<Rightarrow> BYTE \<Rightarrow> DWORD" where
  "bytes32 a b c d = push_bit 24 (ucast a) OR push_bit 16 (ucast b) OR push_bit 8 (ucast c) OR ucast d"

lemma byte_high: "8 \<le> n \<Longrightarrow> \<not> bit (x :: BYTE) n"
  using bit_imp_le_length [of x n] by auto

lemma bytes32_bit:
  assumes "j < 8"
  shows "bit (bytes32 a b c d) j \<longleftrightarrow> bit d j" "bit (bytes32 a b c d) (8 + j) \<longleftrightarrow> bit c j"
    "bit (bytes32 a b c d) (16 + j) \<longleftrightarrow> bit b j" "bit (bytes32 a b c d) (24 + j) \<longleftrightarrow> bit a j"
  using assms unfolding bytes32_def by (simp_all add: bit_simps byte_high)

lemma ntohl_bytes32: "ntohl (bytes32 a b c d) = bytes32 d c b a"
proof (rule bit_word_eqI)
  fix n assume "n < LENGTH(32)"
  then obtain j where "j < 8" "n = j \<or> n = 8 + j \<or> n = 16 + j \<or> n = 24 + j" by (auto elim: byte_cases)
  then show "bit (ntohl (bytes32 a b c d)) n \<longleftrightarrow> bit (bytes32 d c b a) n" by (auto simp: ntohl_bit bytes32_bit)
qed

section \<open>Properties\<close>

text \<open>
  The \<open>errno\<close> that \<open>cw_wseterrno\<close> sets has a message in \<open>cw_strerror\<close> for every winsock
  error, mapped or not, with the exception of the four resolver errors 11001 to 11004: these keep
  their winsock value, which is outside the table, and the assertion of \<open>cw_strerror\<close> fails.
\<close>

lemma wseterrno_described:
  "cw_strerror False (fst (cw_wseterrno st)) = None \<longleftrightarrow> wsa_last st \<in> {11001, 11002, 11003, 11004}"
proof (cases st rule: cw_wseterrno_cases)
  case (1 e)
  have "wsa_last st \<in> {11001, 11002, 11003, 11004} \<longleftrightarrow> 11001 \<le> wsa_last st \<and> wsa_last st \<le> 11004"
    by auto
  then show ?thesis
    using wsa_range [OF 1(1)] 1(2)
    by (auto simp: cw_strerror_def MAX_CW_ERRNO_def ETIMEDOUT_def Let_def)
next
  case 2
  then have "wsa_last st \<notin> {11001, 11002, 11003, 11004}"
    using wsa_resolver_codes by blast
  with 2 show ?thesis by (simp add: cw_strerror_def MAX_CW_ERRNO_def ETIMEDOUT_def Let_def)
qed

text \<open>
  In the range 10038 to 10061 the translation is one to one: the message printed for a winsock
  error is the entry of the table at the Linux error number, the winsock code less 9950, and this
  also holds for \<open>ETIMEDOUT\<close>, which keeps the winsock value in \<open>errno\<close>.
\<close>

lemma wsa_message_one_to_one:
  assumes "10038 \<le> wsa_last st" "wsa_last st \<le> 10061"
  shows "cw_strerror False (fst (cw_wseterrno st)) = Some (cw_errlist ! nat (wsa_last st - 9950))"
proof -
  let ?w = "wsa_last st"
  have *: "(?w, ?w - 9950) \<in> set wsa_table" if "?w \<noteq> 10060"
    using wsa_linear assms that unfolding list_all_iff set_upto by (meson atLeastAtMost_iff)
  show ?thesis
  proof (cases "?w = 10060")
    case True
    then have "fst (cw_wseterrno st) = ETIMEDOUT"
      by (intro cw_wseterrno_mapped [of 10060]) (simp_all add: wsa_table_def)
    with True show ?thesis by (simp add: cw_strerror_def MAX_CW_ERRNO_def)
  next
    case False
    then have "fst (cw_wseterrno st) = ?w - 9950"
      using * by (intro cw_wseterrno_mapped [of ?w]) auto
    with False assms show ?thesis by (simp add: cw_strerror_def MAX_CW_ERRNO_def ETIMEDOUT_def Let_def)
  qed
qed

lemma wsa_message_one_to_one_witness:
  "cw_strerror False (fst (cw_wseterrno \<lparr>errno = 0, wsa_last = 10060, last_error = 0\<rparr>)) =
     Some (cw_errlist ! nat (10060 - 9950))"
  using wsa_message_one_to_one [of "\<lparr>errno = 0, wsa_last = 10060, last_error = 0\<rparr>"] by simp

text \<open>
  Every socket wrapper of the port returns -1 exactly when the winsock call it makes failed; it
  then sets \<open>errno\<close> to the translated error, and leaves \<open>errno\<close> as it was otherwise.
\<close>

lemma socket_wrappers_contract:
  assumes "call \<in> set socket_wrappers"
  shows "(fst (call r st) = -1 \<longleftrightarrow> r = -1) \<and>
    errno (snd (call r st)) = (if r = -1 then fst (cw_wseterrno st) else errno st)"
  using assms
  unfolding socket_wrappers_def
  by (auto simp only: list.set insert_iff empty_iff
      intro!: w_accept.wrapper_contract w_bind.wrapper_contract w_closesocket.wrapper_contract
        w_connect.wrapper_contract w_getpeername.wrapper_contract w_getsockname.wrapper_contract
        w_listen.wrapper_contract w_recv.wrapper_contract w_recvfrom.wrapper_contract
        w_select.wrapper_contract w_setsockopt.wrapper_contract w_shutdown.wrapper_contract
        w_socket.wrapper_contract)

lemma socket_wrappers_contract_witness:
  "(fst (inl_connect (-1) \<lparr>errno = 0, wsa_last = 10061, last_error = 0\<rparr>) = -1) \<and>
   errno (snd (inl_connect (-1) \<lparr>errno = 0, wsa_last = 10061, last_error = 0\<rparr>)) = 111"
  using socket_wrappers_contract [of inl_connect "-1" "\<lparr>errno = 0, wsa_last = 10061, last_error = 0\<rparr>"]
  by (simp add: socket_wrappers_def cw_wseterrno_def wsa_table_def)

text \<open>
  The \<open>ntohl\<close> macro turns the four bytes of a word around, and is its own inverse.
\<close>

lemma ntohl_swaps_bytes:
  "ntohl (bytes32 a b c d) = bytes32 d c b a \<and> ntohl (ntohl x) = x"
  by (simp add: ntohl_bytes32 ntohl_ntohl)

end
