(* ===== verification/SyncApi.thy ===== *)
theory SyncApi
  imports LinkedList
begin

text \<open>
  Model of \<open>src/legacy/shared/synchapi.c\<close>: the waiting queues behind \<open>WaitOnAddress\<close>, the
  condition variables and the slim reader/writer locks.
  \<^item> The queue operations run under the spin lock of their bucket, so they are functions over the
    bucket's memory: the links (\<open>LinkedList\<close>), the \<open>address\<close> and \<open>event\<close> fields of the entries,
    and the events that have been set, in order. They refine operations on the list of waiters.
  \<^item> What happens between critical sections is interleaving: the locks, the condition variables and
    the futex waits are step relations whose steps are the critical sections and the system calls.
\<close>

section \<open>The buckets\<close>

record waitq =
  links :: lheap
  eaddr :: "addr \<Rightarrow> addr"
  eevent :: "addr \<Rightarrow> nat"
  signalled :: "nat list"

text \<open>\<open>qs i\<close> is the address of element \<open>i\<close> of the static array of queues.\<close>

definition get_futex_queue :: "(nat \<Rightarrow> addr) \<Rightarrow> addr \<Rightarrow> addr" where
  "get_futex_queue qs val = qs (drop_bit 4 val mod 256)"

definition get_condvar_queue :: "(nat \<Rightarrow> addr) \<Rightarrow> addr \<Rightarrow> addr" where
  "get_condvar_queue qs val = qs (drop_bit 4 val mod 256)"

definition InterlockedCompareExchange :: "'a \<Rightarrow> 'a \<Rightarrow> 'a \<Rightarrow> 'a \<times> 'a" where
  "InterlockedCompareExchange target exchange comparand =
     (if target = comparand then exchange else target, target)"

text \<open>One turn of the spin loop: the new lock word, and whether the lock was taken.\<close>

definition spin_lock :: "LONG \<Rightarrow> LONG \<times> bool" where
  "spin_lock lock = (let (l, old) = InterlockedCompareExchange lock (- 1) 0 in (l, old = 0))"

definition spin_unlock :: "LONG \<Rightarrow> LONG" where
  "spin_unlock lock = 0"

text \<open>The value of \<open>n\<close> bytes read as one little-endian integer.\<close>

fun read_le :: "(addr \<Rightarrow> BYTE) \<Rightarrow> addr \<Rightarrow> nat \<Rightarrow> nat" where
  "read_le m a 0 = 0"
| "read_le m a (Suc n) = unat (m a) + 256 * read_le m (a + 1) n"

definition compare_addr :: "(addr \<Rightarrow> BYTE) \<Rightarrow> addr \<Rightarrow> addr \<Rightarrow> nat \<Rightarrow> bool" where
  "compare_addr m a cmp n =
     (if n = 1 then read_le m a 1 = read_le m cmp 1
      else if n = 2 then read_le m a 2 = read_le m cmp 2
      else if n = 4 then read_le m a 4 = read_le m cmp 4
      else if n = 8 then read_le m a 8 = read_le m cmp 8
      else False)"

definition SetEvent :: "nat \<Rightarrow> waitq \<Rightarrow> waitq" where
  "SetEvent ev s = s\<lparr>signalled := signalled s @ [ev]\<rparr>"

text \<open>The static queues start zeroed, and are initialised by the first operation on them.\<close>

definition queue_ready :: "addr \<Rightarrow> waitq \<Rightarrow> waitq" where
  "queue_ready q s = (if nxt (links s) q = 0 then s\<lparr>links := list_init q (links s)\<rparr> else s)"

definition entry_unlink :: "addr \<Rightarrow> waitq \<Rightarrow> waitq" where
  "entry_unlink e s = s\<lparr>eaddr := (eaddr s)(e := 0), links := list_remove e (links s)\<rparr>"

text \<open>
  The search loop of the wake operations: the first entry waiting on the address, or the head
  when there is none. It ends only if the links lead back to the head.
\<close>

partial_function (option) find_waiter :: "waitq \<Rightarrow> addr \<Rightarrow> addr \<Rightarrow> addr \<Rightarrow> addr option" where
  "find_waiter s q a p =
     (if p = q then Some q
      else if eaddr s p = a then Some p
      else find_waiter s q a (nxt (links s) p))"

definition WakeByAddressSingle :: "(nat \<Rightarrow> addr) \<Rightarrow> addr \<Rightarrow> waitq \<Rightarrow> waitq option" where
  "WakeByAddressSingle qs a s =
     (if a = 0 then Some s
      else let q = get_futex_queue qs a; s = queue_ready q s in
        case find_waiter s q a (nxt (links s) q) of
          None \<Rightarrow> None
        | Some p \<Rightarrow>
            if p = q then Some s
            else let ev = eevent s p; s = entry_unlink p s
                 in Some (if ev \<noteq> 0 then SetEvent ev s else s))"

text \<open>The loop of \<open>WakeByAddressAll\<close>, with the buffer of at most 256 events it sets at the end.\<close>

partial_function (option) wake_all_loop ::
    "addr \<Rightarrow> addr \<Rightarrow> addr \<Rightarrow> addr \<Rightarrow> nat list \<Rightarrow> waitq \<Rightarrow> (nat list \<times> waitq) option" where
  "wake_all_loop q a p next events s =
     (if p = q then Some (events, s)
      else if eaddr s p = a then
        (let s = entry_unlink p s in
         if length events < 256
         then wake_all_loop q a next (nxt (links s) next) (events @ [eevent s p]) s
         else let s = SetEvent (eevent s p) s
              in wake_all_loop q a next (nxt (links s) next) events s)
      else wake_all_loop q a next (nxt (links s) next) events s)"

definition WakeByAddressAll :: "(nat \<Rightarrow> addr) \<Rightarrow> addr \<Rightarrow> waitq \<Rightarrow> waitq option" where
  "WakeByAddressAll qs a s =
     (if a = 0 then Some s
      else let q = get_futex_queue qs a; s = queue_ready q s; p = nxt (links s) q in
        case wake_all_loop q a p (nxt (links s) p) [] s of
          None \<Rightarrow> None
        | Some (events, s) \<Rightarrow> Some (fold SetEvent events s))"

text \<open>
  \<open>WaitOnAddress\<close> before it blocks: it returns at once with a result, or leaves its entry \<open>e\<close>,
  a local variable, in the queue. \<open>ev\<close> is the new event, 0 when none could be created.
\<close>

definition WaitOnAddress_enter ::
    "(nat \<Rightarrow> addr) \<Rightarrow> (addr \<Rightarrow> BYTE) \<Rightarrow> addr \<Rightarrow> addr \<Rightarrow> nat \<Rightarrow> addr \<Rightarrow> nat \<Rightarrow> waitq \<Rightarrow> bool option \<times> waitq" where
  "WaitOnAddress_enter qs m a cmp n e ev s =
     (if n \<noteq> 1 \<and> n \<noteq> 2 \<and> n \<noteq> 4 \<and> n \<noteq> 8 then (Some False, s)
      else let q = get_futex_queue qs a in
        if \<not> compare_addr m a cmp n then (Some True, s)
        else if ev = 0 then (Some False, s)
        else let s = s\<lparr>eevent := (eevent s)(e := ev), eaddr := (eaddr s)(e := a)\<rparr>;
                 s = queue_ready q s
             in (None, s\<lparr>links := list_add_tail q e (links s)\<rparr>))"

text \<open>And after: an entry nobody took out of the queue takes itself out.\<close>

definition WaitOnAddress_leave :: "addr \<Rightarrow> bool \<Rightarrow> waitq \<Rightarrow> bool \<times> waitq" where
  "WaitOnAddress_leave e timed_out s =
     (\<not> timed_out, if eaddr s e \<noteq> 0 then s\<lparr>links := list_remove e (links s)\<rparr> else s)"

definition SleepConditionVariableCS_enqueue ::
    "(nat \<Rightarrow> addr) \<Rightarrow> addr \<Rightarrow> addr \<Rightarrow> nat \<Rightarrow> waitq \<Rightarrow> waitq" where
  "SleepConditionVariableCS_enqueue qs cv e ev s =
     (let s = s\<lparr>eevent := (eevent s)(e := ev), eaddr := (eaddr s)(e := cv)\<rparr>;
          q = get_condvar_queue qs cv;
          s = queue_ready q s
      in s\<lparr>links := list_add_tail q e (links s)\<rparr>)"

text \<open>After the wait: whether a waker took the entry, which is taken out otherwise.\<close>

definition SleepConditionVariableCS_dequeue :: "addr \<Rightarrow> waitq \<Rightarrow> bool \<times> waitq" where
  "SleepConditionVariableCS_dequeue e s =
     (if eaddr s e = 0 then (True, s) else (False, entry_unlink e s))"

definition WakeConditionVariable :: "(nat \<Rightarrow> addr) \<Rightarrow> addr \<Rightarrow> waitq \<Rightarrow> waitq option" where
  "WakeConditionVariable qs cv s =
     (if cv = 0 then Some s
      else let q = get_condvar_queue qs cv; s = queue_ready q s in
        case find_waiter s q cv (nxt (links s) q) of
          None \<Rightarrow> None
        | Some p \<Rightarrow> if p = q then Some s else Some (SetEvent (eevent s p) (entry_unlink p s)))"

section \<open>The queues refine lists of waiters\<close>

text \<open>The waiters \<open>xs\<close> of a queue, in order of arrival; a queue never used has none.\<close>

definition waiters :: "waitq \<Rightarrow> addr \<Rightarrow> addr list \<Rightarrow> bool" where
  "waiters s q xs \<longleftrightarrow> q \<noteq> 0 \<and> 0 \<notin> set xs \<and>
     (dlist (links s) q xs \<or> nxt (links s) q = 0 \<and> xs = [])"

lemma queue_ready_fields [simp]:
  "eaddr (queue_ready q s) = eaddr s" "eevent (queue_ready q s) = eevent s"
  "signalled (queue_ready q s) = signalled s"
  by (simp_all add: queue_ready_def)

lemma entry_unlink_fields [simp]:
  "eaddr (entry_unlink e s) = (eaddr s)(e := 0)" "eevent (entry_unlink e s) = eevent s"
  "signalled (entry_unlink e s) = signalled s" "links (entry_unlink e s) = list_remove e (links s)"
  by (simp_all add: entry_unlink_def)

lemma SetEvent_fields [simp]:
  "eaddr (SetEvent v s) = eaddr s" "eevent (SetEvent v s) = eevent s"
  "signalled (SetEvent v s) = signalled s @ [v]" "links (SetEvent v s) = links s"
  by (simp_all add: SetEvent_def)

lemma fold_SetEvent_fields [simp]:
  "eaddr (fold SetEvent vs s) = eaddr s" "signalled (fold SetEvent vs s) = signalled s @ vs"
  "links (fold SetEvent vs s) = links s"
  by (induction vs arbitrary: s) simp_all

lemma dlist_next_nonzero:
  "dlist h q xs \<Longrightarrow> q \<noteq> 0 \<Longrightarrow> 0 \<notin> set xs \<Longrightarrow> nxt h q \<noteq> 0"
  by (cases xs) (auto simp: dlist_def linked_def)

lemma waiters_ready:
  "waiters s q xs \<Longrightarrow> dlist (links (queue_ready q s)) q xs"
  by (auto simp: waiters_def queue_ready_def list_init_dlist dest: dlist_next_nonzero)

lemma waitersI: "dlist (links s) q xs \<Longrightarrow> q \<noteq> 0 \<Longrightarrow> 0 \<notin> set xs \<Longrightarrow> waiters s q xs"
  by (simp add: waiters_def)

text \<open>What a search finds: the first waiter on the address.\<close>

lemma find_waiter_chain:
  "chain (links s) (p # xs @ [q]) \<Longrightarrow> q \<notin> set (p # xs) \<Longrightarrow>
   find_waiter s q a p = Some (case find (\<lambda>e. eaddr s e = a) (p # xs) of None \<Rightarrow> q | Some e \<Rightarrow> e)"
proof (induction xs arbitrary: p)
  case Nil
  then show ?case
    by (simp add: find_waiter.simps [of s q a p] find_waiter.simps [of s q a q] linked_def)
next
  case (Cons x xs)
  then have "find_waiter s q a x =
      Some (case find (\<lambda>e. eaddr s e = a) (x # xs) of None \<Rightarrow> q | Some e \<Rightarrow> e)"
    by (intro Cons.IH) auto
  with Cons.prems show ?case
    by (auto simp add: find_waiter.simps [of s q a p] linked_def)
qed

lemma find_waiter_dlist:
  assumes "dlist (links s) q xs"
  shows "find_waiter s q a (nxt (links s) q) =
    Some (case find (\<lambda>e. eaddr s e = a) xs of None \<Rightarrow> q | Some e \<Rightarrow> e)"
proof (cases xs)
  case Nil
  with assms show ?thesis
    by (simp add: dlist_def linked_def find_waiter.simps [of s q a q])
next
  case (Cons x ys)
  with assms find_waiter_chain [of s x ys q a] show ?thesis
    by (simp add: dlist_def linked_def)
qed


lemma waiters_unlink:
  assumes "dlist (links s) q xs" "e \<in> set xs" "q \<noteq> 0" "0 \<notin> set xs"
  shows "waiters (entry_unlink e s) q (remove1 e xs)"
proof (rule waitersI)
  show "dlist (links (entry_unlink e s)) q (remove1 e xs)"
    using ll.repr_unlink_mem [OF assms(1,2)] by simp
  show "0 \<notin> set (remove1 e xs)" using assms(4) by (meson notin_set_remove1)
qed (rule assms)

definition woken :: "addr \<Rightarrow> waitq \<Rightarrow> addr list \<Rightarrow> addr option" where
  "woken a s xs = find (\<lambda>e. eaddr s e = a) xs"

lemma woken_mem: "woken a s xs = Some e \<Longrightarrow> e \<in> set xs \<and> eaddr s e = a"
  by (auto simp: woken_def find_Some_iff)

lemma find_woken:
  assumes "waiters s q xs"
  shows "find_waiter (queue_ready q s) q a (nxt (links (queue_ready q s)) q) =
    Some (case woken a s xs of None \<Rightarrow> q | Some e \<Rightarrow> e)"
  using find_waiter_dlist [OF waiters_ready [OF assms], of a] by (simp add: woken_def)

lemma waiters_head_notin: "waiters s q xs \<Longrightarrow> q \<notin> set xs"
  by (auto simp: waiters_def dlist_def)

lemma waiters_links_cong: "waiters s q xs \<Longrightarrow> links s' = links s \<Longrightarrow> waiters s' q xs"
  by (simp add: waiters_def)

lemma waiters_queue_ready: "waiters s q xs \<Longrightarrow> waiters (queue_ready q s) q xs"
  using waiters_ready [of s q xs] by (auto simp: waiters_def)

lemma wake_single_lemma:
  assumes "waiters s q xs" "q = get_futex_queue qs a" "a \<noteq> 0" "\<forall>e\<in>set xs. eevent s e \<noteq> 0"
  shows "\<exists>s'. WakeByAddressSingle qs a s = Some s' \<and> eevent s' = eevent s \<and>
    (case woken a s xs of
       None \<Rightarrow> waiters s' q xs \<and> signalled s' = signalled s \<and> eaddr s' = eaddr s
     | Some e \<Rightarrow> waiters s' q (remove1 e xs) \<and> signalled s' = signalled s @ [eevent s e] \<and>
         eaddr s' = (eaddr s)(e := 0))"
proof (cases "woken a s xs")
  case None
  then show ?thesis
    using assms find_woken [OF assms(1), of a] waiters_queue_ready [OF assms(1)]
    by (auto simp: WakeByAddressSingle_def Let_def)
next
  case (Some e)
  with woken_mem have e: "e \<in> set xs" by simp
  with waiters_head_notin [OF assms(1)] have "e \<noteq> q" by auto
  moreover have "waiters (entry_unlink e (queue_ready q s)) q (remove1 e xs)"
    using assms(1) e by (intro waiters_unlink waiters_ready) (auto simp: waiters_def)
  ultimately show ?thesis
    using assms e Some find_woken [OF assms(1), of a]
    by (auto simp: WakeByAddressSingle_def Let_def elim!: waiters_links_cong)
qed

text \<open>
  C7: waking one futex waiter, on the pointer structure, is the list operation: the first waiter
  on the address leaves the queue, with its address cleared and its event set; when nobody waits
  there nothing changes. The search always ends.
\<close>

theorem wake_single_refines:
  assumes "waiters s q xs" "q = get_futex_queue qs a" "a \<noteq> 0" "\<forall>e\<in>set xs. eevent s e \<noteq> 0"
  shows "\<exists>s'. WakeByAddressSingle qs a s = Some s' \<and>
    (case woken a s xs of
       None \<Rightarrow> waiters s' q xs \<and> signalled s' = signalled s \<and> eaddr s' = eaddr s
     | Some e \<Rightarrow> waiters s' q (remove1 e xs) \<and> signalled s' = signalled s @ [eevent s e] \<and>
         eaddr s' = (eaddr s)(e := 0))"
  using wake_single_lemma [OF assms] by blast

lemma wake_all_loop_spec:
  "dlist (links s) q (as @ xs) \<Longrightarrow> a \<noteq> 0 \<Longrightarrow> p = hd (xs @ [q]) \<Longrightarrow> length evs \<le> 256 \<Longrightarrow>
   ms = map (eevent s) (filter (\<lambda>e. eaddr s e = a) xs) \<Longrightarrow>
   \<exists>s'. wake_all_loop q a p (nxt (links s) p) evs s = Some (evs @ take (256 - length evs) ms, s') \<and>
     dlist (links s') q (as @ filter (\<lambda>e. eaddr s e \<noteq> a) xs) \<and>
     signalled s' = signalled s @ drop (256 - length evs) ms \<and>
     (\<forall>e. eaddr s' e = (if e \<in> set xs \<and> eaddr s e = a then 0 else eaddr s e))"
proof (induction xs arbitrary: s as p evs ms)
  case Nil
  then show ?case by (simp add: wake_all_loop.simps)
next
  case (Cons x xs)
  from Cons.prems have x: "x \<noteq> q" "x \<notin> set xs" "p = x" by (auto simp: dlist_def)
  have next_x: "nxt (links s) x = hd (xs @ [q])"
    using Cons.prems(1) by (simp add: dlist_split_elem linked_def)
  let ?n = "hd (xs @ [q])"
  show ?case
  proof (cases "eaddr s x = a")
    case False
    with Cons.IH [of s "as @ [x]" ?n evs ms] Cons.prems x show ?thesis
      by (subst wake_all_loop.simps) (fastforce simp: next_x)
  next
    case True
    define s1 where "s1 = entry_unlink x s"
    define s2 where "s2 = (if length evs < 256 then s1 else SetEvent (eevent s x) s1)"
    define evs2 where "evs2 = (if length evs < 256 then evs @ [eevent s x] else evs)"
    have d: "dlist (links s2) q (as @ xs)"
      using list_remove_dlist Cons.prems(1) by (auto simp: s2_def s1_def)
    have eq: "filter (\<lambda>e. eaddr s2 e = a) xs = filter (\<lambda>e. eaddr s e = a) xs"
      "filter (\<lambda>e. eaddr s2 e \<noteq> a) xs = filter (\<lambda>e. eaddr s e \<noteq> a) xs"
      "eevent s2 = eevent s"
      using x by (auto simp: s2_def s1_def SetEvent_def intro!: filter_cong)
    let ?ms = "map (eevent s) (filter (\<lambda>e. eaddr s e = a) xs)"
    have ms: "ms = eevent s x # ?ms" using Cons.prems True by simp
    have "dlist (links s2) q (as @ xs) \<Longrightarrow> length evs2 \<le> 256 \<Longrightarrow>
      \<exists>s'. wake_all_loop q a ?n (nxt (links s2) ?n) evs2 s2 =
         Some (evs2 @ take (256 - length evs2) ?ms, s') \<and>
       dlist (links s') q (as @ filter (\<lambda>e. eaddr s2 e \<noteq> a) xs) \<and>
       signalled s' = signalled s2 @ drop (256 - length evs2) ?ms \<and>
       (\<forall>e. eaddr s' e = (if e \<in> set xs \<and> eaddr s2 e = a then 0 else eaddr s2 e))"
      using Cons.prems(2) by (intro Cons.IH) (auto simp: eq)
    moreover have "length evs2 \<le> 256" using Cons.prems(4) by (simp add: evs2_def)
    ultimately obtain s' where
        run: "wake_all_loop q a ?n (nxt (links s2) ?n) evs2 s2 =
          Some (evs2 @ take (256 - length evs2) ?ms, s')" and
        res: "dlist (links s') q (as @ filter (\<lambda>e. eaddr s e \<noteq> a) xs)"
          "signalled s' = signalled s2 @ drop (256 - length evs2) ?ms" and
        addrs: "\<forall>e. eaddr s' e = (if e \<in> set xs \<and> eaddr s2 e = a then 0 else eaddr s2 e)"
      using d unfolding eq(2) by blast
    have "wake_all_loop q a p (nxt (links s) p) evs s =
        wake_all_loop q a ?n (nxt (links s2) ?n) evs2 s2"
      using True x by (subst wake_all_loop.simps) (simp add: next_x s2_def evs2_def s1_def Let_def)
    moreover have "evs2 @ take (256 - length evs2) ?ms = evs @ take (256 - length evs) ms"
      "signalled s2 @ drop (256 - length evs2) ?ms = signalled s @ drop (256 - length evs) ms"
      using Cons.prems(4) by (auto simp: evs2_def s2_def s1_def ms Suc_diff_le take_Cons' drop_Cons')
    moreover have "eaddr s2 = (eaddr s)(x := 0)" by (simp add: s2_def s1_def)
    moreover from this
    have "\<forall>e. eaddr s' e = (if e \<in> set (x # xs) \<and> eaddr s e = a then 0 else eaddr s e)"
      using addrs True Cons.prems(2) by (intro allI) (auto simp: \<open>eaddr s2 = (eaddr s)(x := 0)\<close>)
    ultimately show ?thesis using True run res by (intro exI [of _ s']) simp
  qed
qed

text \<open>
  C22: waking all waiters of an address takes exactly them out of the queue, clears their addresses
  and sets the event of each of them once; the others keep their order. The events beyond the
  256th are set while the queue is locked, so those waiters are woken before the first 256.
\<close>

theorem wake_all_refines:
  assumes "waiters s q xs" "q = get_futex_queue qs a" "a \<noteq> 0"
  shows "\<exists>s'. WakeByAddressAll qs a s = Some s' \<and>
    waiters s' q (filter (\<lambda>e. eaddr s e \<noteq> a) xs) \<and>
    (let ms = map (eevent s) (filter (\<lambda>e. eaddr s e = a) xs)
     in signalled s' = signalled s @ drop 256 ms @ take 256 ms) \<and>
    eaddr s' = (\<lambda>e. if e \<in> set xs \<and> eaddr s e = a then 0 else eaddr s e)"
proof -
  let ?r = "queue_ready q s"
  let ?ms = "map (eevent s) (filter (\<lambda>e. eaddr s e = a) xs)"
  have d: "dlist (links ?r) q xs" by (rule waiters_ready) (rule assms)
  then have p: "nxt (links ?r) q = hd (xs @ [q])"
    by (cases xs) (auto simp: dlist_def linked_def)
  obtain s' where s': "wake_all_loop q a (hd (xs @ [q])) (nxt (links ?r) (hd (xs @ [q]))) [] ?r =
      Some (take 256 ?ms, s')" "dlist (links s') q (filter (\<lambda>e. eaddr s e \<noteq> a) xs)"
    "signalled s' = signalled s @ drop 256 ?ms"
    "\<forall>e. eaddr s' e = (if e \<in> set xs \<and> eaddr s e = a then 0 else eaddr s e)"
    using wake_all_loop_spec [of ?r q "[]" xs a "hd (xs @ [q])" "[]" ?ms] d assms(3) by auto
  let ?t = "fold SetEvent (take 256 ?ms) s'"
  have "WakeByAddressAll qs a s = Some ?t"
    using s'(1) p assms(2,3) by (simp add: WakeByAddressAll_def Let_def)
  moreover have "waiters ?t q (filter (\<lambda>e. eaddr s e \<noteq> a) xs)"
    using s'(2) assms(1) by (intro waitersI) (auto simp: waiters_def)
  moreover have "eaddr ?t = (\<lambda>e. if e \<in> set xs \<and> eaddr s e = a then 0 else eaddr s e)"
    using s'(4) by auto
  ultimately show ?thesis using s'(3) by (intro exI [of _ ?t]) (simp add: Let_def)
qed

lemma waiters_enqueue:
  assumes "waiters s q xs" "e \<notin> set xs" "e \<noteq> q" "e \<noteq> 0"
  shows "dlist (list_add_tail q e (links (queue_ready q s))) q (xs @ [e])"
  using ll.repr_push [OF waiters_ready [OF assms(1)]] assms by simp

lemma read_le_eq_iff:
  "read_le m a n = read_le m b n \<longleftrightarrow> (\<forall>i<n. m (a + i) = m (b + i))"
proof (induction n arbitrary: a b)
  case (Suc n)
  have byte: "unat x + 256 * k = unat y + 256 * l \<longleftrightarrow> x = y \<and> k = l" for x y :: BYTE and k l
  proof
    assume eq: "unat x + 256 * k = unat y + 256 * l"
    have "unat x < 256" "unat y < 256" using unsigned_less [of x] unsigned_less [of y] by (simp_all flip: nat_less_iff)
    then have "unat x = (unat x + 256 * k) mod 256" "unat y = (unat y + 256 * l) mod 256"
      by simp_all
    with eq have "unat x = unat y" by simp
    moreover from this eq have "k = l" by simp
    ultimately show "x = y \<and> k = l" by (simp add: word_unat_eq_iff)
  qed simp
  show ?case
    using Suc [of "a + 1" "b + 1"]
    by (simp add: byte All_less_Suc2)
qed simp

text \<open>
  A futex wait blocks exactly when the size is one of the four supported ones, the bytes at
  the two addresses are equal and an event could be created; it then stands last in the queue of
  its address, as a fresh waiter. Otherwise it returns at once and leaves the queue as it is.
\<close>

lemma wait_enter_contract:
  assumes "waiters s q xs" "q = get_futex_queue qs a" "e \<notin> set xs" "e \<noteq> q" "e \<noteq> 0" "a \<noteq> 0"
  shows "case WaitOnAddress_enter qs m a cmp n e ev s of
      (None, s') \<Rightarrow> n \<in> {1, 2, 4, 8} \<and> (\<forall>i<n. m (a + i) = m (cmp + i)) \<and> ev \<noteq> 0 \<and>
        waiters s' q (xs @ [e]) \<and> eaddr s' e = a \<and> eevent s' e = ev \<and>
        signalled s' = signalled s
    | (Some r, s') \<Rightarrow> s' = s \<and> (r \<longleftrightarrow> n \<in> {1, 2, 4, 8} \<and> (\<exists>i<n. m (a + i) \<noteq> m (cmp + i)))"
proof -
  let ?s = "s\<lparr>eevent := (eevent s)(e := ev), eaddr := (eaddr s)(e := a)\<rparr>"
  have cmp: "compare_addr m a cmp n \<longleftrightarrow> n \<in> {1, 2, 4, 8} \<and> (\<forall>i<n. m (a + i) = m (cmp + i))"
    unfolding compare_addr_def read_le_eq_iff by auto
  have w: "waiters ?s q xs" by (rule waiters_links_cong [OF assms(1)]) simp
  have q: "q \<noteq> 0" "0 \<notin> set xs" using assms(1) by (auto simp: waiters_def)
  then have "waiters ((queue_ready q ?s)\<lparr>links := list_add_tail q e (links (queue_ready q ?s))\<rparr>) q (xs @ [e])"
    using waiters_enqueue [OF w assms(3,4,5)] assms(5) by (intro waitersI) auto
  then show ?thesis
    using assms(2) by (auto simp: WaitOnAddress_enter_def Let_def cmp)
qed

lemma condvar_enqueue:
  assumes "waiters s q xs" "q = get_condvar_queue qs cv" "e \<notin> set xs" "e \<noteq> q" "e \<noteq> 0"
  shows "waiters (SleepConditionVariableCS_enqueue qs cv e ev s) q (xs @ [e]) \<and>
    eaddr (SleepConditionVariableCS_enqueue qs cv e ev s) e = cv"
proof -
  let ?s = "s\<lparr>eevent := (eevent s)(e := ev), eaddr := (eaddr s)(e := cv)\<rparr>"
  have w: "waiters ?s q xs" by (rule waiters_links_cong [OF assms(1)]) simp
  have "q \<noteq> 0" "0 \<notin> set xs" using assms(1) by (auto simp: waiters_def)
  then have "waiters ((queue_ready q ?s)\<lparr>links := list_add_tail q e (links (queue_ready q ?s))\<rparr>) q (xs @ [e])"
    using waiters_enqueue [OF w assms(3,4,5)] assms(5) by (intro waitersI) auto
  then show ?thesis
    using assms(2) by (simp add: SleepConditionVariableCS_enqueue_def Let_def)
qed

lemma condvar_dequeue:
  "waiters s q xs \<Longrightarrow> e \<in> set xs \<Longrightarrow> eaddr s e \<noteq> 0 \<Longrightarrow>
   \<exists>s'. SleepConditionVariableCS_dequeue e s = (False, s') \<and> waiters s' q (remove1 e xs)"
  using waiters_unlink [of s q xs e]
  by (auto simp: SleepConditionVariableCS_dequeue_def waiters_def)

text \<open>
  Waking a condition variable takes the first waiter marked with it out of the queue, unmarks
  it and sets its event, all before the lock of the queue is dropped; nothing happens when nobody
  waits on it.
\<close>

lemma condvar_wake_refines:
  assumes "waiters s q xs" "q = get_condvar_queue qs cv" "cv \<noteq> 0"
  shows "\<exists>s'. WakeConditionVariable qs cv s = Some s' \<and>
    (case woken cv s xs of
       None \<Rightarrow> waiters s' q xs \<and> signalled s' = signalled s \<and> eaddr s' = eaddr s
     | Some e \<Rightarrow> waiters s' q (remove1 e xs) \<and> signalled s' = signalled s @ [eevent s e] \<and>
         eaddr s' = (eaddr s)(e := 0))"
proof (cases "woken cv s xs")
  case None
  then show ?thesis
    using assms find_woken [OF assms(1), of cv] waiters_queue_ready [OF assms(1)]
    by (auto simp: WakeConditionVariable_def Let_def)
next
  case (Some w)
  with woken_mem have w: "w \<in> set xs" by simp
  with waiters_head_notin [OF assms(1)] have "w \<noteq> q" by auto
  moreover have "waiters (entry_unlink w (queue_ready q s)) q (remove1 w xs)"
    using assms(1) w by (intro waiters_unlink waiters_ready) (auto simp: waiters_def)
  ultimately show ?thesis
    using assms w Some find_woken [OF assms(1), of cv]
    by (auto simp: WakeConditionVariable_def Let_def elim!: waiters_links_cong)
qed

section \<open>Instances\<close>

text \<open>Two threads waiting on two addresses of one bucket.\<close>

definition sample_queue :: waitq where
  "sample_queue = \<lparr>links = list_add_tail 8 40 (list_add_tail 8 24 (list_init 8 \<lparr>nxt = (\<lambda>_. 0), prv = (\<lambda>_. 0)\<rparr>)),
     eaddr = (\<lambda>_. 0)(24 := 160, 40 := 176), eevent = (\<lambda>_. 0)(24 := 3, 40 := 7), signalled = []\<rparr>"

lemma sample_queue_waiters: "waiters sample_queue 8 [24, 40]"
proof (rule waitersI)
  have "dlist (links sample_queue) 8 (([] @ [24]) @ [40])"
    unfolding sample_queue_def waitq.simps
    by (intro list_add_tail_dlist list_init_dlist) simp_all
  then show "dlist (links sample_queue) 8 [24, 40]" by simp
qed simp_all

theorem wake_single_refines_witness:
  "\<exists>s'. WakeByAddressSingle (\<lambda>_. 8) 176 sample_queue = Some s' \<and> waiters s' 8 [24] \<and> signalled s' = [7]"
  using wake_single_refines [OF sample_queue_waiters, of "\<lambda>_. 8" 176]
  by (simp add: get_futex_queue_def sample_queue_def woken_def) blast

theorem wake_all_refines_witness:
  "\<exists>s'. WakeByAddressAll (\<lambda>_. 8) 160 sample_queue = Some s' \<and> waiters s' 8 [40] \<and> signalled s' = [3]"
  using wake_all_refines [OF sample_queue_waiters, of "\<lambda>_. 8" 160]
  by (auto simp: get_futex_queue_def sample_queue_def)

lemma wait_enter_contract_witness:
  "case WaitOnAddress_enter (\<lambda>_. 8) (\<lambda>_. 1) 192 64 4 56 9 sample_queue of
     (None, s') \<Rightarrow> waiters s' 8 [24, 40, 56] | (Some r, s') \<Rightarrow> False"
proof -
  have "fst (WaitOnAddress_enter (\<lambda>_. 8) (\<lambda>_. 1) 192 64 4 56 9 sample_queue) = None"
    by (simp add: WaitOnAddress_enter_def compare_addr_def read_le_eq_iff get_futex_queue_def Let_def)
  then show ?thesis
    using wait_enter_contract [OF sample_queue_waiters, where qs = "\<lambda>_. 8" and a = 192 and e = 56 and m = "\<lambda>_. 1" and cmp = 64 and n = 4 and ev = 9]
    by (auto simp: get_futex_queue_def split: prod.splits option.splits)
qed

lemma condvar_wake_refines_witness:
  "\<exists>s'. WakeConditionVariable (\<lambda>_. 8) 176 sample_queue = Some s' \<and> waiters s' 8 [24] \<and> signalled s' = [7]"
  using condvar_wake_refines [OF sample_queue_waiters, of "\<lambda>_. 8" 176]
  by (simp add: get_condvar_queue_def sample_queue_def woken_def) blast

end
