(* ===== verification/SyncSteps.thy ===== *)
theory SyncSteps
  imports SyncApi
begin

text \<open>
  The interleavings of \<open>src/legacy/shared/synchapi.c\<close>. Every step of a thread is one atomic
  operation of the code: an interlocked instruction, a critical section of the queue lock, or the
  return of a system call. Threads are numbers.
  \<^item> \<open>AcquireSRWLockExclusive\<close> and \<open>ReleaseSRWLockExclusive\<close> over the lock word and the queue of
    threads blocked in \<open>WaitOnAddress\<close>.
  \<^item> \<open>SleepConditionVariableCS\<close> and \<open>WakeConditionVariable\<close>, with timeouts and failed waits.
  \<^item> A futex wait with a timeout against \<open>WakeByAddressSingle\<close>, for the life of the event.
\<close>

section \<open>Slim locks\<close>

text \<open>
  The lock word is 0 (free), 1 (owned) or 2 (owned, and somebody may wait). \<open>Marking st\<close> is the
  second compare-and-swap with the value the first one saw.
\<close>

datatype srw_pc = Idle | Trying | Marking nat | Waiting | Parked | Holding | Waking

record srw =
  Ptr :: nat
  spc :: "nat \<Rightarrow> srw_pc"
  parked :: "nat list"

definition at_pc :: "nat \<Rightarrow> srw_pc \<Rightarrow> srw \<Rightarrow> srw" where
  "at_pc t l s = s\<lparr>spc := (spc s)(t := l)\<rparr>"

definition acquire_first :: "nat \<Rightarrow> srw \<Rightarrow> srw" where
  "acquire_first t s =
     (let (p, state) = InterlockedCompareExchange (Ptr s) 1 0; s = s\<lparr>Ptr := p\<rparr> in
      if state = 0 then at_pc t Holding s
      else if state \<noteq> 2 then at_pc t (Marking state) s
      else at_pc t Waiting s)"

definition acquire_second :: "nat \<Rightarrow> nat \<Rightarrow> srw \<Rightarrow> srw" where
  "acquire_second t state s =
     (let (p, state) = InterlockedCompareExchange (Ptr s) 2 state; s = s\<lparr>Ptr := p\<rparr> in
      if state = 0 then at_pc t Holding s else at_pc t Waiting s)"

text \<open>\<open>WaitOnAddress\<close> with the value 2: \<open>created\<close> is whether its event could be created.\<close>

definition acquire_wait :: "nat \<Rightarrow> bool \<Rightarrow> srw \<Rightarrow> srw" where
  "acquire_wait t created s =
     (if Ptr s \<noteq> 2 then at_pc t Trying s
      else if \<not> created then at_pc t Trying s
      else at_pc t Parked (s\<lparr>parked := parked s @ [t]\<rparr>))"

definition ReleaseSRWLockExclusive :: "nat \<Rightarrow> srw \<Rightarrow> srw" where
  "ReleaseSRWLockExclusive t s =
     (let old = Ptr s; s = s\<lparr>Ptr := 0\<rparr> in
      if old = 2 then at_pc t Waking s else at_pc t Idle s)"

definition release_wake :: "nat \<Rightarrow> srw \<Rightarrow> srw" where
  "release_wake t s =
     (case parked s of
        [] \<Rightarrow> at_pc t Idle s
      | u # us \<Rightarrow> at_pc t Idle (at_pc u Trying (s\<lparr>parked := us\<rparr>)))"

inductive srw_by :: "nat \<Rightarrow> srw \<Rightarrow> srw \<Rightarrow> bool" for t :: nat where
  call: "spc s t = Idle \<Longrightarrow> srw_by t s (at_pc t Trying s)"
| first: "spc s t = Trying \<Longrightarrow> srw_by t s (acquire_first t s)"
| second: "spc s t = Marking st \<Longrightarrow> srw_by t s (acquire_second t st s)"
| wait: "spc s t = Waiting \<Longrightarrow> srw_by t s (acquire_wait t created s)"
| release: "spc s t = Holding \<Longrightarrow> srw_by t s (ReleaseSRWLockExclusive t s)"
| wake: "spc s t = Waking \<Longrightarrow> srw_by t s (release_wake t s)"

lemmas [step_intros] = srw_by.intros

inductive_cases srw_byE: "srw_by t s s'"

definition srw_step :: "srw \<Rightarrow> srw \<Rightarrow> bool" where
  "srw_step s s' \<longleftrightarrow> (\<exists>t. srw_by t s s')"

definition srw_init :: "srw \<Rightarrow> bool" where
  "srw_init s \<longleftrightarrow> Ptr s = 0 \<and> parked s = [] \<and> spc s = (\<lambda>_. Idle)"

text \<open>The step in which the second compare-and-swap finds the lock free.\<close>

definition marks_free_lock :: "nat \<Rightarrow> srw \<Rightarrow> bool" where
  "marks_free_lock t s \<longleftrightarrow> Ptr s = 0 \<and> (case spc s t of Marking _ \<Rightarrow> True | _ \<Rightarrow> False)"

definition srw_quiet_step :: "srw \<Rightarrow> srw \<Rightarrow> bool" where
  "srw_quiet_step s s' \<longleftrightarrow> (\<exists>t. srw_by t s s' \<and> \<not> marks_free_lock t s)"

text \<open>The next step of thread \<open>t\<close>, its events being created; a parked thread has none.\<close>

definition srw_next :: "nat \<Rightarrow> srw \<Rightarrow> srw" where
  "srw_next t s = (case spc s t of
      Idle \<Rightarrow> at_pc t Trying s
    | Trying \<Rightarrow> acquire_first t s
    | Marking st \<Rightarrow> acquire_second t st s
    | Waiting \<Rightarrow> acquire_wait t True s
    | Parked \<Rightarrow> s
    | Holding \<Rightarrow> ReleaseSRWLockExclusive t s
    | Waking \<Rightarrow> release_wake t s)"

fun srw_schedule :: "nat list \<Rightarrow> srw \<Rightarrow> srw" where
  "srw_schedule [] s = s"
| "srw_schedule (t # ts) s = srw_schedule ts (srw_next t s)"

fun schedulable :: "(nat \<Rightarrow> srw \<Rightarrow> bool) \<Rightarrow> nat list \<Rightarrow> srw \<Rightarrow> bool" where
  "schedulable P [] s = True"
| "schedulable P (t # ts) s = (spc s t \<noteq> Parked \<and> P t s \<and> schedulable P ts (srw_next t s))"

definition holders :: "srw \<Rightarrow> nat set" where
  "holders s = {t. spc s t = Holding}"

lemma at_pc_fields [simp]:
  "Ptr (at_pc t l s) = Ptr s" "parked (at_pc t l s) = parked s"
  "spc (at_pc t l s) = (spc s)(t := l)"
  by (simp_all add: at_pc_def)

lemmas srw_ops = acquire_first_def acquire_second_def acquire_wait_def
  ReleaseSRWLockExclusive_def release_wake_def InterlockedCompareExchange_def

text \<open>The queue holds exactly the parked threads, each once, in every run.\<close>

definition srw_queue_ok :: "srw \<Rightarrow> bool" where
  "srw_queue_ok s \<longleftrightarrow> distinct (parked s) \<and> (\<forall>t. t \<in> set (parked s) \<longleftrightarrow> spc s t = Parked)"

text \<open>The lock word counts its owners, and a thread marks only a word it saw as 1.\<close>

definition srw_owner_ok :: "srw \<Rightarrow> bool" where
  "srw_owner_ok s \<longleftrightarrow> Ptr s \<in> {0, 1, 2} \<and> (\<forall>t st. spc s t = Marking st \<longrightarrow> st = 1) \<and>
     (Ptr s = 0 \<longrightarrow> holders s = {}) \<and> (Ptr s \<noteq> 0 \<longrightarrow> (\<exists>t. holders s = {t})) \<and> srw_queue_ok s"

lemma srw_queue_step: "srw_queue_ok s \<Longrightarrow> srw_by t s s' \<Longrightarrow> srw_queue_ok s'"
  by (erule srw_byE) (force simp: srw_queue_ok_def srw_ops Let_def split: if_splits list.splits)+

interpretation srw_queue: step_invariant srw_init srw_step srw_queue_ok
proof unfold_locales
  show "srw_queue_ok s" if "srw_init s" for s using that by (simp add: srw_init_def srw_queue_ok_def)
  show "srw_queue_ok s'" if "srw_queue_ok s" "srw_step s s'" for s s'
    using that srw_queue_step by (auto simp: srw_step_def)
qed

lemma holders_at_pc:
  "holders (at_pc t l s) = (if l = Holding then insert t (holders s) else holders s - {t})"
  by (auto simp: holders_def)

lemma holders_fields [simp]:
  "holders (s\<lparr>Ptr := p\<rparr>) = holders s" "holders (s\<lparr>parked := q\<rparr>) = holders s"
  by (simp_all add: holders_def)

lemma srw_one_holder:
  assumes "srw_owner_ok s" "spc s t = Holding"
  shows "holders s = {t}" "Ptr s \<noteq> 0"
proof -
  have t: "t \<in> holders s" using assms(2) by (simp add: holders_def)
  with assms(1) show "Ptr s \<noteq> 0" by (auto simp: srw_owner_ok_def)
  with assms(1) t show "holders s = {t}" by (auto simp: srw_owner_ok_def)
qed

lemma srw_owner_frame:
  assumes "srw_owner_ok s" "spc s t \<noteq> Holding" "l \<noteq> Holding" "\<And>st. l = Marking st \<Longrightarrow> st = 1"
    and "holders s' = holders (at_pc t l s)" "Ptr s' = Ptr s \<or> Ptr s \<noteq> 0 \<and> Ptr s' = 2"
    and "\<And>u st. spc s' u = Marking st \<Longrightarrow> u = t \<and> l = Marking st \<or> spc s u = Marking st"
    and "srw_queue_ok s'"
  shows "srw_owner_ok s'"
proof -
  have "\<forall>u st. spc s' u = Marking st \<longrightarrow> st = 1"
    using assms(1,4,7) unfolding srw_owner_ok_def by blast
  moreover have "holders s' = holders s"
    using assms(2,3,5) by (auto simp: holders_def)
  ultimately show ?thesis using assms(1,6,8) unfolding srw_owner_ok_def by auto
qed

lemma srw_owner_step:
  assumes ok: "srw_owner_ok s" and stp: "srw_by t s s'" "\<not> marks_free_lock t s"
  shows "srw_owner_ok s'"
proof -
  have q: "srw_queue_ok s'" using ok stp(1) srw_queue_step by (auto simp: srw_owner_ok_def)
  from stp(1) show ?thesis
  proof (cases rule: srw_by.cases)
    case call
    show ?thesis
      by (rule srw_owner_frame [OF ok, where t = t and l = Trying])
        (use call ok q in \<open>auto simp: holders_def split: if_splits\<close>)+
  next
    case first
    show ?thesis
    proof (cases "Ptr s = 0")
      case True
      with first have "holders s' = {t}" "Ptr s' = 1"
        using ok by (auto simp: acquire_first_def InterlockedCompareExchange_def holders_at_pc
            srw_owner_ok_def)
      moreover have "\<forall>u st. spc s' u = Marking st \<longrightarrow> st = 1"
        using ok first True by (simp add: acquire_first_def InterlockedCompareExchange_def srw_owner_ok_def)
      ultimately show ?thesis using q unfolding srw_owner_ok_def by simp
    next
      case False
      then have p: "Ptr s \<in> {1, 2}" using ok by (simp add: srw_owner_ok_def)
      show ?thesis
        by (rule srw_owner_frame [OF ok, where t = t and l = "if Ptr s = 2 then Waiting else Marking 1"])
          (use p first ok q in \<open>auto simp: acquire_first_def InterlockedCompareExchange_def holders_def
            split: if_splits\<close>)
    qed
  next
    case (second st)
    then have "Ptr s \<noteq> 0" using stp(2) by (simp add: marks_free_lock_def)
    then have st: "st = 1" "Ptr s \<in> {1, 2}"
      using ok second by (auto simp: srw_owner_ok_def)
    show ?thesis
      by (rule srw_owner_frame [OF ok, where t = t and l = Waiting])
        (use second st q in \<open>auto simp: acquire_second_def InterlockedCompareExchange_def holders_def
          split: if_splits\<close>)+
  next
    case (wait created)
    show ?thesis
      by (rule srw_owner_frame [OF ok, where t = t and l = "if Ptr s \<noteq> 2 \<or> \<not> created then Trying else Parked"])
        (use wait ok q in \<open>auto simp: acquire_wait_def holders_def split: if_splits\<close>)+
  next
    case release
    then have "holders s = {t}" using ok srw_one_holder by blast
    with release show ?thesis
      using ok q unfolding srw_owner_ok_def
      by (auto simp: ReleaseSRWLockExclusive_def holders_at_pc Let_def split: if_splits)
  next
    case wake
    have "spc s u \<noteq> Holding" if "u \<in> set (parked s)" for u
      using that ok by (auto simp: srw_owner_ok_def srw_queue_ok_def)
    then have h: "holders s' = holders (at_pc t Idle s)"
      using wake by (auto simp: release_wake_def holders_def split: list.splits if_splits)
    show ?thesis
      by (rule srw_owner_frame [OF ok, where t = t and l = Idle])
        (use wake h ok q in \<open>auto simp: release_wake_def holders_def split: list.splits if_splits\<close>)+
  qed
qed

interpretation srw_owner: step_invariant srw_init srw_quiet_step srw_owner_ok
proof unfold_locales
  show "srw_owner_ok s" if "srw_init s" for s
    using that by (simp add: srw_init_def srw_owner_ok_def srw_queue_ok_def holders_def)
  show "srw_owner_ok s'" if "srw_owner_ok s" "srw_quiet_step s s'" for s s'
    using that srw_owner_step by (auto simp: srw_quiet_step_def)
qed

lemma srw_by_next: "spc s t \<noteq> Parked \<Longrightarrow> srw_by t s (srw_next t s)"
  by (auto simp: srw_next_def intro: step_intros split: srw_pc.splits)

lemma reach_schedule:
  "reach srw_init (\<lambda>s s'. \<exists>t. srw_by t s s' \<and> P t s) s \<Longrightarrow> schedulable P ts s \<Longrightarrow>
   reach srw_init (\<lambda>s s'. \<exists>t. srw_by t s s' \<and> P t s) (srw_schedule ts s)"
  by (induction P ts s rule: schedulable.induct) (auto intro: reach_step srw_by_next)

definition srw_start :: srw where
  "srw_start = \<lparr>Ptr = 0, spc = (\<lambda>_. Idle), parked = []\<rparr>"

lemma reach_srw_start: "reach srw_init stp srw_start"
  by (rule reach_init) (simp add: srw_init_def srw_start_def)

lemma reach_srw_step: "schedulable (\<lambda>_ _. True) ts srw_start \<Longrightarrow> reach srw_init srw_step (srw_schedule ts srw_start)"
  using reach_schedule [where P = "\<lambda>_ _. True", OF reach_srw_start] by (simp add: srw_step_def [abs_def])

lemma reach_srw_quiet:
  "schedulable (\<lambda>t s. \<not> marks_free_lock t s) ts srw_start \<Longrightarrow>
   reach srw_init srw_quiet_step (srw_schedule ts srw_start)"
  using reach_schedule [where P = "\<lambda>t s. \<not> marks_free_lock t s", OF reach_srw_start]
  by (simp add: srw_quiet_step_def [abs_def])

lemmas srw_eval = srw_start_def srw_next_def srw_ops at_pc_def marks_free_lock_def

text \<open>
  C5: as long as no thread's second compare-and-swap meets a lock that has just been freed, the
  slim lock is exclusive: at most one thread holds it, the word is 0 exactly when nobody does, and
  the queue holds the parked threads, each once.
\<close>

theorem srw_exclusive_unless_marked:
  assumes "reach srw_init srw_quiet_step s"
  shows "(spc s t = Holding \<longrightarrow> spc s u = Holding \<longrightarrow> t = u) \<and>
    (Ptr s = 0 \<longleftrightarrow> (\<forall>t. spc s t \<noteq> Holding)) \<and>
    distinct (parked s) \<and> (\<forall>t. t \<in> set (parked s) \<longleftrightarrow> spc s t = Parked)"
proof -
  have ok: "srw_owner_ok s" using assms by (rule srw_owner.reach_inv)
  have "spc s t = Holding \<longrightarrow> spc s u = Holding \<longrightarrow> t = u"
    using srw_one_holder(1) [OF ok] by (metis singletonD singletonI)
  moreover have "Ptr s = 0 \<longleftrightarrow> (\<forall>t. spc s t \<noteq> Holding)"
    using ok srw_one_holder(2) [OF ok] by (auto simp: srw_owner_ok_def holders_def)
  ultimately show ?thesis using ok by (simp add: srw_owner_ok_def srw_queue_ok_def)
qed

lemma srw_quiet_example:
  "reach srw_init srw_quiet_step (srw_schedule [0, 0, 1, 1, 1, 1] srw_start)"
  "spc (srw_schedule [0, 0, 1, 1, 1, 1] srw_start) 0 = Holding"
  "spc (srw_schedule [0, 0, 1, 1, 1, 1] srw_start) 1 = Parked"
  by (rule reach_srw_quiet; simp add: srw_eval) (simp_all add: srw_eval)

theorem srw_exclusive_unless_marked_witness:
  "Ptr (srw_schedule [0, 0, 1, 1, 1, 1] srw_start) \<noteq> 0 \<and>
   parked (srw_schedule [0, 0, 1, 1, 1, 1] srw_start) \<noteq> []"
  using srw_exclusive_unless_marked [OF srw_quiet_example(1), of 0 0] srw_quiet_example(2,3)
  by fastforce

text \<open>
  C6: the slim lock is not exclusive: when the owner releases the lock between the two
  compare-and-swaps of a second thread, the second one fails, returns the null it found, and is
  taken for a success. The second thread then believes it holds a lock whose word is still 0, and
  a third one takes it too.
\<close>

theorem srw_two_holders:
  "\<exists>s. reach srw_init srw_step s \<and> spc s 1 = Holding \<and> spc s 2 = Holding \<and> Ptr s = 1"
proof (intro exI conjI)
  let ?s = "srw_schedule [0, 0, 1, 1, 0, 1, 2, 2] srw_start"
  show "reach srw_init srw_step ?s" by (rule reach_srw_step) (simp add: srw_eval)
  show "spc ?s 1 = Holding" "spc ?s 2 = Holding" "Ptr ?s = 1" by (simp_all add: srw_eval)
qed

text \<open>What one thread can do with the lock while another one is parked and the word is not 2.\<close>

definition forgotten :: "srw \<Rightarrow> bool" where
  "forgotten s \<longleftrightarrow> parked s = [2] \<and> spc s 2 = Parked \<and>
     (spc s 0 \<in> {Idle, Trying} \<and> Ptr s = 0 \<or> spc s 0 = Holding \<and> Ptr s = 1)"

lemma forgotten_step: "forgotten s \<Longrightarrow> srw_by 0 s s' \<Longrightarrow> forgotten s'"
  by (erule srw_byE) (auto simp: forgotten_def srw_ops Let_def split: if_splits)

interpretation srw_forgotten: step_invariant forgotten "srw_by 0" forgotten
  by unfold_locales (auto intro: forgotten_step)



section \<open>Condition variables\<close>

datatype wait_result = WAIT_OBJECT_0 | WAIT_TIMEOUT | WAIT_FAILED

datatype event = Closed | Reset | Signalled

text \<open>
  A sleeper: blocked in the first wait, between it and the queue lock with the result of the wait,
  blocked in the second wait, or leaving with a result. \<open>waddr\<close> is the \<open>address\<close> field of its
  entry. The trace records the wake-ups and the returns of the calls.
\<close>

datatype cv_pc = Outside | Sleeping | Slept wait_result | Settling | Leaving wait_result

datatype cv_event = Woke nat | Returned nat bool

record cvs =
  cvpc :: "nat \<Rightarrow> cv_pc"
  waddr :: "nat \<Rightarrow> addr"
  evt :: "nat \<Rightarrow> event"
  cvq :: "nat list"
  closed_set :: bool
  trace :: "cv_event list"

definition cv_sleep :: "nat \<Rightarrow> addr \<Rightarrow> cvs \<Rightarrow> cvs" where
  "cv_sleep t cv s = s\<lparr>cvpc := (cvpc s)(t := Sleeping), waddr := (waddr s)(t := cv),
     evt := (evt s)(t := Reset), cvq := cvq s @ [t]\<rparr>"

text \<open>An auto-reset event: a wait that succeeds resets it.\<close>

definition cv_waited :: "nat \<Rightarrow> wait_result \<Rightarrow> cvs \<Rightarrow> cvs" where
  "cv_waited t r s = s\<lparr>cvpc := (cvpc s)(t := Slept r),
     evt := (if r = WAIT_OBJECT_0 then (evt s)(t := Reset) else evt s)\<rparr>"

definition cv_dequeue :: "nat \<Rightarrow> wait_result \<Rightarrow> cvs \<Rightarrow> cvs" where
  "cv_dequeue t r s =
     (let dequeued = waddr s t = 0;
          s = (if \<not> dequeued then s\<lparr>waddr := (waddr s)(t := 0), cvq := remove1 t (cvq s)\<rparr> else s)
      in s\<lparr>cvpc := (cvpc s)(t := if dequeued \<and> r \<noteq> WAIT_OBJECT_0 then Settling else Leaving r)\<rparr>)"

definition cv_settle :: "nat \<Rightarrow> cvs \<Rightarrow> cvs" where
  "cv_settle t s = s\<lparr>cvpc := (cvpc s)(t := Leaving WAIT_OBJECT_0), evt := (evt s)(t := Reset)\<rparr>"

definition cv_return :: "nat \<Rightarrow> wait_result \<Rightarrow> cvs \<Rightarrow> cvs" where
  "cv_return t r s = s\<lparr>evt := (evt s)(t := Closed), cvpc := (cvpc s)(t := Outside),
     trace := trace s @ [Returned t (r = WAIT_OBJECT_0)]\<rparr>"

definition cv_wake :: "addr \<Rightarrow> cvs \<Rightarrow> cvs" where
  "cv_wake cv s = (case find (\<lambda>u. waddr s u = cv) (cvq s) of
      None \<Rightarrow> s
    | Some u \<Rightarrow> s\<lparr>waddr := (waddr s)(u := 0), cvq := remove1 u (cvq s),
        evt := (if evt s u = Closed then evt s else (evt s)(u := Signalled)),
        closed_set := (closed_set s \<or> evt s u = Closed), trace := trace s @ [Woke u]\<rparr>)"

text \<open>The wait may time out or fail only while the event is not set; \<open>GetLastError\<close> is not kept.\<close>

inductive cv_step :: "cvs \<Rightarrow> cvs \<Rightarrow> bool" where
  sleep: "cvpc s t = Outside \<Longrightarrow> cv \<noteq> 0 \<Longrightarrow> cv_step s (cv_sleep t cv s)"
| waited: "cvpc s t = Sleeping \<Longrightarrow> r = WAIT_OBJECT_0 \<longleftrightarrow> evt s t = Signalled \<Longrightarrow>
    cv_step s (cv_waited t r s)"
| dequeue: "cvpc s t = Slept r \<Longrightarrow> cv_step s (cv_dequeue t r s)"
| settle: "cvpc s t = Settling \<Longrightarrow> evt s t = Signalled \<Longrightarrow> cv_step s (cv_settle t s)"
| return: "cvpc s t = Leaving r \<Longrightarrow> cv_step s (cv_return t r s)"
| wake: "cv \<noteq> 0 \<Longrightarrow> cv_step s (cv_wake cv s)"

inductive_cases cv_stepE: "cv_step s s'"

definition cv_init :: "cvs \<Rightarrow> bool" where
  "cv_init s \<longleftrightarrow> cvpc s = (\<lambda>_. Outside) \<and> waddr s = (\<lambda>_. 0) \<and> evt s = (\<lambda>_. Closed) \<and>
     cvq s = [] \<and> \<not> closed_set s \<and> trace s = []"

text \<open>One thread's part of the invariant: \<open>owed\<close> is a wake-up it has not returned from yet.\<close>

definition owed :: "cvs \<Rightarrow> nat \<Rightarrow> bool" where
  "owed s t \<longleftrightarrow> (case cvpc s t of
      Outside \<Rightarrow> False
    | Sleeping \<Rightarrow> waddr s t = 0
    | Slept _ \<Rightarrow> waddr s t = 0
    | Settling \<Rightarrow> True
    | Leaving r \<Rightarrow> r = WAIT_OBJECT_0)"

definition cv_thread_ok :: "cvs \<Rightarrow> nat \<Rightarrow> bool" where
  "cv_thread_ok s t \<longleftrightarrow>
     (case cvpc s t of
        Outside \<Rightarrow> evt s t = Closed \<and> t \<notin> set (cvq s)
      | Sleeping \<Rightarrow> (t \<in> set (cvq s) \<longleftrightarrow> waddr s t \<noteq> 0) \<and>
          evt s t = (if waddr s t = 0 then Signalled else Reset)
      | Slept r \<Rightarrow> (t \<in> set (cvq s) \<longleftrightarrow> waddr s t \<noteq> 0) \<and>
          (if r = WAIT_OBJECT_0 then waddr s t = 0 \<and> evt s t = Reset
           else evt s t = (if waddr s t = 0 then Signalled else Reset))
      | Settling \<Rightarrow> evt s t = Signalled \<and> t \<notin> set (cvq s)
      | Leaving r \<Rightarrow> evt s t = Reset \<and> t \<notin> set (cvq s)) \<and>
     count_list (trace s) (Woke t) = count_list (trace s) (Returned t True) + (if owed s t then 1 else 0)"

definition cv_ok :: "cvs \<Rightarrow> bool" where
  "cv_ok s \<longleftrightarrow> distinct (cvq s) \<and> \<not> closed_set s \<and> (\<forall>t. cv_thread_ok s t)"

lemma cv_ok_update:
  assumes "cv_ok s" "distinct (cvq s')" "\<not> closed_set s'" "cv_thread_ok s' t"
    and "\<And>u. u \<noteq> t \<Longrightarrow> cvpc s' u = cvpc s u \<and> waddr s' u = waddr s u \<and> evt s' u = evt s u \<and>
      (u \<in> set (cvq s') \<longleftrightarrow> u \<in> set (cvq s)) \<and>
      count_list (trace s') (Woke u) = count_list (trace s) (Woke u) \<and>
      count_list (trace s') (Returned u True) = count_list (trace s) (Returned u True)"
  shows "cv_ok s'"
proof -
  have "cv_thread_ok s' u" for u
  proof (cases "u = t")
    case False
    note frame = assms(5) [OF False]
    have "cv_thread_ok s u" using assms(1) by (simp add: cv_ok_def)
    then show ?thesis unfolding cv_thread_ok_def owed_def by (simp only: frame)
  qed (simp add: assms)
  then show ?thesis using assms by (simp add: cv_ok_def)
qed

lemma cv_step_ok:
  assumes ok: "cv_ok s" and stp: "cv_step s s'"
  shows "cv_ok s'"
  using stp
proof cases
  case (sleep t cv)
  then have "cv_thread_ok s t" using ok by (simp add: cv_ok_def)
  with sleep ok show ?thesis
    by (intro cv_ok_update [of s s' t])
      (auto simp: cv_sleep_def cv_thread_ok_def owed_def cv_ok_def count_list_append)
next
  case (waited t r)
  then have "cv_thread_ok s t" using ok by (simp add: cv_ok_def)
  with waited ok show ?thesis
    by (intro cv_ok_update [of s s' t])
      (auto simp: cv_waited_def cv_thread_ok_def owed_def cv_ok_def split: if_splits)
next
  case (dequeue t r)
  then have "cv_thread_ok s t" using ok by (simp add: cv_ok_def)
  with dequeue ok show ?thesis
    by (intro cv_ok_update [of s s' t])
      (auto simp: cv_dequeue_def cv_thread_ok_def owed_def cv_ok_def Let_def in_set_remove1
        split: if_splits)
next
  case (settle t)
  then have "cv_thread_ok s t" using ok by (simp add: cv_ok_def)
  with settle ok show ?thesis
    by (intro cv_ok_update [of s s' t])
      (auto simp: cv_settle_def cv_thread_ok_def owed_def cv_ok_def split: if_splits)
next
  case (return t r)
  then have "cv_thread_ok s t" using ok by (simp add: cv_ok_def)
  with return ok show ?thesis
    by (intro cv_ok_update [of s s' t])
      (auto simp: cv_return_def cv_thread_ok_def owed_def cv_ok_def split: if_splits)
next
  case (wake cv)
  show ?thesis
  proof (cases "find (\<lambda>u. waddr s u = cv) (cvq s)")
    case (Some u)
    then have u: "u \<in> set (cvq s)" "waddr s u \<noteq> 0" using wake by (auto simp: find_Some_iff)
    have tok: "cv_thread_ok s u" and d: "distinct (cvq s)" "\<not> closed_set s" using ok by (simp_all add: cv_ok_def)
    with u have open_evt: "evt s u = Reset" and pc: "cvpc s u = Sleeping \<or> (\<exists>r. cvpc s u = Slept r \<and> r \<noteq> WAIT_OBJECT_0)"
      by (auto simp: cv_thread_ok_def split: cv_pc.splits if_splits)
    have s': "s' = s\<lparr>waddr := (waddr s)(u := 0), cvq := remove1 u (cvq s), evt := (evt s)(u := Signalled),
        trace := trace s @ [Woke u]\<rparr>"
      using wake Some open_evt by (simp add: cv_wake_def)
    show ?thesis
    proof (rule cv_ok_update [OF ok, where t = u])
      show "cv_thread_ok s' u"
        using pc tok u d(1) by (auto simp: s' cv_thread_ok_def owed_def)
    qed (use d in \<open>auto simp: s' in_set_remove1\<close>)
  qed (use wake ok in \<open>simp add: cv_wake_def\<close>)
qed

interpretation cv: step_invariant cv_init cv_step cv_ok
proof unfold_locales
  show "cv_ok s" if "cv_init s" for s
    using that by (simp add: cv_init_def cv_ok_def cv_thread_ok_def owed_def)
  show "cv_ok s'" if "cv_ok s" "cv_step s s'" for s s' using that by (rule cv_step_ok)
qed


definition cv_start :: cvs where
  "cv_start = \<lparr>cvpc = (\<lambda>_. Outside), waddr = (\<lambda>_. 0), evt = (\<lambda>_. Closed), cvq = [],
     closed_set = False, trace = []\<rparr>"

text \<open>A sleeper that times out just before it is woken.\<close>

definition cv_late_wake :: cvs where
  "cv_late_wake = cv_dequeue 0 WAIT_TIMEOUT (cv_wake 16 (cv_waited 0 WAIT_TIMEOUT (cv_sleep 0 16 cv_start)))"

lemmas cv_eval = cv_start_def cv_late_wake_def cv_sleep_def cv_waited_def cv_wake_def cv_dequeue_def
  cv_settle_def cv_return_def

lemma reach_cv_late_wake: "reach cv_init cv_step cv_late_wake"
proof -
  have "reach cv_init cv_step cv_start"
    by (rule reach_init) (simp add: cv_init_def cv_start_def)
  then have "reach cv_init cv_step (cv_sleep 0 16 cv_start)"
    by (rule reach_step) (rule cv_step.sleep; simp add: cv_eval)
  then have "reach cv_init cv_step (cv_waited 0 WAIT_TIMEOUT (cv_sleep 0 16 cv_start))"
    by (rule reach_step) (rule cv_step.waited; simp add: cv_eval)
  then have "reach cv_init cv_step (cv_wake 16 (cv_waited 0 WAIT_TIMEOUT (cv_sleep 0 16 cv_start)))"
    by (rule reach_step) (rule cv_step.wake; simp)
  then show ?thesis
    unfolding cv_late_wake_def by (rule reach_step) (rule cv_step.dequeue; simp add: cv_eval)
qed


section \<open>The event of a futex wait\<close>

text \<open>
  One wait with its entry and event, and a waker. The waker takes the event out of the entry under
  the lock and sets it after dropping the lock; the waiter closes it before it looks at the entry.
  \<open>stale\<close> records a \<open>SetEvent\<close> on the closed handle.
\<close>

datatype fx_pc = Blocked | Unblocked | Gone

record fx =
  fpc :: fx_pc
  in_queue :: bool
  fev :: event
  taken :: bool
  stale :: bool

text \<open>\<open>CloseHandle(entry.event)\<close> follows the wait directly.\<close>

definition fx_unblock :: "fx \<Rightarrow> fx" where
  "fx_unblock s = s\<lparr>fpc := Unblocked, fev := Closed\<rparr>"

definition fx_leave :: "fx \<Rightarrow> fx" where
  "fx_leave s = s\<lparr>fpc := Gone, in_queue := False\<rparr>"

definition fx_take :: "fx \<Rightarrow> fx" where
  "fx_take s = s\<lparr>in_queue := False, taken := True\<rparr>"

definition fx_set :: "fx \<Rightarrow> fx" where
  "fx_set s = (if fev s = Closed then s\<lparr>taken := False, stale := True\<rparr>
     else s\<lparr>taken := False, fev := Signalled\<rparr>)"

inductive fx_step :: "bool \<Rightarrow> fx \<Rightarrow> fx \<Rightarrow> bool" for endless :: bool where
  signalled: "fpc s = Blocked \<Longrightarrow> fev s = Signalled \<Longrightarrow> fx_step endless s (fx_unblock s)"
| timeout: "fpc s = Blocked \<Longrightarrow> \<not> endless \<Longrightarrow> fx_step endless s (fx_unblock s)"
| leave: "fpc s = Unblocked \<Longrightarrow> fx_step endless s (fx_leave s)"
| take: "in_queue s \<Longrightarrow> fx_step endless s (fx_take s)"
| set: "taken s \<Longrightarrow> fx_step endless s (fx_set s)"

lemmas [step_intros] = fx_step.intros
inductive_cases fx_stepE: "fx_step endless s s'"

definition fx_start :: fx where
  "fx_start = \<lparr>fpc = Blocked, in_queue = True, fev = Reset, taken = False, stale = False\<rparr>"

definition fx_ok :: "fx \<Rightarrow> bool" where
  "fx_ok s \<longleftrightarrow> \<not> stale s \<and> (in_queue s \<longrightarrow> fev s = Reset \<and> fpc s = Blocked \<and> \<not> taken s) \<and>
     (taken s \<longrightarrow> fev s = Reset \<and> fpc s = Blocked)"

lemmas fx_ops = fx_unblock_def fx_leave_def fx_take_def fx_set_def

lemma fx_ok_step: "fx_ok s \<Longrightarrow> fx_step True s s' \<Longrightarrow> fx_ok s'"
  by (erule fx_stepE) (auto simp: fx_ok_def fx_ops)

interpretation fx: step_invariant "\<lambda>s. s = fx_start" "fx_step True" fx_ok
proof unfold_locales
  show "fx_ok s" if "s = fx_start" for s using that by (simp add: fx_ok_def fx_start_def)
  show "fx_ok s'" if "fx_ok s" "fx_step True s s'" for s s' using that by (rule fx_ok_step)
qed

text \<open>
  C34: a futex wake sets an event that the waiter has already closed exactly when the wait can time
  out: with a timeout the waiter may close the handle while its entry is still queued, or while
  the waker carries the handle; with an infinite wait, as the locks use it, it never happens.
\<close>

theorem futex_event_lifetime:
  "(\<exists>s. reach (\<lambda>s. s = fx_start) (fx_step endless) s \<and> stale s) \<longleftrightarrow> \<not> endless"
proof
  assume "\<exists>s. reach (\<lambda>s. s = fx_start) (fx_step endless) s \<and> stale s"
  then obtain s where s: "reach (\<lambda>s. s = fx_start) (fx_step endless) s" "stale s" by blast
  then show "\<not> endless" using fx.reach_inv [of s] by (cases endless) (auto simp: fx_ok_def)
next
  assume fin: "\<not> endless"
  let ?r = "reach (\<lambda>s. s = fx_start) (fx_step endless)"
  have "?r fx_start" by (rule reach_init) simp
  then have "?r (fx_unblock fx_start)"
    by (rule reach_step) (rule fx_step.timeout; simp add: fx_start_def fin)
  then have "?r (fx_take (fx_unblock fx_start))"
    by (rule reach_step) (rule fx_step.take; simp add: fx_start_def fx_ops)
  then have "?r (fx_set (fx_take (fx_unblock fx_start)))"
    by (rule reach_step) (rule fx_step.set; simp add: fx_start_def fx_ops)
  moreover have "stale (fx_set (fx_take (fx_unblock fx_start)))" by (simp add: fx_start_def fx_ops)
  ultimately show "\<exists>s. ?r s \<and> stale s" by blast
qed

end
