(* ===== verification/SyncQueues.thy ===== *)
theory SyncQueues
  imports SyncSteps
begin

text \<open>
  The two models of \<open>src/legacy/shared/synchapi.c\<close> together. The step relations of \<open>SyncSteps\<close> keep
  the blocked threads in a list; the code keeps them in linked entries on their stacks, shared by all
  addresses of a bucket. Here the queue operations of \<open>SyncApi\<close> are shown to be the steps: a slim
  lock and a condition variable run on the linked queues as they do on the lists. \<open>ent t\<close> is the
  address of the entry of thread \<open>t\<close>.
\<close>

section \<open>The queue of a slim lock\<close>

text \<open>The parked threads are the waiters on the lock, among those of its bucket.\<close>

definition lock_queue :: "(nat \<Rightarrow> addr) \<Rightarrow> addr \<Rightarrow> (nat \<Rightarrow> addr) \<Rightarrow> srw \<Rightarrow> waitq \<Rightarrow> bool" where
  "lock_queue qs lock ent s c \<longleftrightarrow>
     (\<exists>xs. waiters c (get_futex_queue qs lock) xs \<and> filter (\<lambda>e. eaddr c e = lock) xs = map ent (parked s) \<and>
        (\<forall>e\<in>set xs. eevent c e \<noteq> 0))"

definition unqueued :: "addr \<Rightarrow> addr \<Rightarrow> waitq \<Rightarrow> bool" where
  "unqueued q e c \<longleftrightarrow> e \<noteq> 0 \<and> e \<noteq> q \<and> (\<forall>xs. waiters c q xs \<longrightarrow> e \<notin> set xs)"

lemma waiters_distinct: "waiters s q xs \<Longrightarrow> distinct xs"
  by (auto simp: waiters_def dlist_def)

lemma chain_unique:
  "chain h (p # xs @ [q]) \<Longrightarrow> chain h (p # ys @ [q]) \<Longrightarrow> q \<notin> set xs \<Longrightarrow> q \<notin> set ys \<Longrightarrow> xs = ys"
proof (induction xs arbitrary: p ys)
  case Nil
  then show ?case by (cases ys) (auto simp: linked_def)
next
  case (Cons x xs)
  then show ?case by (cases ys) (auto simp: linked_def)
qed

lemma waiters_unique:
  assumes "waiters c q xs" "waiters c q ys"
  shows "xs = ys"
proof (cases "nxt (links c) q = 0")
  case True
  then show ?thesis using assms dlist_next_nonzero [of "links c" q] unfolding waiters_def by blast
next
  case False
  then have "dlist (links c) q xs" "dlist (links c) q ys" using assms by (auto simp: waiters_def)
  then show ?thesis using chain_unique [of "links c" q xs q ys] by (simp add: dlist_def)
qed

lemma woken_filter: "woken a s xs = (case filter (\<lambda>e. eaddr s e = a) xs of [] \<Rightarrow> None | e # es \<Rightarrow> Some e)"
  by (induction xs) (auto simp: woken_def)

lemma filter_unmark:
  assumes "distinct xs" "filter (\<lambda>e. f e = a) xs = e # es" "a \<noteq> 0"
  shows "filter (\<lambda>x. (f(e := 0)) x = a) (remove1 e xs) = es"
proof -
  have "filter (\<lambda>x. (f(e := 0)) x = a) (remove1 e xs) = filter (\<lambda>x. f x = a) (remove1 e xs)"
    using assms(1) by (intro filter_cong) auto
  also have "\<dots> = remove1 e (filter (\<lambda>x. f x = a) xs)" by (simp add: filter_remove1)
  finally show ?thesis using assms(2) by simp
qed

lemma release_on_queue:
  assumes q: "lock_queue qs lock ent s c" and a: "lock \<noteq> 0"
  shows "\<exists>c'. WakeByAddressSingle qs lock c = Some c' \<and> lock_queue qs lock ent (release_wake t s) c' \<and>
    signalled c' = signalled c @ (case parked s of [] \<Rightarrow> [] | u # us \<Rightarrow> [eevent c (ent u)])"
proof -
  let ?q = "get_futex_queue qs lock"
  from q obtain xs where xs: "waiters c ?q xs" "filter (\<lambda>e. eaddr c e = lock) xs = map ent (parked s)"
    "\<forall>e\<in>set xs. eevent c e \<noteq> 0" by (auto simp: lock_queue_def)
  from wake_single_lemma [OF xs(1) refl a xs(3)] obtain c' where
    run: "WakeByAddressSingle qs lock c = Some c'" "eevent c' = eevent c"
    and c': "case woken lock c xs of
       None \<Rightarrow> waiters c' ?q xs \<and> signalled c' = signalled c \<and> eaddr c' = eaddr c
     | Some e \<Rightarrow> waiters c' ?q (remove1 e xs) \<and> signalled c' = signalled c @ [eevent c e] \<and>
         eaddr c' = (eaddr c)(e := 0)" by blast
  show ?thesis
  proof (cases "parked s")
    case Nil
    with xs(2) have "woken lock c xs = None" by (simp add: woken_filter)
    with c' run xs Nil show ?thesis by (auto simp: lock_queue_def release_wake_def)
  next
    case (Cons u us)
    with xs(2) have f: "filter (\<lambda>e. eaddr c e = lock) xs = ent u # map ent us" by simp
    then have "woken lock c xs = Some (ent u)" by (simp add: woken_filter)
    with c' have w: "waiters c' ?q (remove1 (ent u) xs)" "signalled c' = signalled c @ [eevent c (ent u)]"
      "eaddr c' = (eaddr c)(ent u := 0)" by simp_all
    have "filter (\<lambda>e. eaddr c' e = lock) (remove1 (ent u) xs) = map ent us"
      unfolding w(3) by (rule filter_unmark [OF waiters_distinct [OF xs(1)] f a])
    moreover have "\<forall>e\<in>set (remove1 (ent u) xs). eevent c' e \<noteq> 0"
      using xs(3) run(2) by (metis notin_set_remove1)
    ultimately have "lock_queue qs lock ent (release_wake t s) c'"
      unfolding lock_queue_def using w(1) Cons
      by (intro exI [of _ "remove1 (ent u) xs"]) (simp add: release_wake_def)
    then show ?thesis using run(1) w(2) Cons by simp
  qed
qed

lemma wait_on_queue:
  assumes q: "lock_queue qs lock ent s c" and a: "lock \<noteq> 0"
    and fresh: "unqueued (get_futex_queue qs lock) (ent t) c"
    and word: "n \<in> {4, 8}" "compare_addr m lock cmp n \<longleftrightarrow> Ptr s = 2"
    and run: "WaitOnAddress_enter qs m lock cmp n (ent t) ev c = (r, c')"
  shows "lock_queue qs lock ent (acquire_wait t (ev \<noteq> 0) s) c' \<and> (r = None \<longleftrightarrow> spc (acquire_wait t (ev \<noteq> 0) s) t = Parked)"
proof -
  let ?q = "get_futex_queue qs lock"
  from q obtain xs where xs: "waiters c ?q xs" "filter (\<lambda>e. eaddr c e = lock) xs = map ent (parked s)"
    "\<forall>e\<in>set xs. eevent c e \<noteq> 0" by (auto simp: lock_queue_def)
  have new: "ent t \<notin> set xs" "ent t \<noteq> ?q" "ent t \<noteq> 0" using fresh xs(1) by (auto simp: unqueued_def)
  show ?thesis
  proof (cases "Ptr s = 2 \<and> ev \<noteq> 0")
    case True
    let ?c = "c\<lparr>eevent := (eevent c)(ent t := ev), eaddr := (eaddr c)(ent t := lock)\<rparr>"
    have w: "waiters ?c ?q xs" by (rule waiters_links_cong [OF xs(1)]) simp
    from True word run have res: "r = None"
      "c' = (queue_ready ?q ?c)\<lparr>links := list_add_tail ?q (ent t) (links (queue_ready ?q ?c))\<rparr>"
      by (auto simp: WaitOnAddress_enter_def Let_def)
    have "waiters c' ?q (xs @ [ent t])"
      using waiters_enqueue [OF w new(1,2,3)] new(3) xs(1) unfolding res
      by (intro waitersI) (auto simp: waiters_def)
    moreover have "filter (\<lambda>e. eaddr c' e = lock) (xs @ [ent t]) = map ent (parked s) @ [ent t]"
      using new(1) by (auto simp: res xs(2) [symmetric] intro!: filter_cong)
    moreover have "\<forall>e\<in>set (xs @ [ent t]). eevent c' e \<noteq> 0"
      using xs(3) True new(1) by (auto simp: res)
    ultimately show ?thesis using True res(1) unfolding lock_queue_def
      by (intro conjI exI [of _ "xs @ [ent t]"]) (simp_all add: acquire_wait_def)
  next
    case False
    with word run have "r \<noteq> None" "c' = c"
      by (auto simp: WaitOnAddress_enter_def Let_def split: if_splits)
    with False q show ?thesis by (auto simp: acquire_wait_def lock_queue_def)
  qed
qed

text \<open>
  C10: the slim lock runs on the linked queue of its bucket as on the list of parked threads. A
  release of a contended lock takes the entry of the thread parked first out of the queue and sets
  the event of just that thread; a wait blocks exactly when the word is still 2 and an event could
  be created, and then the entry stands behind those of the threads parked before. Waiters on other
  addresses of the bucket do not matter.
\<close>

theorem slim_lock_on_queue:
  assumes "lock_queue qs lock ent s c" "lock \<noteq> 0"
  shows "(\<exists>c'. WakeByAddressSingle qs lock c = Some c' \<and> lock_queue qs lock ent (release_wake t s) c' \<and>
      signalled c' = signalled c @ (case parked s of [] \<Rightarrow> [] | u # us \<Rightarrow> [eevent c (ent u)])) \<and>
    (unqueued (get_futex_queue qs lock) (ent t) c \<longrightarrow> n \<in> {4, 8} \<longrightarrow> (compare_addr m lock cmp n \<longleftrightarrow> Ptr s = 2) \<longrightarrow>
      (case WaitOnAddress_enter qs m lock cmp n (ent t) ev c of (r, c') \<Rightarrow>
         lock_queue qs lock ent (acquire_wait t (ev \<noteq> 0) s) c' \<and>
         (r = None \<longleftrightarrow> spc (acquire_wait t (ev \<noteq> 0) s) t = Parked)))"
proof (intro conjI impI)
  show "\<exists>c'. WakeByAddressSingle qs lock c = Some c' \<and> lock_queue qs lock ent (release_wake t s) c' \<and>
      signalled c' = signalled c @ (case parked s of [] \<Rightarrow> [] | u # us \<Rightarrow> [eevent c (ent u)])"
    by (rule release_on_queue [OF assms])
  assume "unqueued (get_futex_queue qs lock) (ent t) c" "n \<in> {4, 8}" "compare_addr m lock cmp n \<longleftrightarrow> Ptr s = 2"
  from wait_on_queue [OF assms this] show "case WaitOnAddress_enter qs m lock cmp n (ent t) ev c of (r, c') \<Rightarrow>
      lock_queue qs lock ent (acquire_wait t (ev \<noteq> 0) s) c' \<and>
      (r = None \<longleftrightarrow> spc (acquire_wait t (ev \<noteq> 0) s) t = Parked)"
    by (cases "WaitOnAddress_enter qs m lock cmp n (ent t) ev c") simp
qed

section \<open>The queue of the condition variables of a bucket\<close>

definition cond_queue :: "addr \<Rightarrow> (nat \<Rightarrow> addr) \<Rightarrow> cvs \<Rightarrow> waitq \<Rightarrow> bool" where
  "cond_queue q ent s c \<longleftrightarrow> inj ent \<and> waiters c q (map ent (cvq s)) \<and>
     (\<forall>t. ent t \<noteq> 0 \<and> ent t \<noteq> q \<and> (cvpc s t \<noteq> Outside \<longrightarrow> eaddr c (ent t) = waddr s t))"

lemma remove1_map_inj: "inj f \<Longrightarrow> remove1 (f x) (map f xs) = map f (remove1 x xs)"
  by (induction xs) (auto dest: injD)

lemma find_map_cong:
  "(\<And>x. x \<in> set xs \<Longrightarrow> P (f x) = Q x) \<Longrightarrow> find P (map f xs) = map_option f (find Q xs)"
  by (induction xs) auto

lemma cv_queued: "cv_ok s \<Longrightarrow> u \<in> set (cvq s) \<Longrightarrow> cvpc s u \<noteq> Outside"
  by (auto simp: cv_ok_def cv_thread_ok_def dest: spec [of _ u] split: cv_pc.splits)

lemma sleep_on_queue:
  assumes q: "cond_queue q ent s c" and ok: "cv_ok s" and t: "cvpc s t = Outside" and cv: "get_condvar_queue qs cv = q"
  shows "cond_queue q ent (cv_sleep t cv s) (SleepConditionVariableCS_enqueue qs cv (ent t) ev c)"
proof -
  have new: "ent t \<notin> set (map ent (cvq s))" "ent t \<noteq> q" "ent t \<noteq> 0"
    using q t cv_queued [OF ok] by (auto simp: cond_queue_def dest: injD)
  have "waiters c q (map ent (cvq s))" using q by (simp add: cond_queue_def)
  from condvar_enqueue [OF this cv [symmetric] new]
  have "waiters (SleepConditionVariableCS_enqueue qs cv (ent t) ev c) q (map ent (cvq s) @ [ent t])" by blast
  moreover have "eaddr (SleepConditionVariableCS_enqueue qs cv (ent t) ev c) = (eaddr c)(ent t := cv)"
    by (simp add: SleepConditionVariableCS_enqueue_def Let_def)
  ultimately show ?thesis
    using q by (auto simp: cond_queue_def cv_sleep_def dest: injD)
qed

lemma dequeue_on_queue:
  assumes q: "cond_queue q ent s c" and ok: "cv_ok s" and t: "cvpc s t = Slept r"
  shows "\<exists>c'. SleepConditionVariableCS_dequeue (ent t) c = (waddr s t = 0, c') \<and> cond_queue q ent (cv_dequeue t r s) c'"
proof (cases "waddr s t = 0")
  case True
  with q t show ?thesis
    by (intro exI [of _ c]) (auto simp: SleepConditionVariableCS_dequeue_def cond_queue_def cv_dequeue_def Let_def)
next
  case False
  have "cv_thread_ok s t" using ok by (simp add: cv_ok_def)
  with t False have "t \<in> set (cvq s)" by (simp add: cv_thread_ok_def)
  moreover have e: "eaddr c (ent t) = waddr s t" "waiters c q (map ent (cvq s))" "inj ent"
    using q t by (simp_all add: cond_queue_def)
  ultimately obtain c' where c': "SleepConditionVariableCS_dequeue (ent t) c = (False, c')"
      "waiters c' q (remove1 (ent t) (map ent (cvq s)))"
    using condvar_dequeue [of c q "map ent (cvq s)" "ent t"] False by auto
  moreover have "eaddr c' = (eaddr c)(ent t := 0)"
    using c'(1) False e(1) by (auto simp: SleepConditionVariableCS_dequeue_def)
  ultimately show ?thesis
    using q False e(3) remove1_map_inj [OF e(3), of t "cvq s"]
    by (intro exI [of _ c']) (auto simp: cond_queue_def cv_dequeue_def Let_def dest: injD)
qed

lemma wake_on_queue:
  assumes q: "cond_queue q ent s c" and ok: "cv_ok s" and cv: "get_condvar_queue qs cv = q" "cv \<noteq> 0"
  shows "\<exists>c'. WakeConditionVariable qs cv c = Some c' \<and> cond_queue q ent (cv_wake cv s) c' \<and>
    signalled c' = signalled c @ (case find (\<lambda>u. waddr s u = cv) (cvq s) of None \<Rightarrow> [] | Some u \<Rightarrow> [eevent c (ent u)])"
proof -
  have w: "waiters c q (map ent (cvq s))" "inj ent" using q by (simp_all add: cond_queue_def)
  have woken: "woken cv c (map ent (cvq s)) = map_option ent (find (\<lambda>u. waddr s u = cv) (cvq s))"
    unfolding woken_def using q cv_queued [OF ok] by (intro find_map_cong) (simp add: cond_queue_def)
  from condvar_wake_refines [OF w(1) cv(1) [symmetric] cv(2)] obtain c' where
    run: "WakeConditionVariable qs cv c = Some c'" and c': "case woken cv c (map ent (cvq s)) of
       None \<Rightarrow> waiters c' q (map ent (cvq s)) \<and> signalled c' = signalled c \<and> eaddr c' = eaddr c
     | Some e \<Rightarrow> waiters c' q (remove1 e (map ent (cvq s))) \<and> signalled c' = signalled c @ [eevent c e] \<and>
         eaddr c' = (eaddr c)(e := 0)" by blast
  show ?thesis
  proof (cases "find (\<lambda>u. waddr s u = cv) (cvq s)")
    case None
    with woken have "woken cv c (map ent (cvq s)) = None" by simp
    with c' run q None show ?thesis by (auto simp: cond_queue_def cv_wake_def)
  next
    case (Some u)
    with woken have "woken cv c (map ent (cvq s)) = Some (ent u)" by simp
    with c' have "waiters c' q (map ent (remove1 u (cvq s)))" "signalled c' = signalled c @ [eevent c (ent u)]"
      "eaddr c' = (eaddr c)(ent u := 0)" using remove1_map_inj [OF w(2)] by simp_all
    with run q Some w(2) show ?thesis by (auto simp: cond_queue_def cv_wake_def dest: injD)
  qed
qed

text \<open>Every step of the condition variables keeps the two queues together; these are the others.\<close>

lemma quiet_on_queue:
  assumes "cond_queue q ent s c"
  shows "cvpc s t = Sleeping \<Longrightarrow> cond_queue q ent (cv_waited t r s) c"
    "cvpc s t = Settling \<Longrightarrow> cond_queue q ent (cv_settle t s) c"
    "cond_queue q ent (cv_return t r s) c"
  using assms by (auto simp: cond_queue_def cv_waited_def cv_settle_def cv_return_def)

section \<open>An instance\<close>

text \<open>Thread 1 is parked on the lock 176, in the bucket where another thread waits on 160.\<close>

definition parked_once :: srw where
  "parked_once = \<lparr>Ptr = 2, spc = (\<lambda>_. Idle)(0 := Waking, 1 := Parked), parked = [1]\<rparr>"

lemma parked_queue: "lock_queue (\<lambda>_. 8) 176 (\<lambda>t. 24 + 16 * t) parked_once sample_queue"
  unfolding lock_queue_def get_futex_queue_def
  by (intro exI [of _ "[24, 40]"]) (simp add: sample_queue_waiters, simp add: sample_queue_def parked_once_def)

theorem slim_lock_on_queue_witness:
  "(\<exists>c'. WakeByAddressSingle (\<lambda>_. 8) 176 sample_queue = Some c' \<and> signalled c' = [7] \<and>
       lock_queue (\<lambda>_. 8) 176 (\<lambda>t. 24 + 16 * t) (parked_once\<lparr>spc := (\<lambda>_. Idle)(1 := Trying), parked := []\<rparr>) c') \<and>
   fst (WaitOnAddress_enter (\<lambda>_. 8) (\<lambda>_. 2) 176 192 4 56 9 sample_queue) = None"
proof -
  have "release_wake 0 parked_once = parked_once\<lparr>spc := (\<lambda>_. Idle)(1 := Trying), parked := []\<rparr>"
    by (simp add: release_wake_def at_pc_def parked_once_def fun_eq_iff)
  with slim_lock_on_queue [OF parked_queue, where t = 0, THEN conjunct1] have
    "\<exists>c'. WakeByAddressSingle (\<lambda>_. 8) 176 sample_queue = Some c' \<and>
      lock_queue (\<lambda>_. 8) 176 (\<lambda>t. 24 + 16 * t) (parked_once\<lparr>spc := (\<lambda>_. Idle)(1 := Trying), parked := []\<rparr>) c' \<and>
      signalled c' = signalled sample_queue @ [eevent sample_queue 40]"
    by (simp add: parked_once_def)
  moreover have "signalled sample_queue = []" "eevent sample_queue 40 = 7" by (simp_all add: sample_queue_def)
  moreover have "unqueued (get_futex_queue (\<lambda>_. 8) 176) 56 sample_queue"
  proof -
    have "56 \<notin> set xs" if "waiters sample_queue 8 xs" for xs
      using waiters_unique [OF sample_queue_waiters that] by auto
    then show ?thesis by (simp add: unqueued_def get_futex_queue_def)
  qed
  moreover have "compare_addr (\<lambda>_. 2) 176 192 4" by (simp add: compare_addr_def read_le_eq_iff)
  ultimately show ?thesis
    using slim_lock_on_queue [OF parked_queue, where t = 2 and n = 4 and m = "\<lambda>_. 2" and cmp = 192 and ev = 9]
    by (auto simp: parked_once_def acquire_wait_def)
qed

end
