(* ===== verification/RunOnce.thy ===== *)
theory RunOnce
  imports Prelude
begin

text \<open>
  Model of \<open>src/legacy/shared/runonce.c\<close>. The two low bits of the word hold the state, the rest
  the context (when complete) or the address of the stack slot of the last waiter (when in
  progress), whose content is the address of the waiter before it. Pointers are 64 bits wide.
  \<^item> One turn of each loop is a function of the word it read (\<open>val\<close>) and of the current state, so
    that what other threads do between the read and the interlocked instruction is covered.
  \<^item> \<open>InitOnceExecuteOnce\<close> is modelled for a caller running alone.
\<close>

type_synonym uptr = "64 word"

definition INIT_ONCE_MASK :: uptr where "INIT_ONCE_MASK = 3"

definition RTLP_RUN_ONCE_INITIALIZING :: uptr where "RTLP_RUN_ONCE_INITIALIZING = 0"
definition RTLP_RUN_ONCE_PROGRESS :: uptr where "RTLP_RUN_ONCE_PROGRESS = 1"
definition RTLP_RUN_ONCE_COMPLETE :: uptr where "RTLP_RUN_ONCE_COMPLETE = 2"
definition RTLP_RUN_ONCE_ASYNC :: uptr where "RTLP_RUN_ONCE_ASYNC = 3"

lemmas once_states = INIT_ONCE_MASK_def RTLP_RUN_ONCE_INITIALIZING_def RTLP_RUN_ONCE_PROGRESS_def
  RTLP_RUN_ONCE_COMPLETE_def RTLP_RUN_ONCE_ASYNC_def

text \<open>The flags of the Windows headers.\<close>

definition RTL_RUN_ONCE_CHECK_ONLY :: DWORD where "RTL_RUN_ONCE_CHECK_ONLY = 1"
definition RTL_RUN_ONCE_ASYNC :: DWORD where "RTL_RUN_ONCE_ASYNC = 2"
definition INIT_ONCE_INIT_FAILED :: DWORD where "INIT_ONCE_INIT_FAILED = 4"

lemmas once_flags = RTL_RUN_ONCE_CHECK_ONLY_def RTL_RUN_ONCE_ASYNC_def INIT_ONCE_INIT_FAILED_def

datatype once_error = INVALID_PARAMETER | UNSUCCESSFUL

text \<open>
  The outcome of a turn: the call fails, or succeeds with \<open>*lpPending\<close> and the context to store
  (\<open>None\<close>: not stored), or goes round again, after waiting (\<open>Sleep(0)\<close>) or not.
\<close>

datatype once_result = Fails once_error | Pending | Ready uptr | Again bool

record once =
  Ptr :: uptr
  slots :: "uptr \<Rightarrow> uptr"

definition cas :: "uptr \<Rightarrow> uptr \<Rightarrow> once \<Rightarrow> bool \<times> once" where
  "cas new comparand s =
     (if Ptr s = comparand then (True, s\<lparr>Ptr := new\<rparr>) else (False, s))"

definition check_only :: "DWORD \<Rightarrow> uptr \<Rightarrow> once_result" where
  "check_only dwFlags val =
     (if dwFlags AND RTL_RUN_ONCE_ASYNC \<noteq> 0 then Fails INVALID_PARAMETER
      else if val AND INIT_ONCE_MASK \<noteq> RTLP_RUN_ONCE_COMPLETE then Fails UNSUCCESSFUL
      else Ready (val AND NOT INIT_ONCE_MASK))"

text \<open>One turn of the loop of \<open>InitOnceBeginInitialize\<close>; \<open>slot\<close> is the address of \<open>next\<close>.\<close>

definition begin_turn :: "DWORD \<Rightarrow> uptr \<Rightarrow> uptr \<Rightarrow> once \<Rightarrow> once_result \<times> once" where
  "begin_turn dwFlags slot val s =
     (let st = val AND INIT_ONCE_MASK in
      if st = RTLP_RUN_ONCE_INITIALIZING then
        (let newval = (if dwFlags AND RTL_RUN_ONCE_ASYNC \<noteq> 0 then RTLP_RUN_ONCE_ASYNC else RTLP_RUN_ONCE_PROGRESS);
             (ok, s) = cas newval 0 s
         in (if ok then Pending else Again False, s))
      else if st = RTLP_RUN_ONCE_PROGRESS then
        (if dwFlags AND RTL_RUN_ONCE_ASYNC \<noteq> 0 then (Fails INVALID_PARAMETER, s)
         else
           let s = s\<lparr>slots := (slots s)(slot := val AND NOT INIT_ONCE_MASK)\<rparr>;
               (ok, s) = cas (slot OR RTLP_RUN_ONCE_PROGRESS) val s
           in (Again ok, s))
      else if st = RTLP_RUN_ONCE_COMPLETE then (Ready (val AND NOT INIT_ONCE_MASK), s)
      else if dwFlags AND RTL_RUN_ONCE_ASYNC = 0 then (Fails INVALID_PARAMETER, s)
      else (Pending, s))"

text \<open>The loop with nobody else at the word; \<open>None\<close> when it spins for ever.\<close>

partial_function (option) begin_loop :: "DWORD \<Rightarrow> uptr \<Rightarrow> once \<Rightarrow> (once_result \<times> once) option" where
  "begin_loop dwFlags slot s =
     (case begin_turn dwFlags slot (Ptr s) s of
        (Again w, s) \<Rightarrow> begin_loop dwFlags slot s
      | r \<Rightarrow> Some r)"

definition InitOnceBeginInitialize :: "DWORD \<Rightarrow> uptr \<Rightarrow> once \<Rightarrow> (once_result \<times> once) option" where
  "InitOnceBeginInitialize dwFlags slot s =
     (if dwFlags AND RTL_RUN_ONCE_CHECK_ONLY \<noteq> 0 then Some (check_only dwFlags (Ptr s), s)
      else begin_loop dwFlags slot s)"

text \<open>The walk of \<open>InitOnceComplete\<close> over the slots of the waiters; \<open>None\<close> when it does not end.\<close>

partial_function (option) walk :: "(uptr \<Rightarrow> uptr) \<Rightarrow> uptr \<Rightarrow> unit option" where
  "walk m val = (if val = 0 then Some () else walk m (m val))"

text \<open>The word \<open>InitOnceComplete\<close> stores, or its error.\<close>

definition complete_word :: "DWORD \<Rightarrow> uptr \<Rightarrow> uptr option" where
  "complete_word dwFlags lpContext =
     (if lpContext AND INIT_ONCE_MASK \<noteq> 0 then None
      else if dwFlags AND INIT_ONCE_INIT_FAILED \<noteq> 0 then
        (if lpContext \<noteq> 0 \<or> dwFlags AND RTL_RUN_ONCE_ASYNC \<noteq> 0 then None else Some lpContext)
      else Some (lpContext OR RTLP_RUN_ONCE_COMPLETE))"

datatype complete_result = CFails once_error | Walks uptr | CDone | CAgain

definition complete_turn :: "DWORD \<Rightarrow> uptr \<Rightarrow> uptr \<Rightarrow> once \<Rightarrow> complete_result \<times> once" where
  "complete_turn dwFlags w val s =
     (let st = val AND INIT_ONCE_MASK in
      if st = RTLP_RUN_ONCE_PROGRESS then
        (let (ok, s) = cas w val s
         in (if ok then Walks (val AND NOT INIT_ONCE_MASK) else CAgain, s))
      else if st = RTLP_RUN_ONCE_ASYNC then
        (if dwFlags AND RTL_RUN_ONCE_ASYNC = 0 then (CFails INVALID_PARAMETER, s)
         else let (ok, s) = cas w val s in (if ok then CDone else CAgain, s))
      else (CFails UNSUCCESSFUL, s))"

text \<open>\<open>InitOnceComplete\<close> with nobody else at the word; \<open>None\<close> when the walk does not end.\<close>

definition InitOnceComplete :: "DWORD \<Rightarrow> uptr \<Rightarrow> once \<Rightarrow> ((once_error + unit) \<times> once) option" where
  "InitOnceComplete dwFlags lpContext s =
     (case complete_word dwFlags lpContext of
        None \<Rightarrow> Some (Inl INVALID_PARAMETER, s)
      | Some w \<Rightarrow>
          (case complete_turn dwFlags w (Ptr s) s of
             (CFails e, s) \<Rightarrow> Some (Inl e, s)
           | (Walks v, s) \<Rightarrow> map_option (\<lambda>_. (Inr (), s)) (walk (slots s) v)
           | (CDone, s) \<Rightarrow> Some (Inr (), s)
           | (CAgain, s) \<Rightarrow> None))"

definition InitOnceInitialize :: "once \<Rightarrow> once" where
  "InitOnceInitialize s = s\<lparr>Ptr := 0\<rparr>"

text \<open>
  \<open>InitOnceExecuteOnce\<close> by a thread alone: \<open>fn\<close> is the callback, from the content of \<open>*lpContext\<close>
  to its result and the content it leaves there (\<open>ctx = None\<close>: no context pointer is passed). The
  result is the return value and the content of \<open>*lpContext\<close>; \<open>None\<close> is a call that never returns.
\<close>

definition InitOnceExecuteOnce ::
    "(uptr option \<Rightarrow> bool \<times> uptr option) \<Rightarrow> uptr \<Rightarrow> uptr option \<Rightarrow> once \<Rightarrow> (bool \<times> uptr option \<times> once) option" where
  "InitOnceExecuteOnce fn slot ctx s =
     (case InitOnceBeginInitialize 0 slot s of
        None \<Rightarrow> None
      | Some (Fails e, s) \<Rightarrow> Some (False, ctx, s)
      | Some (Ready c, s) \<Rightarrow> Some (True, map_option (\<lambda>_. c) ctx, s)
      | Some (Again w, s) \<Rightarrow> None
      | Some (Pending, s) \<Rightarrow>
          (let (ok, ctx) = fn ctx in
           case InitOnceComplete (if ok then 0 else INIT_ONCE_INIT_FAILED) (case ctx of Some c \<Rightarrow> c | None \<Rightarrow> 0) s of
             None \<Rightarrow> None
           | Some (Inl e, s) \<Rightarrow> Some (False, ctx, s)
           | Some (Inr _, s) \<Rightarrow> Some (ok, ctx, s)))"

section \<open>Words and their state bits\<close>

lemma tag_progress: "a AND INIT_ONCE_MASK = 0 \<Longrightarrow> (a OR RTLP_RUN_ONCE_PROGRESS) AND INIT_ONCE_MASK = RTLP_RUN_ONCE_PROGRESS"
  by (simp add: once_states word_ao_dist)

lemma tag_complete: "a AND INIT_ONCE_MASK = 0 \<Longrightarrow> (a OR RTLP_RUN_ONCE_COMPLETE) AND INIT_ONCE_MASK = RTLP_RUN_ONCE_COMPLETE"
  by (simp add: once_states word_ao_dist)

lemma masked_self: "a AND INIT_ONCE_MASK = 0 \<Longrightarrow> a AND NOT INIT_ONCE_MASK = a"
proof -
  assume "a AND INIT_ONCE_MASK = 0"
  moreover have "a = (a AND INIT_ONCE_MASK) OR (a AND NOT INIT_ONCE_MASK)"
    by (rule bit_eqI) (auto simp: bit_simps)
  ultimately show ?thesis by simp
qed

lemma untag: "(a OR t) AND NOT INIT_ONCE_MASK = a AND NOT INIT_ONCE_MASK" if "t AND NOT INIT_ONCE_MASK = 0"
  using that by (simp add: word_ao_dist)

lemma untag_states [simp]:
  "(a OR RTLP_RUN_ONCE_PROGRESS) AND NOT INIT_ONCE_MASK = a AND NOT INIT_ONCE_MASK"
  "(a OR RTLP_RUN_ONCE_COMPLETE) AND NOT INIT_ONCE_MASK = a AND NOT INIT_ONCE_MASK"
  by (rule untag; simp add: once_states)+

lemma walk_ends_iff: "walk m v = Some () \<longleftrightarrow> (\<exists>n. (m ^^ n) v = 0)"
proof
  have "(\<exists>n. (m ^^ n) v = 0)" if "walk m v = Some y" for v y
  proof (rule walk.raw_induct [where P = "\<lambda>m v y. \<exists>n. (m ^^ n) v = 0", OF _ that])
    fix rec and m :: "uptr \<Rightarrow> uptr" and v y
    assume IH: "\<And>m v y. rec m v = Some y \<Longrightarrow> \<exists>n. (m ^^ n) v = 0"
      and run: "(if v = 0 then Some () else rec m (m v)) = Some y"
    show "\<exists>n. (m ^^ n) v = 0"
    proof (cases "v = 0")
      case False
      with run IH obtain n where "(m ^^ n) (m v) = 0" by (metis (full_types))
      then show ?thesis by (intro exI [of _ "Suc n"]) (simp add: funpow_Suc_right del: funpow.simps)
    qed (auto intro: exI [of _ 0])
  qed
  then show "walk m v = Some () \<Longrightarrow> \<exists>n. (m ^^ n) v = 0" by blast
next
  have "(m ^^ n) v = 0 \<Longrightarrow> walk m v = Some ()" for n
  proof (induction n arbitrary: v)
    case (Suc n)
    then have "walk m (m v) = Some ()" by (simp add: funpow_Suc_right del: funpow.simps)
    then show ?case by (simp add: walk.simps [of m v])
  qed (simp add: walk.simps)
  then show "\<exists>n. (m ^^ n) v = 0 \<Longrightarrow> walk m v = Some ()" by blast
qed

lemma walk_self_loop: "m v = v \<Longrightarrow> v \<noteq> 0 \<Longrightarrow> walk m v = None"
proof -
  assume loop: "m v = v" "v \<noteq> 0"
  have "(m ^^ n) v = v" for n by (induction n) (simp_all add: loop)
  then show "walk m v = None" using walk_ends_iff [of m v] loop by (cases "walk m v") auto
qed

section \<open>A caller alone\<close>

lemma begin_loop_simps:
  "Ptr s = 0 \<Longrightarrow> begin_loop 0 slot s = Some (Pending, s\<lparr>Ptr := RTLP_RUN_ONCE_PROGRESS\<rparr>)"
  "Ptr s AND INIT_ONCE_MASK = RTLP_RUN_ONCE_COMPLETE \<Longrightarrow>
   begin_loop 0 slot s = Some (Ready (Ptr s AND NOT INIT_ONCE_MASK), s)"
  by (subst begin_loop.simps, simp add: begin_turn_def cas_def once_states Let_def)+

text \<open>In progress and left alone, the loop chains its own slot to itself and never ends.\<close>

lemma begin_turn_progress:
  assumes "Ptr s AND INIT_ONCE_MASK = RTLP_RUN_ONCE_PROGRESS"
  shows "begin_turn 0 slot (Ptr s) s = (Again True, \<lparr>Ptr = slot OR RTLP_RUN_ONCE_PROGRESS,
    slots = (slots s)(slot := Ptr s AND NOT INIT_ONCE_MASK)\<rparr>)"
  using assms by (simp add: begin_turn_def cas_def once_states Let_def)

lemma begin_loop_progress:
  assumes "slot AND INIT_ONCE_MASK = 0" "Ptr s AND INIT_ONCE_MASK = RTLP_RUN_ONCE_PROGRESS"
  shows "begin_loop 0 slot s = None"
proof -
  have False if "begin_loop 0 slot s = Some y" for y
  proof -
    have "f = 0 \<longrightarrow> sl = slot \<longrightarrow> Ptr s AND INIT_ONCE_MASK \<noteq> RTLP_RUN_ONCE_PROGRESS"
      if "begin_loop f sl s = Some y" for f sl s y
    proof (rule begin_loop.raw_induct [where P = "\<lambda>f sl s y. f = 0 \<longrightarrow> sl = slot \<longrightarrow>
        Ptr s AND INIT_ONCE_MASK \<noteq> RTLP_RUN_ONCE_PROGRESS", OF _ that], intro impI notI)
      fix rec f sl s y
      assume IH: "\<And>f sl s y. rec f sl s = Some y \<Longrightarrow> f = 0 \<longrightarrow> sl = slot \<longrightarrow>
          Ptr s AND INIT_ONCE_MASK \<noteq> RTLP_RUN_ONCE_PROGRESS"
        and run: "(case begin_turn f sl (Ptr s) s of
          (Again w, s) \<Rightarrow> rec f sl s | (r, s') \<Rightarrow> Some (r, s')) = Some y"
        and f: "f = 0" "sl = slot" "Ptr s AND INIT_ONCE_MASK = RTLP_RUN_ONCE_PROGRESS"
      then have "rec 0 slot \<lparr>Ptr = slot OR RTLP_RUN_ONCE_PROGRESS,
          slots = (slots s)(slot := Ptr s AND NOT INIT_ONCE_MASK)\<rparr> = Some y"
        by (simp add: begin_turn_progress)
      from IH [OF this] show False using tag_progress [OF assms(1)] by simp
    qed
    with that assms(2) show False by blast
  qed
  then show ?thesis by (cases "begin_loop 0 slot s") auto
qed

text \<open>What the callback leaves decides how the completion goes.\<close>

definition left_context :: "uptr option \<Rightarrow> uptr" where
  "left_context ctx = (case ctx of Some c \<Rightarrow> c | None \<Rightarrow> 0)"

definition completable :: "bool \<Rightarrow> uptr \<Rightarrow> bool" where
  "completable ok c \<longleftrightarrow> (if ok then c AND INIT_ONCE_MASK = 0 else c = 0)"

lemma walk_0 [simp]: "walk m 0 = Some ()"
  by (simp add: walk.simps)

lemma complete_from_progress:
  "InitOnceComplete (if ok then 0 else INIT_ONCE_INIT_FAILED) c (s\<lparr>Ptr := RTLP_RUN_ONCE_PROGRESS\<rparr>) =
     Some (if completable ok c
       then (Inr (), s\<lparr>Ptr := if ok then c OR RTLP_RUN_ONCE_COMPLETE else 0\<rparr>)
       else (Inl INVALID_PARAMETER, s\<lparr>Ptr := RTLP_RUN_ONCE_PROGRESS\<rparr>))"
  by (simp add: InitOnceComplete_def complete_word_def complete_turn_def completable_def cas_def
      once_states once_flags Let_def)

lemma execute_from_start:
  assumes "Ptr s = 0" "fn ctx = (ok, ctx')"
  shows "InitOnceExecuteOnce fn slot ctx s =
    Some (if completable ok (left_context ctx')
      then (ok, ctx', s\<lparr>Ptr := if ok then left_context ctx' OR RTLP_RUN_ONCE_COMPLETE else 0\<rparr>)
      else (False, ctx', s\<lparr>Ptr := RTLP_RUN_ONCE_PROGRESS\<rparr>))"
  unfolding InitOnceExecuteOnce_def InitOnceBeginInitialize_def left_context_def [symmetric]
  by (simp add: begin_loop_simps(1) assms once_flags complete_from_progress)

text \<open>
  C31: one-time initialisation by successive callers: once a callback has succeeded with an aligned
  context, every later call succeeds with that context, whatever its own callback would do, and
  leaves the word as it is.
\<close>

theorem execute_once_exactly_once:
  assumes "Ptr s = 0" "fn ctx = (True, Some c)" "c AND INIT_ONCE_MASK = 0"
  shows "\<exists>s'. InitOnceExecuteOnce fn slot ctx s = Some (True, Some c, s') \<and>
    (\<forall>gn slot' d. InitOnceExecuteOnce gn slot' (Some d) s' = Some (True, Some c, s'))"
proof -
  let ?s = "s\<lparr>Ptr := c OR RTLP_RUN_ONCE_COMPLETE\<rparr>"
  have "InitOnceExecuteOnce fn slot ctx s = Some (True, Some c, ?s)"
    using assms by (simp add: execute_from_start left_context_def completable_def)
  moreover have "InitOnceExecuteOnce gn slot' (Some d) ?s = Some (True, Some c, ?s)" for gn slot' d
    unfolding InitOnceExecuteOnce_def InitOnceBeginInitialize_def
    using begin_loop_simps(2) [of ?s slot'] tag_complete [OF assms(3)] masked_self [OF assms(3)]
    by (simp add: once_flags)
  ultimately show ?thesis by blast
qed

theorem execute_once_exactly_once_witness:
  "\<exists>s'. InitOnceExecuteOnce (\<lambda>_. (True, Some 64)) 16 (Some 0) \<lparr>Ptr = 0, slots = \<lambda>_. 0\<rparr> = Some (True, Some 64, s')"
  using execute_once_exactly_once [of "\<lparr>Ptr = 0, slots = \<lambda>_. 0\<rparr>" "\<lambda>_. (True, Some 64)" "Some 0" 64 16]
  by (auto simp: once_states)

text \<open>
  C32: a failed completion is not undone: the calls after the first one never return exactly when
  the callback left a context that \<open>InitOnceComplete\<close> refuses, a misaligned one after a success or
  any non-null one after a failure (which the caller's own variable may have held all along). In
  every other case they return.
\<close>

theorem execute_once_wedges_iff:
  assumes "Ptr s = 0" "fn ctx = (ok, ctx')" "slot' AND INIT_ONCE_MASK = 0"
  shows "\<exists>r s'. InitOnceExecuteOnce fn slot ctx s = Some (r, ctx', s') \<and>
    (InitOnceExecuteOnce gn slot' d s' = None \<longleftrightarrow>
      \<not> (if ok then left_context ctx' AND INIT_ONCE_MASK = 0 else left_context ctx' = 0))"
proof -
  let ?c = "left_context ctx'"
  have wedged: "InitOnceExecuteOnce gn slot' d (s\<lparr>Ptr := RTLP_RUN_ONCE_PROGRESS\<rparr>) = None"
    unfolding InitOnceExecuteOnce_def InitOnceBeginInitialize_def
    using begin_loop_progress [OF assms(3), of "s\<lparr>Ptr := RTLP_RUN_ONCE_PROGRESS\<rparr>"]
    by (simp add: once_states once_flags)
  have ready: "InitOnceExecuteOnce gn slot' d (s\<lparr>Ptr := ?c OR RTLP_RUN_ONCE_COMPLETE\<rparr>) \<noteq> None"
    if "?c AND INIT_ONCE_MASK = 0"
    unfolding InitOnceExecuteOnce_def InitOnceBeginInitialize_def
    using begin_loop_simps(2) [of "s\<lparr>Ptr := ?c OR RTLP_RUN_ONCE_COMPLETE\<rparr>" slot'] tag_complete [OF that]
    by (simp add: once_flags)
  have again: "InitOnceExecuteOnce gn slot' d (s\<lparr>Ptr := 0\<rparr>) \<noteq> None"
    by (cases "gn d") (simp add: execute_from_start)
  show ?thesis
    using execute_from_start [of s fn ctx ok ctx' slot, OF assms(1,2)] wedged ready again
    by (auto simp: completable_def)
qed

theorem execute_once_wedges_iff_witness:
  "\<exists>r s'. InitOnceExecuteOnce (\<lambda>c. (False, c)) 16 (Some 5) \<lparr>Ptr = 0, slots = \<lambda>_. 0\<rparr> = Some (r, Some 5, s') \<and>
    InitOnceExecuteOnce (\<lambda>c. (True, c)) 32 None s' = None"
  using execute_once_wedges_iff [of "\<lparr>Ptr = 0, slots = \<lambda>_. 0\<rparr>" "\<lambda>c. (False, c)" "Some 5" False "Some 5" 32]
  by (auto simp: once_states left_context_def)

section \<open>Callers side by side\<close>

text \<open>
  Threads in \<open>InitOnceExecuteOnce\<close> on one word, with a callback that succeeds with context \<open>c\<close>.
  \<open>Saw\<close> and \<open>Completing\<close> hold the value read before the interlocked instruction; \<open>Walking\<close> is the
  loop over the slots. The slot of thread \<open>t\<close> is at \<open>slot t\<close>.
\<close>

datatype once_pc = Calling | Saw uptr | Running | Completing uptr | Walking uptr | Finished uptr

record oncest =
  word :: once
  opc :: "nat \<Rightarrow> once_pc"

definition goes :: "nat \<Rightarrow> once_pc \<Rightarrow> once \<Rightarrow> oncest \<Rightarrow> oncest" where
  "goes t l w s = s\<lparr>word := w, opc := (opc s)(t := l)\<rparr>"

definition begin_to :: "once_result \<Rightarrow> once_pc" where
  "begin_to r = (case r of Pending \<Rightarrow> Running | Ready c \<Rightarrow> Finished c | _ \<Rightarrow> Calling)"

definition complete_to :: "complete_result \<Rightarrow> once_pc" where
  "complete_to r = (case r of Walks v \<Rightarrow> Walking v | _ \<Rightarrow> Running)"

inductive once_step :: "(nat \<Rightarrow> uptr) \<Rightarrow> uptr \<Rightarrow> oncest \<Rightarrow> oncest \<Rightarrow> bool" for slot :: "nat \<Rightarrow> uptr" and c :: uptr where
  look: "opc s t = Calling \<Longrightarrow> once_step slot c s (goes t (Saw (Ptr (word s))) (word s) s)"
| turn: "opc s t = Saw val \<Longrightarrow> begin_turn 0 (slot t) val (word s) = (r, w) \<Longrightarrow>
    once_step slot c s (goes t (begin_to r) w s)"
| complete_read: "opc s t = Running \<Longrightarrow> once_step slot c s (goes t (Completing (Ptr (word s))) (word s) s)"
| complete: "opc s t = Completing val \<Longrightarrow> complete_word 0 c = Some v \<Longrightarrow>
    complete_turn 0 v val (word s) = (r, w) \<Longrightarrow> once_step slot c s (goes t (complete_to r) w s)"
| walk: "opc s t = Walking v \<Longrightarrow>
    once_step slot c s (goes t (if v = 0 then Finished c else Walking (slots (word s) v)) (word s) s)"

lemmas [step_intros] = once_step.intros
inductive_cases once_stepE: "once_step slot c s s'"

definition once_init :: "oncest \<Rightarrow> bool" where
  "once_init s \<longleftrightarrow> Ptr (word s) = 0 \<and> opc s = (\<lambda>_. Calling)"

definition initialising :: "oncest \<Rightarrow> nat \<Rightarrow> bool" where
  "initialising s t \<longleftrightarrow> (case opc s t of Running \<Rightarrow> True | Completing _ \<Rightarrow> True | _ \<Rightarrow> False)"

definition settled :: "oncest \<Rightarrow> nat \<Rightarrow> bool" where
  "settled s t \<longleftrightarrow> (case opc s t of Walking _ \<Rightarrow> True | Finished _ \<Rightarrow> True | _ \<Rightarrow> False)"

definition in_progress :: "uptr \<Rightarrow> bool" where
  "in_progress v \<longleftrightarrow> v AND INIT_ONCE_MASK = RTLP_RUN_ONCE_PROGRESS"

definition complete_with :: "uptr \<Rightarrow> uptr" where
  "complete_with c = c OR RTLP_RUN_ONCE_COMPLETE"

definition once_ok :: "uptr \<Rightarrow> oncest \<Rightarrow> bool" where
  "once_ok c s \<longleftrightarrow>
     (Ptr (word s) = 0 \<or> in_progress (Ptr (word s)) \<or> Ptr (word s) = complete_with c) \<and>
     (\<forall>t. initialising s t \<longrightarrow> in_progress (Ptr (word s))) \<and>
     (\<forall>t u. initialising s t \<longrightarrow> initialising s u \<longrightarrow> t = u) \<and>
     (\<forall>t. settled s t \<longrightarrow> Ptr (word s) = complete_with c) \<and>
     (\<forall>t val. opc s t = Saw val \<longrightarrow> val = 0 \<or> in_progress val \<or>
        val = complete_with c \<and> Ptr (word s) = complete_with c) \<and>
     (\<forall>t val. opc s t = Completing val \<longrightarrow> in_progress val) \<and>
     (\<forall>t d. opc s t = Finished d \<longrightarrow> d = c)"

lemma phases:
  "\<not> in_progress 0" "in_progress RTLP_RUN_ONCE_PROGRESS"
  "c AND INIT_ONCE_MASK = 0 \<Longrightarrow> \<not> in_progress (complete_with c)"
  "c AND INIT_ONCE_MASK = 0 \<Longrightarrow> complete_with c \<noteq> 0"
  "slot AND INIT_ONCE_MASK = 0 \<Longrightarrow> in_progress (slot OR RTLP_RUN_ONCE_PROGRESS)"
proof -
  show "c AND INIT_ONCE_MASK = 0 \<Longrightarrow> complete_with c \<noteq> 0"
    using tag_complete [of c] by (auto simp: complete_with_def once_states)
qed (simp_all add: in_progress_def complete_with_def tag_complete tag_progress, simp_all add: once_states)

lemma begin_turn_cases:
  "begin_turn 0 slot 0 w =
     (if Ptr w = 0 then (Pending, w\<lparr>Ptr := RTLP_RUN_ONCE_PROGRESS\<rparr>) else (Again False, w))"
  "in_progress val \<Longrightarrow> begin_turn 0 slot val w =
     (let w = w\<lparr>slots := (slots w)(slot := val AND NOT INIT_ONCE_MASK)\<rparr>
      in if Ptr w = val then (Again True, w\<lparr>Ptr := slot OR RTLP_RUN_ONCE_PROGRESS\<rparr>) else (Again False, w))"
  "c AND INIT_ONCE_MASK = 0 \<Longrightarrow> begin_turn 0 slot (complete_with c) w = (Ready c, w)"
  by (simp add: begin_turn_def cas_def once_states Let_def)
    (simp add: begin_turn_def cas_def once_states in_progress_def Let_def,
     simp add: begin_turn_def complete_with_def tag_complete masked_self Let_def, simp add: once_states)

lemma complete_turn_progress:
  "in_progress val \<Longrightarrow> complete_turn 0 v val w =
     (if Ptr w = val then (Walks (val AND NOT INIT_ONCE_MASK), w\<lparr>Ptr := v\<rparr>) else (CAgain, w))"
  by (simp add: complete_turn_def cas_def once_states in_progress_def)

lemma goes_simps [simp]:
  "word (goes t l w s) = w" "opc (goes t l w s) = (opc s)(t := l)"
  "initialising (goes t l w s) u = (if u = t then (case l of Running \<Rightarrow> True | Completing _ \<Rightarrow> True | _ \<Rightarrow> False) else initialising s u)"
  "settled (goes t l w s) u = (if u = t then (case l of Walking _ \<Rightarrow> True | Finished _ \<Rightarrow> True | _ \<Rightarrow> False) else settled s u)"
  by (simp_all add: goes_def initialising_def settled_def)

lemma once_okD:
  assumes "once_ok c s"
  shows "Ptr (word s) = 0 \<or> in_progress (Ptr (word s)) \<or> Ptr (word s) = complete_with c"
    and "\<And>t. initialising s t \<Longrightarrow> in_progress (Ptr (word s))"
    and "\<And>t u. initialising s t \<Longrightarrow> initialising s u \<Longrightarrow> t = u"
    and "\<And>t. settled s t \<Longrightarrow> Ptr (word s) = complete_with c"
    and "\<And>t val. opc s t = Saw val \<Longrightarrow> val = 0 \<or> in_progress val \<or>
        val = complete_with c \<and> Ptr (word s) = complete_with c"
    and "\<And>t val. opc s t = Completing val \<Longrightarrow> in_progress val"
    and "\<And>t d. opc s t = Finished d \<Longrightarrow> d = c"
  using assms unfolding once_ok_def by blast+

text \<open>The steps that leave the phase of the word alone.\<close>

lemma once_ok_goes:
  assumes "once_ok c s" "Ptr w = Ptr (word s) \<or> in_progress (Ptr w) \<and> in_progress (Ptr (word s))"
    and "(case l of Running \<Rightarrow> True | Completing _ \<Rightarrow> True | _ \<Rightarrow> False) \<longrightarrow> initialising s t"
    and "(case l of Walking _ \<Rightarrow> True | Finished _ \<Rightarrow> True | _ \<Rightarrow> False) \<longrightarrow> Ptr (word s) = complete_with c"
    and "\<And>val. l = Saw val \<Longrightarrow> val = Ptr (word s)" "\<And>val. l = Completing val \<Longrightarrow> in_progress val"
    and "\<And>d. l = Finished d \<Longrightarrow> d = c" and "c AND INIT_ONCE_MASK = 0"
  shows "once_ok c (goes t l w s)"
proof -
  have np: "\<not> in_progress (complete_with c)" by (rule phases) (rule assms)
  have fin: "Ptr (word s) = complete_with c \<Longrightarrow> Ptr w = complete_with c"
    using assms(2) np by auto
  note ok = once_okD [OF assms(1)]
  show ?thesis
    unfolding once_ok_def goes_simps fun_upd_apply
  proof (intro conjI allI impI)
    show "Ptr w = 0 \<or> in_progress (Ptr w) \<or> Ptr w = complete_with c" using ok(1) assms(2) by auto
    show "in_progress (Ptr w)" if "if u = t then (case l of Running \<Rightarrow> True | Completing _ \<Rightarrow> True | _ \<Rightarrow> False) else initialising s u" for u
      using that assms(2,3) ok(2) by (auto split: if_splits)
    show "u = v" if "if u = t then (case l of Running \<Rightarrow> True | Completing _ \<Rightarrow> True | _ \<Rightarrow> False) else initialising s u"
        "if v = t then (case l of Running \<Rightarrow> True | Completing _ \<Rightarrow> True | _ \<Rightarrow> False) else initialising s v" for u v
      using that assms(3) ok(3) by (metis (full_types))
    show "Ptr w = complete_with c" if "if u = t then (case l of Walking _ \<Rightarrow> True | Finished _ \<Rightarrow> True | _ \<Rightarrow> False) else settled s u" for u
      using that assms(4) ok(4) fin by (auto split: if_splits)
    show "val = 0 \<or> in_progress val \<or> val = complete_with c \<and> Ptr w = complete_with c"
      if "(if u = t then l else opc s u) = Saw val" for u val
      using that assms(5) ok(1) ok(5) [of u val] fin by (auto split: if_splits)
    show "in_progress val" if "(if u = t then l else opc s u) = Completing val" for u val
      using that assms(6) ok(6) by (auto split: if_splits)
    show "d = c" if "(if u = t then l else opc s u) = Finished d" for u d
      using that assms(7) ok(7) by (auto split: if_splits)
  qed
qed

lemma once_step_ok:
  assumes ok: "once_ok c s" and stp: "once_step slot c s s'"
    and al: "c AND INIT_ONCE_MASK = 0" "\<And>t. slot t AND INIT_ONCE_MASK = 0"
  shows "once_ok c s'"
  using stp
proof (cases rule: once_step.cases)
  case (look t)
  then show ?thesis using ok al(1) by (auto intro!: once_ok_goes)
next
  case (turn t val r w)
  then consider "val = 0" "Ptr (word s) = 0" | "val = 0" "Ptr (word s) \<noteq> 0" | "in_progress val"
    | "val = complete_with c" "Ptr (word s) = complete_with c"
    using ok unfolding once_ok_def by blast
  then show ?thesis
  proof cases
    case 1
    then have s': "s' = goes t Running ((word s)\<lparr>Ptr := RTLP_RUN_ONCE_PROGRESS\<rparr>) s"
      using turn by (simp add: begin_turn_cases begin_to_def)
    have "\<not> initialising s u" "\<not> settled s u" for u
      using ok 1(2) phases(1) phases(4) [OF al(1)] unfolding once_ok_def by metis+
    then show ?thesis
      using ok phases(2) phases(4) [OF al(1)] 1(2) unfolding once_ok_def s' by auto
  next
    case 2
    then show ?thesis
      using turn ok al(1) by (auto simp: begin_turn_cases begin_to_def intro!: once_ok_goes)
  next
    case 3
    then show ?thesis
      using turn ok al phases(5) [OF al(2)]
      by (auto simp: begin_turn_cases begin_to_def Let_def intro!: once_ok_goes split: if_splits)
  next
    case 4
    then show ?thesis
      using turn ok al(1) by (auto simp: begin_turn_cases begin_to_def intro!: once_ok_goes)
  qed
next
  case (complete_read t)
  then have "initialising s t" by (simp add: initialising_def)
  then have "in_progress (Ptr (word s))" using ok unfolding once_ok_def by blast
  with \<open>initialising s t\<close> complete_read show ?thesis using ok al(1) by (auto intro!: once_ok_goes)
next
  case (complete t val v r w)
  then have init: "initialising s t" and val: "in_progress val"
    using ok by (auto simp: initialising_def once_ok_def)
  have v: "v = complete_with c"
    using complete al(1) by (simp add: complete_word_def complete_with_def once_flags)
  show ?thesis
  proof (cases "Ptr (word s) = val")
    case True
    then have s': "s' = goes t (Walking (val AND NOT INIT_ONCE_MASK)) ((word s)\<lparr>Ptr := complete_with c\<rparr>) s"
      using complete v val by (auto simp: complete_turn_progress complete_to_def)
    have "u = t" if "initialising s u" for u using once_okD(3) [OF ok that init] .
    moreover have "val' = 0 \<or> in_progress val' \<or> val' = complete_with c" if "opc s u = Saw val'" for u val'
      using once_okD(5) [OF ok that] by blast
    ultimately show ?thesis
      using once_okD(6,7) [OF ok] unfolding once_ok_def s' goes_simps by (auto split: if_splits)
  next
    case False
    then show ?thesis using complete val init ok al(1)
      by (auto simp: complete_turn_progress complete_to_def intro!: once_ok_goes)
  qed
next
  case (walk t v)
  then have "settled s t" by (simp add: settled_def)
  then have "Ptr (word s) = complete_with c" using ok unfolding once_ok_def by blast
  with walk show ?thesis using ok al(1) by (auto intro!: once_ok_goes)
qed

text \<open>The model's slots and context: aligned addresses.\<close>

definition aligned_slots :: "(nat \<Rightarrow> uptr) \<Rightarrow> uptr \<Rightarrow> bool" where
  "aligned_slots slot c \<longleftrightarrow> c AND INIT_ONCE_MASK = 0 \<and> (\<forall>t. slot t AND INIT_ONCE_MASK = 0)"

interpretation once: step_invariant once_init "\<lambda>s s'. aligned_slots slot c \<and> once_step slot c s s'" "once_ok c"
  for slot c
proof unfold_locales
  show "once_ok c s" if "once_init s" for s
    using that by (simp add: once_init_def once_ok_def initialising_def settled_def)
  show "once_ok c s'" if "once_ok c s" "aligned_slots slot c \<and> once_step slot c s s'" for s s'
    using that once_step_ok [of c s slot s'] by (simp add: aligned_slots_def)
qed

lemma once_reach_ok:
  assumes "aligned_slots slot c" "reach once_init (once_step slot c) s"
  shows "once_ok c s"
proof -
  have "reach once_init (\<lambda>s s'. aligned_slots slot c \<and> once_step slot c s s') s"
    using assms(2) by induction (auto intro: reach.intros assms(1))
  then show ?thesis by (rule once.reach_inv)
qed

text \<open>
  C11: however the threads interleave, at most one of them runs the callback at any time, nobody
  runs it once the word is complete, and every thread that has finished got the one context.
\<close>

theorem once_single_initialiser:
  assumes "aligned_slots slot c" "reach once_init (once_step slot c) s"
  shows "(initialising s t \<longrightarrow> initialising s u \<longrightarrow> t = u) \<and>
    (initialising s t \<longrightarrow> (\<forall>u d. opc s u \<noteq> Finished d)) \<and> (opc s u = Finished d \<longrightarrow> d = c)"
proof -
  have ok: "once_ok c s" using assms by (rule once_reach_ok)
  have "opc s u \<noteq> Finished d" if "initialising s t" for u d
  proof
    assume "opc s u = Finished d"
    then have "settled s u" by (simp add: settled_def)
    then show False
      using once_okD(2,4) [OF ok] that phases(3) [of c] assms(1) unfolding aligned_slots_def by metis
  qed
  then show ?thesis using once_okD(3,7) [OF ok] by blast
qed

text \<open>Two callers; the second waits for two turns of its loop.\<close>

definition slot16 :: "nat \<Rightarrow> uptr" where
  "slot16 t = 16 * of_nat (Suc t)"

fun once_go :: "nat \<Rightarrow> oncest \<Rightarrow> oncest" where
  "once_go t s = (case opc s t of
      Calling \<Rightarrow> goes t (Saw (Ptr (word s))) (word s) s
    | Saw val \<Rightarrow> (case begin_turn 0 (slot16 t) val (word s) of (r, w) \<Rightarrow> goes t (begin_to r) w s)
    | Running \<Rightarrow> goes t (Completing (Ptr (word s))) (word s) s
    | Completing val \<Rightarrow> (case complete_turn 0 (64 OR 2) val (word s) of (r, w) \<Rightarrow> goes t (complete_to r) w s)
    | Walking v \<Rightarrow> goes t (if v = 0 then Finished 64 else Walking (slots (word s) v)) (word s) s
    | Finished d \<Rightarrow> s)"

definition once_start :: oncest where
  "once_start = \<lparr>word = \<lparr>Ptr = 0, slots = \<lambda>_. 0\<rparr>, opc = \<lambda>_. Calling\<rparr>"

lemma once_go_step:
  assumes "\<And>d. opc s t \<noteq> Finished d"
  shows "once_step slot16 64 s (once_go t s)"
proof (cases "opc s t")
  case Calling
  then show ?thesis by (simp add: once_step.look)
next
  case (Saw val)
  then show ?thesis by (auto intro: once_step.turn split: prod.split)
next
  case Running
  then show ?thesis by (simp add: once_step.complete_read)
next
  case (Completing val)
  then show ?thesis
    by (auto intro!: once_step.complete simp: complete_word_def once_states once_flags split: prod.split)
next
  case (Walking v)
  then show ?thesis using once_step.walk [OF Walking] by simp
next
  case (Finished d)
  with assms [of d] show ?thesis by simp
qed

lemma reach_go:
  "reach once_init (once_step slot16 64) s \<Longrightarrow> (\<And>d. opc s t \<noteq> Finished d) \<Longrightarrow>
   reach once_init (once_step slot16 64) (once_go t s)"
  by (blast intro: reach_step once_go_step)

lemmas once_eval = once_start_def goes_def begin_turn_def begin_to_def complete_turn_def complete_to_def
  cas_def once_states slot16_def Let_def

definition once_twice :: oncest where
  "once_twice = fold once_go [0, 0, 1, 1, 1, 1, 0, 0] once_start"

lemma once_twice_eq:
  "once_twice = \<lparr>word = \<lparr>Ptr = 66, slots = (\<lambda>_. 0)(32 := 32)\<rparr>, opc = (\<lambda>_. Calling)(0 := Walking 32)\<rparr>"
  by (simp add: once_twice_def once_eval fun_eq_iff)

lemma reach_once_twice: "reach once_init (once_step slot16 64) once_twice"
proof -
  have "reach once_init (once_step slot16 64) once_start"
    by (rule reach_init) (simp add: once_init_def once_start_def)
  then show ?thesis
    unfolding once_twice_def fold_simps by (intro reach_go) (simp_all add: once_eval)
qed

lemma slot16_aligned: "aligned_slots slot16 64"
proof -
  have three: "(3 :: uptr) = mask 2" by (simp add: mask_eq_exp_minus_1)
  have "(16 * x) AND (3 :: uptr) = 0" for x
  proof -
    have "16 * x = push_bit 4 x" by (simp add: push_bit_eq_mult)
    moreover have "push_bit 4 x AND (3 :: uptr) = 0"
      unfolding three by (rule bit_eqI) (auto simp: bit_simps)
    ultimately show ?thesis by simp
  qed
  then have "16 * of_nat (Suc t) AND (3 :: uptr) = 0" for t .
  then show ?thesis unfolding aligned_slots_def slot16_def once_states by simp
qed

definition once_running :: oncest where
  "once_running = fold once_go [0, 0, 1, 1] once_start"

lemma reach_once_running: "reach once_init (once_step slot16 64) once_running"
proof -
  have "reach once_init (once_step slot16 64) once_start"
    by (rule reach_init) (simp add: once_init_def once_start_def)
  then show ?thesis
    unfolding once_running_def fold_simps by (intro reach_go) (simp_all add: once_eval)
qed

lemma once_running_0: "initialising once_running 0"
  by (simp add: once_running_def once_eval initialising_def)

theorem once_single_initialiser_witness:
  "initialising once_running 0 \<and> \<not> initialising once_running 1"
  using once_single_initialiser [OF slot16_aligned reach_once_running, of 0 1] once_running_0 by simp

text \<open>The initialiser walks over a slot that points to itself.\<close>

definition walks_loop :: "oncest \<Rightarrow> bool" where
  "walks_loop s \<longleftrightarrow> opc s 0 = Walking 32 \<and> slots (word s) 32 = 32 \<and> Ptr (word s) = 66 \<and>
     (\<forall>t. t \<noteq> 0 \<longrightarrow> opc s t \<in> {Calling, Saw 66, Finished 64})"

lemma walks_loop_pc:
  "walks_loop s \<Longrightarrow> t = 0 \<and> opc s t = Walking 32 \<or>
   t \<noteq> 0 \<and> (opc s t = Calling \<or> opc s t = Saw 66 \<or> opc s t = Finished 64)"
  by (cases "t = 0") (auto simp: walks_loop_def)

lemma walks_loop_step:
  assumes "walks_loop s" "once_step slot16 64 s s'"
  shows "walks_loop s'"
  using assms(2)
proof (cases rule: once_step.cases)
  case (look t)
  with walks_loop_pc [OF assms(1), of t] assms(1) show ?thesis by (auto simp: walks_loop_def)
next
  case (turn t val r w)
  with walks_loop_pc [OF assms(1), of t] have t: "t \<noteq> 0" "val = 66" by auto
  with turn have "r = Ready 64" "w = word s" by (simp_all add: begin_turn_def once_states Let_def)
  with turn t assms(1) show ?thesis by (simp add: walks_loop_def begin_to_def)
next
  case (complete_read t)
  with walks_loop_pc [OF assms(1), of t] show ?thesis by auto
next
  case (complete t)
  with walks_loop_pc [OF assms(1), of t] show ?thesis by auto
next
  case (walk t v)
  with walks_loop_pc [OF assms(1), of t] assms(1) show ?thesis by (auto simp: walks_loop_def)
qed

interpretation once_loop: step_invariant walks_loop "once_step slot16 64" walks_loop
  by unfold_locales (auto intro: walks_loop_step)



end
