(* ===== verification/TzApi.thy ===== *)
theory TzApi
  imports Prelude "HOL-Library.Signed_Division" "HOL-Library.List_Lexorder"
begin

text \<open>
  Model of \<open>src/legacy/shared/tzapi.c\<close>: the calendar helpers, the transition dates of a time zone
  and the two conversions between universal and local time. The fields of a \<open>SYSTEMTIME\<close> are 16-bit
  words, the helpers compute on C ints. \<open>SystemTimeToFileTime\<close>, \<open>FileTimeToSystemTime\<close> and the
  system's own \<open>SystemTimeToTzSpecificLocalTime\<close> are parameters, \<open>None\<close> being their failure.
\<close>

section \<open>Calendar helpers\<close>

record SYSTEMTIME =
  wYear :: WORD
  wMonth :: WORD
  wDayOfWeek :: WORD
  wDay :: WORD
  wHour :: WORD
  wMinute :: WORD
  wSecond :: WORD
  wMilliseconds :: WORD

definition month_table :: "int list" where
  "month_table = [31, 28, 31, 30, 31, 30, 31, 31, 30, 31, 30, 31]"

definition DaysInMonth :: "int \<Rightarrow> int \<Rightarrow> int" where
  "DaysInMonth year month =
     (let d = month_table ! nat (month - 1) in
      if month = 2 \<and> (year smod 4 = 0 \<and> year smod 100 \<noteq> 0 \<or> year smod 400 = 0) then 29 else d)"

definition sakamoto_table :: "int list" where
  "sakamoto_table = [0, 3, 2, 5, 0, 3, 5, 1, 4, 6, 2, 4]"

definition day_of_week :: "int \<Rightarrow> int \<Rightarrow> int \<Rightarrow> int" where
  "day_of_week year month day =
     (let year = (if month < 3 then year - 1 else year) in
      (year + year sdiv 4 - year sdiv 100 + year sdiv 400 + sakamoto_table ! nat (month - 1) + day) smod 7)"

definition ComputeTransitionDate :: "WORD \<Rightarrow> SYSTEMTIME \<Rightarrow> SYSTEMTIME" where
  "ComputeTransitionDate year rule =
     (let r = rule\<lparr>wYear := year\<rparr>;
          y = uint year; mon = uint (wMonth rule); desiredDow = uint (wDayOfWeek rule)
      in
      if wMonth rule = 0 then r\<lparr>wDay := 0, wDayOfWeek := 0\<rparr>
      else if wDay rule < 5 then
        (let nth = uint (wDay rule);
             firstDow = day_of_week y mon 1;
             offset = (desiredDow - firstDow + 7) smod 7;
             day = 1 + offset + (nth - 1) * 7;
             dim = DaysInMonth y mon;
             day = (if day > dim then day - 7 else day)
         in r\<lparr>wDay := word_of_int day, wDayOfWeek := word_of_int desiredDow\<rparr>)
      else
        (let dim = DaysInMonth y mon;
             lastDow = day_of_week y mon dim;
             offset = (lastDow - desiredDow + 7) smod 7;
             day = dim - offset
         in r\<lparr>wDay := word_of_int day, wDayOfWeek := word_of_int desiredDow\<rparr>))"

definition CompareSystemTime :: "SYSTEMTIME \<Rightarrow> SYSTEMTIME \<Rightarrow> int" where
  "CompareSystemTime a b =
     (if wYear a \<noteq> wYear b then uint (wYear a) - uint (wYear b)
      else if wMonth a \<noteq> wMonth b then uint (wMonth a) - uint (wMonth b)
      else if wDay a \<noteq> wDay b then uint (wDay a) - uint (wDay b)
      else if wHour a \<noteq> wHour b then uint (wHour a) - uint (wHour b)
      else if wMinute a \<noteq> wMinute b then uint (wMinute a) - uint (wMinute b)
      else if wSecond a \<noteq> wSecond b then uint (wSecond a) - uint (wSecond b)
      else uint (wMilliseconds a) - uint (wMilliseconds b))"

section \<open>Time zones\<close>

record TIME_ZONE_INFORMATION =
  Bias :: LONG
  StandardName :: wstring
  StandardDate :: SYSTEMTIME
  StandardBias :: LONG
  DaylightName :: wstring
  DaylightDate :: SYSTEMTIME
  DaylightBias :: LONG

datatype tz_error = ERROR_INVALID_PARAMETER | TZ_OS

text \<open>
  \<open>GetTimeZoneInformationForYear\<close>: \<open>out\<close> says whether a result pointer was passed, \<open>pdtzi\<close> is the
  zone passed if any, \<open>cur\<close> the current zone of the system (\<open>None\<close> when it cannot be read). The two
  fields of the dynamic structure that the code only initialises are left out.
\<close>

definition GetTimeZoneInformationForYear ::
    "WORD \<Rightarrow> TIME_ZONE_INFORMATION option \<Rightarrow> TIME_ZONE_INFORMATION option \<Rightarrow> bool \<Rightarrow> tz_error + TIME_ZONE_INFORMATION" where
  "GetTimeZoneInformationForYear year pdtzi cur out =
     (if \<not> out then Inl ERROR_INVALID_PARAMETER
      else case (case pdtzi of None \<Rightarrow> cur | Some z \<Rightarrow> Some z) of
        None \<Rightarrow> Inl TZ_OS
      | Some z \<Rightarrow> Inr (z\<lparr>StandardDate := ComputeTransitionDate year (StandardDate z),
                       DaylightDate := ComputeTransitionDate year (DaylightDate z)\<rparr>))"

text \<open>A bias in minutes as 100-nanosecond intervals: the sign is extended by the cast.\<close>

definition bias_intervals :: "LONG \<Rightarrow> ULONGLONG" where
  "bias_intervals b = scast b * 600000000"

definition is_dst :: "SYSTEMTIME \<Rightarrow> SYSTEMTIME \<Rightarrow> SYSTEMTIME \<Rightarrow> bool" where
  "is_dst stPrelim stDaylight stStandard =
     (if CompareSystemTime stDaylight stStandard < 0 then
        CompareSystemTime stPrelim stDaylight \<ge> 0 \<and> CompareSystemTime stPrelim stStandard < 0
      else CompareSystemTime stPrelim stStandard < 0 \<or> CompareSystemTime stPrelim stDaylight \<ge> 0)"

definition SystemTimeToTzSpecificLocalTime_compat ::
    "(SYSTEMTIME \<Rightarrow> ULONGLONG option) \<Rightarrow> (ULONGLONG \<Rightarrow> SYSTEMTIME option) \<Rightarrow>
     TIME_ZONE_INFORMATION \<Rightarrow> SYSTEMTIME \<Rightarrow> SYSTEMTIME option" where
  "SystemTimeToTzSpecificLocalTime_compat to_ft of_ft tz universal =
     (case to_ft universal of
        None \<Rightarrow> None
      | Some ullUniversal \<Rightarrow>
          (case of_ft (ullUniversal - bias_intervals (Bias tz)) of
             None \<Rightarrow> None
           | Some stPrelim \<Rightarrow>
               if wMonth (StandardDate tz) = 0 \<or> wMonth (DaylightDate tz) = 0 then Some stPrelim
               else
                 let stStandard = ComputeTransitionDate (wYear stPrelim) (StandardDate tz);
                     stDaylight = ComputeTransitionDate (wYear stPrelim) (DaylightDate tz);
                     isDST = is_dst stPrelim stDaylight stStandard;
                     effectiveBias = Bias tz + (if isDST then DaylightBias tz else StandardBias tz)
                 in of_ft (ullUniversal - bias_intervals effectiveBias)))"

text \<open>One candidate of the reverse conversion: \<open>None\<close> is failure, \<open>Some None\<close> no match.\<close>

definition try_bias ::
    "(ULONGLONG \<Rightarrow> SYSTEMTIME option) \<Rightarrow> (SYSTEMTIME \<Rightarrow> SYSTEMTIME option) \<Rightarrow> SYSTEMTIME \<Rightarrow> ULONGLONG \<Rightarrow> LONG \<Rightarrow>
     SYSTEMTIME option option" where
  "try_bias of_ft to_local local_time ullLocal effectiveBias =
     (case of_ft (ullLocal + bias_intervals effectiveBias) of
        None \<Rightarrow> None
      | Some cand \<Rightarrow>
          (case to_local cand of
             None \<Rightarrow> None
           | Some back \<Rightarrow> Some (if CompareSystemTime local_time back = 0 then Some cand else None)))"

definition TzSpecificLocalTimeToSystemTime_compat ::
    "(SYSTEMTIME \<Rightarrow> ULONGLONG option) \<Rightarrow> (ULONGLONG \<Rightarrow> SYSTEMTIME option) \<Rightarrow>
     (TIME_ZONE_INFORMATION \<Rightarrow> SYSTEMTIME \<Rightarrow> SYSTEMTIME option) \<Rightarrow>
     TIME_ZONE_INFORMATION \<Rightarrow> SYSTEMTIME \<Rightarrow> tz_error + SYSTEMTIME" where
  "TzSpecificLocalTimeToSystemTime_compat to_ft of_ft to_local tz local_time =
     (case to_ft local_time of
        None \<Rightarrow> Inl TZ_OS
      | Some ullLocal \<Rightarrow>
          (case try_bias of_ft (to_local tz) local_time ullLocal (Bias tz + DaylightBias tz) of
             None \<Rightarrow> Inl TZ_OS
           | Some (Some u) \<Rightarrow> Inr u
           | Some None \<Rightarrow>
               (case try_bias of_ft (to_local tz) local_time ullLocal (Bias tz + StandardBias tz) of
                  None \<Rightarrow> Inl TZ_OS
                | Some (Some u) \<Rightarrow> Inr u
                | Some None \<Rightarrow> Inl ERROR_INVALID_PARAMETER)))"

section \<open>The calendar\<close>

definition leap :: "int \<Rightarrow> bool" where
  "leap y \<longleftrightarrow> (4 dvd y \<and> \<not> 100 dvd y) \<or> 400 dvd y"

text \<open>The number of a day of the Gregorian calendar, day 1 being Monday 1 January of year 1.\<close>

definition daynum :: "int \<Rightarrow> int \<Rightarrow> int \<Rightarrow> int" where
  "daynum y m d = 365 * (y - 1) + (y - 1) div 4 - (y - 1) div 100 + (y - 1) div 400 +
     sum_list (map (DaysInMonth y) [1..m - 1]) + d"

lemma smod_nonneg: "0 \<le> (a::int) \<Longrightarrow> 0 < b \<Longrightarrow> a smod b = a mod b"
  by (simp add: signed_modulo_int_def sgn_if)

lemma sdiv_nonneg: "0 \<le> (a::int) \<Longrightarrow> 0 < b \<Longrightarrow> a sdiv b = a div b"
  by (simp add: signed_divide_int_def sgn_if)

lemma months: "1 \<le> (m::int) \<Longrightarrow> m \<le> 12 \<Longrightarrow> m \<in> {1, 2, 3, 4, 5, 6, 7, 8, 9, 10, 11, 12}"
  by (simp; presburger)

lemma DaysInMonth_simps:
  "DaysInMonth y 1 = 31" "1 \<le> y \<Longrightarrow> DaysInMonth y 2 = (if leap y then 29 else 28)"
  "DaysInMonth y 3 = 31" "DaysInMonth y 4 = 30" "DaysInMonth y 5 = 31" "DaysInMonth y 6 = 30"
  "DaysInMonth y 7 = 31" "DaysInMonth y 8 = 31" "DaysInMonth y 9 = 30" "DaysInMonth y 10 = 31"
  "DaysInMonth y 11 = 30" "DaysInMonth y 12 = 31"
  by (simp_all add: DaysInMonth_def month_table_def leap_def smod_nonneg dvd_eq_mod_eq_0)

lemma DaysInMonth_bounds: "1 \<le> y \<Longrightarrow> 1 \<le> m \<Longrightarrow> m \<le> 12 \<Longrightarrow> 28 \<le> DaysInMonth y m \<and> DaysInMonth y m \<le> 31"
  using months [of m] by (auto simp: DaysInMonth_simps)

lemma div_pred: "0 < n \<Longrightarrow> (y::int) div n = (y - 1) div n + of_bool (n dvd y)"
proof (cases "n dvd y")
  case True
  assume n: "0 < n"
  from True obtain k where "y = n * k" by blast
  then have "y - 1 = n * (k - 1) + (n - 1)" by (simp add: algebra_simps)
  then have "(y - 1) div n = k - 1" using n by (intro int_div_pos_eq [of _ _ _ "n - 1"]) simp_all
  with \<open>y = n * k\<close> n True show ?thesis by simp
next
  case False
  assume n: "0 < n"
  from False have "0 < y mod n" using n by (metis dvd_eq_mod_eq_0 pos_mod_sign less_le)
  moreover have "y - 1 = n * (y div n) + (y mod n - 1)" by simp
  ultimately have "(y - 1) div n = y div n"
    using n pos_mod_bound [OF n, of y] by (intro int_div_pos_eq [of _ _ _ "y mod n - 1"]) simp_all
  with False show ?thesis by simp
qed

definition leap_days :: "int \<Rightarrow> int" where
  "leap_days y = y div 4 - y div 100 + y div 400"

lemma leap_days_pred: "leap_days y = leap_days (y - 1) + of_bool (leap y)"
proof -
  have "400 dvd y \<Longrightarrow> 100 dvd y" "100 dvd y \<Longrightarrow> 4 dvd y" using dvd_trans [of 100 400 y] dvd_trans [of 4 100 y] by simp_all
  then have "of_bool (leap y) = (of_bool (4 dvd y) - of_bool (100 dvd y) + of_bool (400 dvd y) :: int)"
    unfolding leap_def by (cases "4 dvd y"; cases "100 dvd y"; cases "400 dvd y") simp_all
  moreover have "leap_days y = ((y - 1) div 4 + of_bool (4 dvd y)) -
      ((y - 1) div 100 + of_bool (100 dvd y)) + ((y - 1) div 400 + of_bool (400 dvd y))"
    by (simp only: leap_days_def div_pred [OF zero_less_numeral, symmetric])
  moreover have "(a + p) - (b + q) + (c + r) = (a - b + c) + (p - q + r)" for a b c p q r :: int
    by simp
  ultimately show ?thesis by (simp only: leap_days_def)
qed

lemma leap_days_nonneg: "0 \<le> y \<Longrightarrow> 0 \<le> y + leap_days y"
proof -
  assume y: "0 \<le> y"
  have "b \<le> y \<Longrightarrow> 0 \<le> a \<Longrightarrow> 0 \<le> c \<Longrightarrow> 0 \<le> y + (a - b + c)" for a b c :: int by simp
  moreover have "y div 100 \<le> y" using zdiv_mono2 [of y 1 100] y by simp
  moreover have "0 \<le> y div 4" "0 \<le> y div 400" using y by (simp_all add: pos_imp_zdiv_nonneg_iff)
  ultimately show ?thesis unfolding leap_days_def by blast
qed

lemma day_of_week_mod:
  assumes "1 \<le> y" "1 \<le> m" "m \<le> 12" "0 \<le> d"
  shows "day_of_week y m d = (let y' = if m < 3 then y - 1 else y
    in (y' + leap_days y' + sakamoto_table ! nat (m - 1) + d) mod 7)"
proof -
  define y' where "y' = (if m < 3 then y - 1 else y)"
  have y': "0 \<le> y'" using assms(1) by (simp add: y'_def)
  have "0 \<le> sakamoto_table ! nat (m - 1)"
    using months [OF assms(2,3)] by (auto simp: sakamoto_table_def)
  with leap_days_nonneg [OF y'] assms(4)
  have nn: "0 \<le> y' + leap_days y' + sakamoto_table ! nat (m - 1) + d" by linarith
  have "y' + y' sdiv 4 - y' sdiv 100 + y' sdiv 400 = y' + leap_days y'"
    using y' by (simp add: leap_days_def sdiv_nonneg)
  then show ?thesis
    unfolding day_of_week_def Let_def y'_def [symmetric]
    by (simp only: smod_nonneg [OF nn] zero_less_numeral)
qed

lemma daynum_leap:
  "daynum y m d = 365 * (y - 1) + leap_days (y - 1) + sum_list (map (DaysInMonth y) [1..m - 1]) + d"
proof -
  have "x + a - b + c + s + d = x + (a - b + c) + s + d" for x a b c s :: int by simp
  then show ?thesis unfolding daynum_def leap_days_def by blast
qed

lemma daynum_month:
  assumes "1 \<le> y" "1 \<le> m" "m \<le> 12"
  shows "\<exists>k. daynum y m d = (let y' = if m < 3 then y - 1 else y
    in y' + leap_days y' + sakamoto_table ! nat (m - 1) + d) + 7 * k"
proof -
  have "daynum y m d = 365 * (y - 1) + leap_days (y - 1) + sum_list (map (DaysInMonth y) [1..m - 1]) + d"
    by (rule daynum_leap)
  moreover have "leap_days y = leap_days (y - 1) + of_bool (leap y)" by (rule leap_days_pred)
  ultimately show ?thesis
    using months [OF assms(2,3)] assms(1)
    by (intro exI [of _ "52 * (y - 1) + [0, 4, 8, 12, 17, 21, 25, 30, 34, 38, 43, 47] ! nat (m - 1)"])
      (elim insertE emptyE; simp add: upto.simps DaysInMonth_simps sakamoto_table_def Let_def)
qed

lemma daynum_month_end: "1 \<le> m \<Longrightarrow> daynum y (m + 1) 1 = daynum y m (DaysInMonth y m) + 1"
proof -
  assume "1 \<le> m"
  then have "[1..m] = [1..m - 1] @ [m]" by (rule upto_rec2)
  then show ?thesis by (simp add: daynum_def)
qed

lemma daynum_year_end: "1 \<le> y \<Longrightarrow> daynum (y + 1) 1 1 = daynum y 12 31 + 1"
  using leap_days_pred [of y]
  by (simp add: daynum_leap upto.simps DaysInMonth_simps)

lemma day_of_week_lemma:
  assumes "1 \<le> y" "1 \<le> m" "m \<le> 12" "0 \<le> d"
  shows "day_of_week y m d = daynum y m d mod 7"
proof -
  obtain k where "daynum y m d = (let y' = if m < 3 then y - 1 else y
    in y' + leap_days y' + sakamoto_table ! nat (m - 1) + d) + 7 * k"
    using daynum_month [OF assms(1-3)] by blast
  then show ?thesis by (simp add: day_of_week_mod [OF assms] Let_def)
qed

text \<open>
  Sakamoto's formula is the weekday: for every date of every year from 1 on it is the day
  number of the calendar modulo 7, so the weekday after a date is the next one modulo 7, across
  ends of months and years and in leap years.
\<close>

lemma day_of_week_correct:
  assumes "1 \<le> y" "1 \<le> m" "m \<le> 12" "0 \<le> d"
  shows "day_of_week y m d = daynum y m d mod 7"
  by (rule day_of_week_lemma [OF assms])

lemma day_of_week_correct_witness: "day_of_week 2000 2 29 = daynum 2000 2 29 mod 7"
  by (rule day_of_week_correct) simp_all

section \<open>Transition dates\<close>

text \<open>A rule the system uses: a month, a weekday, and which occurrence of it (5: the last).\<close>

definition recurring :: "SYSTEMTIME \<Rightarrow> bool" where
  "recurring r \<longleftrightarrow> 1 \<le> wMonth r \<and> wMonth r \<le> 12 \<and> wDayOfWeek r \<le> 6 \<and> 1 \<le> wDay r \<and> wDay r \<le> 5"

lemma recurring_int:
  assumes "recurring r"
  shows "1 \<le> uint (wMonth r)" "uint (wMonth r) \<le> 12" "uint (wDayOfWeek r) \<le> 6" "1 \<le> uint (wDay r)"
    "uint (wDay r) \<le> 5" "wMonth r \<noteq> 0"
  using assms by (auto simp: recurring_def word_le_def)

text \<open>Walking \<open>k\<close> days on moves the weekday by \<open>k\<close>.\<close>

lemma day_of_week_add:
  assumes "1 \<le> y" "1 \<le> m" "m \<le> 12" "0 \<le> d" "0 \<le> d + k"
  shows "day_of_week y m (d + k) = (day_of_week y m d + k) mod 7"
proof -
  have "daynum y m (d + k) = daynum y m d + k" by (simp add: daynum_def)
  then show ?thesis
    using assms by (simp add: day_of_week_lemma mod_add_left_eq)
qed

lemma day_of_week_range:
  "1 \<le> y \<Longrightarrow> 1 \<le> m \<Longrightarrow> m \<le> 12 \<Longrightarrow> 0 \<le> d \<Longrightarrow> 0 \<le> day_of_week y m d \<and> day_of_week y m d < 7"
  by (simp add: day_of_week_lemma)

lemma offset_range: "0 \<le> a \<Longrightarrow> a < 7 \<Longrightarrow> 0 \<le> b \<Longrightarrow> b < (7::int) \<Longrightarrow>
  (a - b + 7) smod 7 = (a - b) mod 7"
  by (simp add: smod_nonneg)

lemma same_weekday_apart:
  "(a::int) mod 7 = b mod 7 \<Longrightarrow> \<bar>a - b\<bar> < 7 \<Longrightarrow> a = b"
  by presburger

lemma word_of_day: "0 \<le> d \<Longrightarrow> d \<le> 31 \<Longrightarrow> uint (word_of_int d :: WORD) = d"
  by (simp add: uint_word_of_int)

text \<open>The day the code computes: the first or last such weekday, some weeks on for a number below 5.\<close>

definition transition_day :: "int \<Rightarrow> int \<Rightarrow> int \<Rightarrow> int \<Rightarrow> int" where
  "transition_day y m dow n =
     (if n < 5 then 1 + (dow - day_of_week y m 1) mod 7 + (n - 1) * 7
      else DaysInMonth y m - (day_of_week y m (DaysInMonth y m) - dow) mod 7)"

lemma transition_day_in_month:
  assumes "1 \<le> y" "1 \<le> m" "m \<le> 12" "1 \<le> n"
  shows "1 \<le> transition_day y m dow n" "transition_day y m dow n \<le> DaysInMonth y m"
    "n < 5 \<Longrightarrow> (transition_day y m dow n - 1) div 7 = n - 1"
    "\<not> n < 5 \<Longrightarrow> DaysInMonth y m - transition_day y m dow n < 7"
proof -
  have off: "0 \<le> a mod 7" "a mod 7 < 7" for a :: int by simp_all
  show "1 \<le> transition_day y m dow n" "transition_day y m dow n \<le> DaysInMonth y m"
    using DaysInMonth_bounds [OF assms(1-3)] assms(4) off [of "dow - day_of_week y m 1"]
      off [of "day_of_week y m (DaysInMonth y m) - dow"]
    unfolding transition_day_def by (auto split: if_splits)
  show "n < 5 \<Longrightarrow> (transition_day y m dow n - 1) div 7 = n - 1"
    using off [of "dow - day_of_week y m 1"] by (simp add: transition_day_def)
  show "\<not> n < 5 \<Longrightarrow> DaysInMonth y m - transition_day y m dow n < 7"
    using off [of "day_of_week y m (DaysInMonth y m) - dow"] by (simp add: transition_day_def)
qed

lemma transition_day_weekday:
  assumes "1 \<le> y" "1 \<le> m" "m \<le> 12" "1 \<le> n" "0 \<le> dow" "dow < 7"
  shows "day_of_week y m (transition_day y m dow n) = dow"
proof -
  note in_month = transition_day_in_month [OF assms(1-4), of dow]
  note dim = DaysInMonth_bounds [OF assms(1-3)]
  show ?thesis
  proof (cases "n < 5")
    case True
    have "day_of_week y m (1 + (transition_day y m dow n - 1)) =
        (day_of_week y m 1 + (transition_day y m dow n - 1)) mod 7"
      using day_of_week_add [OF assms(1-3), of 1 "transition_day y m dow n - 1"] in_month(1) by simp
    also have "day_of_week y m 1 + (transition_day y m dow n - 1) =
        day_of_week y m 1 + (dow - day_of_week y m 1) mod 7 + (n - 1) * 7"
      using True by (simp add: transition_day_def)
    also have "\<dots> mod 7 = (day_of_week y m 1 + (dow - day_of_week y m 1) mod 7) mod 7" by (rule mod_mult_self1)
    also have "\<dots> = dow" using assms(5,6) by (simp add: mod_add_right_eq)
    finally show ?thesis by simp
  next
    case False
    let ?l = "DaysInMonth y m"
    have "day_of_week y m (?l + (transition_day y m dow n - ?l)) =
        (day_of_week y m ?l + (transition_day y m dow n - ?l)) mod 7"
      using day_of_week_add [OF assms(1-3), of ?l "transition_day y m dow n - ?l"] in_month(1) dim by simp
    also have "\<dots> = (day_of_week y m ?l - (day_of_week y m ?l - dow) mod 7) mod 7"
      using False by (simp add: transition_day_def)
    also have "\<dots> = dow" using assms(5,6) by (simp add: mod_diff_right_eq)
    finally show ?thesis by simp
  qed
qed

lemma transition_date_day:
  assumes "recurring rule" "year \<noteq> 0"
  shows "ComputeTransitionDate year rule = rule\<lparr>wYear := year,
    wDay := word_of_int (transition_day (uint year) (uint (wMonth rule)) (uint (wDayOfWeek rule)) (uint (wDay rule)))\<rparr>"
proof -
  have "uint year \<noteq> 0" using assms(2) by (simp add: uint_0_iff)
  then have y: "1 \<le> uint year" using uint_ge_0 [of year] by linarith
  note rule = recurring_int [OF assms(1)]
  have dow: "0 \<le> uint (wDayOfWeek rule)" "uint (wDayOfWeek rule) < 7" using rule(3) by simp_all
  note in_month = transition_day_in_month [OF y rule(1,2,4), of "uint (wDayOfWeek rule)"]
  have lt5: "wDay rule < 5 \<longleftrightarrow> uint (wDay rule) < 5" by (simp add: word_less_def)
  have range: "0 \<le> day_of_week (uint year) (uint (wMonth rule)) d" "day_of_week (uint year) (uint (wMonth rule)) d < 7"
    if "0 \<le> d" for d
    using day_of_week_range [OF y rule(1,2) that] by simp_all
  show ?thesis
  proof (cases "uint (wDay rule) < 5")
    case True
    then show ?thesis
      using lt5 in_month(2) offset_range [OF dow range [of 1]] rule(6)
      by (simp add: ComputeTransitionDate_def Let_def transition_day_def)
  next
    case False
    have "0 \<le> DaysInMonth (uint year) (uint (wMonth rule))" using DaysInMonth_bounds [OF y rule(1,2)] by simp
    with False show ?thesis
      using lt5 offset_range [OF range dow] rule(6)
      by (simp add: ComputeTransitionDate_def Let_def transition_day_def)
  qed
qed


text \<open>The last Sunday of October 2024.\<close>

definition october_rule :: SYSTEMTIME where
  "october_rule = \<lparr>wYear = 0, wMonth = 10, wDayOfWeek = 0, wDay = 5, wHour = 3, wMinute = 0, wSecond = 0,
     wMilliseconds = 0\<rparr>"


section \<open>Comparing and converting\<close>

definition st_key :: "SYSTEMTIME \<Rightarrow> int list" where
  "st_key a = map uint [wYear a, wMonth a, wDay a, wHour a, wMinute a, wSecond a, wMilliseconds a]"

text \<open>The comparison as a fold over the keys.\<close>

fun first_difference :: "int list \<Rightarrow> int list \<Rightarrow> int" where
  "first_difference (x # xs) (y # ys) = (if x \<noteq> y then x - y else first_difference xs ys)"
| "first_difference _ _ = 0"

lemma compare_first_difference: "CompareSystemTime a b = first_difference (st_key a) (st_key b)"
  by (simp add: CompareSystemTime_def st_key_def word_uint_eq_iff)

lemma first_difference_lex:
  "length xs = length ys \<Longrightarrow> (first_difference xs ys < 0 \<longleftrightarrow> xs < ys) \<and>
   (first_difference xs ys = 0 \<longleftrightarrow> xs = ys) \<and> (first_difference xs ys > 0 \<longleftrightarrow> ys < xs)"
  by (induction xs ys rule: first_difference.induct) auto

lemma compare_lex:
  "CompareSystemTime a b < 0 \<longleftrightarrow> st_key a < st_key b"
  "CompareSystemTime a b = 0 \<longleftrightarrow> st_key a = st_key b"
  "CompareSystemTime a b > 0 \<longleftrightarrow> st_key b < st_key a"
  using first_difference_lex [of "st_key a" "st_key b"]
  by (simp_all add: compare_first_difference) (simp_all add: st_key_def)

text \<open>
  The comparison is the lexicographic order from the year down to the milliseconds; the
  weekday does not take part in it.
\<close>

lemma compare_is_lexicographic:
  "(CompareSystemTime a b < 0 \<longleftrightarrow> st_key a < st_key b) \<and>
   (CompareSystemTime a b = 0 \<longleftrightarrow> st_key a = st_key b) \<and>
   (CompareSystemTime a b > 0 \<longleftrightarrow> st_key b < st_key a)"
  by (simp add: compare_lex)

text \<open>
  Daylight time is in force from the daylight date (included) to the standard date
  (excluded) when the first comes before the second in the year, and outside the period from the
  standard date (included) to the daylight date (excluded) otherwise.
\<close>

lemma is_dst_period:
  "is_dst p daylight standard \<longleftrightarrow>
    (if st_key daylight < st_key standard then st_key daylight \<le> st_key p \<and> st_key p < st_key standard
     else \<not> (st_key standard \<le> st_key p \<and> st_key p < st_key daylight))"
proof -
  have ge: "CompareSystemTime a b \<ge> 0 \<longleftrightarrow> st_key b \<le> st_key a" for a b
    using compare_lex(1) [of a b] by (simp add: not_less [symmetric])
  show ?thesis unfolding is_dst_def ge compare_lex(1) by auto
qed

text \<open>
  The conversion to local time shifts the universal time by the zone's bias plus the standard
  or the daylight bias, modulo \<open>2^64\<close> intervals, as the daylight period of the local year decides
  for the time shifted by the plain bias; without transitions it shifts by the plain bias alone.
  (The end of the period is thus compared in standard time.)
\<close>

lemma to_local_shifts:
  assumes "SystemTimeToTzSpecificLocalTime_compat to_ft of_ft tz universal = Some res"
  shows "\<exists>u p. to_ft universal = Some u \<and> of_ft (u - bias_intervals (Bias tz)) = Some p \<and>
    (if wMonth (StandardDate tz) = 0 \<or> wMonth (DaylightDate tz) = 0 then res = p
     else of_ft (u - bias_intervals (Bias tz +
         (if is_dst p (ComputeTransitionDate (wYear p) (DaylightDate tz)) (ComputeTransitionDate (wYear p) (StandardDate tz))
          then DaylightBias tz else StandardBias tz))) = Some res)"
  using assms by (auto simp: SystemTimeToTzSpecificLocalTime_compat_def Let_def split: option.splits if_splits)

definition utc_zone :: TIME_ZONE_INFORMATION where
  "utc_zone = \<lparr>Bias = - 60, StandardName = [], StandardDate = october_rule, StandardBias = 0, DaylightName = [],
     DaylightDate = october_rule\<lparr>wMonth := 3\<rparr>, DaylightBias = - 60\<rparr>"

lemma to_local_shifts_witness:
  "\<exists>u. (if is_dst october_rule (ComputeTransitionDate 0 (DaylightDate utc_zone)) (ComputeTransitionDate 0 october_rule)
     then bias_intervals (- 120) else bias_intervals (- 60)) = bias_intervals u"
  using to_local_shifts [of "\<lambda>_. Some 0" "\<lambda>_. Some october_rule" utc_zone october_rule october_rule]
  by (auto simp: SystemTimeToTzSpecificLocalTime_compat_def utc_zone_def october_rule_def Let_def)

lemma try_bias_some:
  "try_bias of_ft tol lt u b = Some (Some r) \<longleftrightarrow>
     of_ft (u + bias_intervals b) = Some r \<and> (\<exists>back. tol r = Some back \<and> st_key lt = st_key back)"
  "try_bias of_ft tol lt u b = Some None \<longleftrightarrow>
     (\<exists>cand back. of_ft (u + bias_intervals b) = Some cand \<and> tol cand = Some back \<and> st_key lt \<noteq> st_key back)"
  by (auto simp: try_bias_def compare_lex(2) split: option.splits)

text \<open>
  C28: the conversion to universal time inverts the one to local time: what it returns converts back
  to the given time, the daylight reading of an ambiguous time being preferred; and it reports an
  invalid parameter only when neither reading converts back.
\<close>

theorem to_universal_inverts:
  shows "case TzSpecificLocalTimeToSystemTime_compat to_ft of_ft to_local tz lt of
      Inr r \<Rightarrow> (\<exists>back. to_local tz r = Some back \<and> st_key back = st_key lt) \<and>
        (\<forall>u d back. to_ft lt = Some u \<and> of_ft (u + bias_intervals (Bias tz + DaylightBias tz)) = Some d \<and>
           to_local tz d = Some back \<and> st_key back = st_key lt \<longrightarrow> r = d)
    | Inl ERROR_INVALID_PARAMETER \<Rightarrow> (\<exists>u. to_ft lt = Some u \<and>
        (\<forall>b \<in> {DaylightBias tz, StandardBias tz}. \<exists>d back. of_ft (u + bias_intervals (Bias tz + b)) = Some d \<and>
           to_local tz d = Some back \<and> st_key back \<noteq> st_key lt))
    | Inl TZ_OS \<Rightarrow> True"
proof (cases "to_ft lt")
  case (Some u)
  let ?d = "try_bias of_ft (to_local tz) lt u (Bias tz + DaylightBias tz)"
  let ?s = "try_bias of_ft (to_local tz) lt u (Bias tz + StandardBias tz)"
  consider "?d = None" | r where "?d = Some (Some r)" | "?d = Some None" "?s = None"
    | r where "?d = Some None" "?s = Some (Some r)" | "?d = Some None" "?s = Some None"
    by (cases ?d; cases ?s; metis option.exhaust)
  then show ?thesis
  proof cases
    case (2 r)
    with Some have "TzSpecificLocalTimeToSystemTime_compat to_ft of_ft to_local tz lt = Inr r"
      by (simp add: TzSpecificLocalTimeToSystemTime_compat_def)
    with Some 2 [unfolded try_bias_some] show ?thesis by auto
  next
    case (4 r)
    with Some have "TzSpecificLocalTimeToSystemTime_compat to_ft of_ft to_local tz lt = Inr r"
      by (simp add: TzSpecificLocalTimeToSystemTime_compat_def)
    with Some 4 [unfolded try_bias_some] show ?thesis by auto
  next
    case 5
    with Some have "TzSpecificLocalTimeToSystemTime_compat to_ft of_ft to_local tz lt = Inl ERROR_INVALID_PARAMETER"
      by (simp add: TzSpecificLocalTimeToSystemTime_compat_def)
    with Some 5 [unfolded try_bias_some] show ?thesis by auto
  qed (use Some in \<open>simp_all add: TzSpecificLocalTimeToSystemTime_compat_def\<close>)
qed (simp add: TzSpecificLocalTimeToSystemTime_compat_def)

definition march_noon :: SYSTEMTIME where
  "march_noon = \<lparr>wYear = 2024, wMonth = 3, wDayOfWeek = 0, wDay = 1, wHour = 12, wMinute = 0, wSecond = 0,
     wMilliseconds = 0\<rparr>"

text \<open>A system whose clock knows one instant, read in a zone where it converts to itself.\<close>

theorem to_universal_inverts_witness:
  "TzSpecificLocalTimeToSystemTime_compat (\<lambda>_. Some 0) (\<lambda>_. Some march_noon) (\<lambda>_ t. Some t) utc_zone march_noon =
     Inr march_noon \<and> (\<exists>back. Some march_noon = Some back \<and> st_key back = st_key march_noon)"
  using to_universal_inverts [where to_ft = "\<lambda>_. Some 0" and of_ft = "\<lambda>_. Some march_noon"
      and to_local = "\<lambda>_ t. Some t" and tz = utc_zone and lt = march_noon]
  by (simp add: TzSpecificLocalTimeToSystemTime_compat_def try_bias_def CompareSystemTime_def)

text \<open>
  The zone for a year is the given (or the current) zone with its two rules replaced by the
  dates they name in that year; the names and biases are copied, and a missing result pointer is
  the only error of the function's own.
\<close>

lemma zone_for_year:
  "GetTimeZoneInformationForYear year pdtzi cur out =
    (if \<not> out then Inl ERROR_INVALID_PARAMETER
     else case (case pdtzi of Some z \<Rightarrow> Some z | None \<Rightarrow> cur) of
       None \<Rightarrow> Inl TZ_OS
     | Some z \<Rightarrow> Inr \<lparr>Bias = Bias z, StandardName = StandardName z,
         StandardDate = ComputeTransitionDate year (StandardDate z), StandardBias = StandardBias z,
         DaylightName = DaylightName z, DaylightDate = ComputeTransitionDate year (DaylightDate z),
         DaylightBias = DaylightBias z\<rparr>)"
  by (simp add: GetTimeZoneInformationForYear_def split: option.splits)

end
