(* ===== verification/Actions.thy ===== *)
theory Actions
  imports Prelude
begin

text \<open>
  Model of \<open>src/common/win32actions.c\<close>, what is done with an infected file.
  \<^item> The life of an action source: the resources of the process (descriptors, handles, heap blocks)
    are a state, so that leaks and double closes show.
  \<^item> Moving, copying and removing over a file system from paths to contents. The calls of the
    C library answer as the environment says.
\<close>

section \<open>Action sources\<close>

datatype cl_error = CL_SUCCESS | CL_EARG | CL_EMEM | CL_EOPEN | CL_VIRUS

record action_source =
  display_path :: "string option"
  action_path :: "string option"
  scan_fd :: int
  handle :: "nat option"
  handle_can_delete :: bool
  has_stat :: bool

record resources =
  fds :: "int set"
  handles :: "nat set"
  blocks :: nat

text \<open>The answers of the system: allocations, the descriptor opened or duplicated (negative: none),
  the status of the file, and the duplicated handle.\<close>

record sys_answers =
  strdup1 :: bool
  strdup2 :: bool
  new_fd :: int
  fstat_ok :: bool
  is_regular :: bool
  osfhandle_ok :: bool
  dup_handle :: "nat option"

definition action_source_init :: action_source where
  "action_source_init = \<lparr>display_path = None, action_path = None, scan_fd = - 1, handle = None,
     handle_can_delete = False, has_stat = False\<rparr>"

definition action_source_set_paths ::
    "sys_answers \<Rightarrow> string \<Rightarrow> string option \<Rightarrow> action_source \<times> resources \<Rightarrow> cl_error \<times> action_source \<times> resources" where
  "action_source_set_paths env d a sr =
     (case sr of (src, r) \<Rightarrow>
        if \<not> strdup1 env then (CL_EMEM, src, r)
        else let src = src\<lparr>display_path := Some d\<rparr>; r = r\<lparr>blocks := blocks r + 1\<rparr> in
          case a of
            None \<Rightarrow> (CL_SUCCESS, src, r)
          | Some p \<Rightarrow>
              if \<not> strdup2 env then (CL_EMEM, src, r)
              else (CL_SUCCESS, src\<lparr>action_path := Some p\<rparr>, r\<lparr>blocks := blocks r + 1\<rparr>))"

definition action_source_attach_fd ::
    "sys_answers \<Rightarrow> int \<Rightarrow> action_source \<times> resources \<Rightarrow> cl_error \<times> action_source \<times> resources" where
  "action_source_attach_fd env fd sr =
     (case sr of (src, r) \<Rightarrow>
        if \<not> fstat_ok env then (CL_EOPEN, src, r)
        else let src = src\<lparr>has_stat := True\<rparr> in
          if \<not> is_regular env then (CL_EOPEN, src, r)
          else if \<not> osfhandle_ok env then (CL_EOPEN, src, r)
          else case dup_handle env of
              None \<Rightarrow> (CL_EOPEN, src, r)
            | Some h \<Rightarrow> (CL_SUCCESS, src\<lparr>scan_fd := fd, handle := Some h, handle_can_delete := False\<rparr>,
                r\<lparr>handles := insert h (handles r)\<rparr>))"

definition close_fd :: "int \<Rightarrow> resources \<Rightarrow> resources" where
  "close_fd fd r = r\<lparr>fds := fds r - {fd}\<rparr>"

definition free_path :: "string option \<Rightarrow> resources \<Rightarrow> resources" where
  "free_path p r = (case p of None \<Rightarrow> r | Some _ \<Rightarrow> r\<lparr>blocks := blocks r - 1\<rparr>)"

definition action_source_close :: "action_source \<Rightarrow> resources \<Rightarrow> action_source \<times> resources" where
  "action_source_close src r =
     (let r = (if scan_fd src \<noteq> - 1 then close_fd (scan_fd src) r else r);
          r = (case handle src of None \<Rightarrow> r | Some h \<Rightarrow> r\<lparr>handles := handles r - {h}\<rparr>);
          r = free_path (display_path src) r;
          r = free_path (action_path src) r
      in (action_source_init, r))"

text \<open>The part after the paths, common to opening by path and by descriptor.\<close>

definition attach_or_close ::
    "sys_answers \<Rightarrow> cl_error \<times> action_source \<times> resources \<Rightarrow> cl_error \<times> action_source \<times> resources" where
  "attach_or_close env st =
     (case st of (status, src, r) \<Rightarrow>
        let (status, fd, src, r) =
              (if status \<noteq> CL_SUCCESS then (status, - 1, src, r)
               else
                 let fd = new_fd env in
                 if fd < 0 then (CL_EOPEN, fd, src, r)
                 else let r = r\<lparr>fds := insert fd (fds r)\<rparr>;
                          (status, src, r) = action_source_attach_fd env fd (src, r)
                      in (status, if status = CL_SUCCESS then - 1 else fd, src, r));
            r = (if fd \<ge> 0 then close_fd fd r else r);
            (src, r) = (if status \<noteq> CL_SUCCESS then action_source_close src r else (src, r))
        in (status, src, r))"

text \<open>\<open>src = None\<close> stands for a null pointer to the source.\<close>

definition action_source_open_path ::
    "sys_answers \<Rightarrow> string option \<Rightarrow> string option \<Rightarrow> action_source option \<Rightarrow> resources \<Rightarrow>
     cl_error \<times> action_source option \<times> resources" where
  "action_source_open_path env display op src r =
     (case (display, op, src) of
        (Some d, Some p, Some _) \<Rightarrow>
          (case attach_or_close env (action_source_set_paths env d (Some p) (action_source_init, r)) of
             (status, s, r) \<Rightarrow> (status, Some s, r))
      | _ \<Rightarrow> (CL_EARG, src, r))"

definition action_source_open ::
    "sys_answers \<Rightarrow> string option \<Rightarrow> action_source option \<Rightarrow> resources \<Rightarrow> cl_error \<times> action_source option \<times> resources" where
  "action_source_open env display src r = action_source_open_path env display display src r"

definition action_source_from_fd ::
    "sys_answers \<Rightarrow> string option \<Rightarrow> int \<Rightarrow> action_source option \<Rightarrow> resources \<Rightarrow>
     cl_error \<times> action_source option \<times> resources" where
  "action_source_from_fd env display fd src r =
     (case (display, src) of
        (Some d, Some _) \<Rightarrow>
          if fd < 0 then (CL_EARG, src, r)
          else (case attach_or_close env (action_source_set_paths env d (Some d) (action_source_init, r)) of
                  (status, s, r) \<Rightarrow> (status, Some s, r))
      | _ \<Rightarrow> (CL_EARG, src, r))"

definition action_source_filename :: "action_source option \<Rightarrow> string option" where
  "action_source_filename src =
     (case src of
        None \<Rightarrow> None
      | Some s \<Rightarrow> (case action_path s of
            Some p \<Rightarrow> if p \<noteq> [] then Some p else display_path s
          | None \<Rightarrow> display_path s))"

section \<open>Destinations\<close>

type_synonym fs = "string \<Rightarrow> string option"

record file_answers =
  can_create :: "string \<Rightarrow> bool"
  can_unlink :: "string \<Rightarrow> bool"
  copies :: bool
  left_over :: string
  basename :: "string \<Rightarrow> string"
  allocates :: bool

datatype open_result = Created | EEXIST | Denied

definition open_excl :: "file_answers \<Rightarrow> fs \<Rightarrow> string \<Rightarrow> open_result" where
  "open_excl env f p = (if f p \<noteq> None then EEXIST else if can_create env p then Created else Denied)"

definition digit :: "nat \<Rightarrow> char" where
  "digit n = char_of (48 + n mod 10)"

text \<open>The conversion \<open>%03u\<close>: at least three digits.\<close>

fun digits :: "nat \<Rightarrow> string" where
  "digits n = (if n < 10 then [digit n] else digits (n div 10) @ [digit n])"

definition format_03u :: "nat \<Rightarrow> string" where
  "format_03u n = replicate (3 - length (digits n)) (digit 0) @ digits n"

definition pathsep :: char where "pathsep = CHR 92"

datatype dest = Overrun | No_dest | Dest string

text \<open>\<open>sprintf\<close> into a buffer of \<open>cap\<close> bytes, the terminator included.\<close>

definition fits :: "nat \<Rightarrow> string \<Rightarrow> bool" where
  "fits cap s \<longleftrightarrow> length s < cap"

function getdest_loop :: "file_answers \<Rightarrow> fs \<Rightarrow> nat \<Rightarrow> string \<Rightarrow> nat \<Rightarrow> string \<Rightarrow> dest" where
  "getdest_loop env f cap base i name =
     (if \<not> i < 1000 then No_dest
      else case open_excl env f name of
          Created \<Rightarrow> Dest name
        | Denied \<Rightarrow> No_dest
        | EEXIST \<Rightarrow>
            let name = base @ ''.'' @ format_03u i in
            if \<not> fits cap name then Overrun else getdest_loop env f cap base (i + 1) name)"
  by pat_completeness auto
termination by (relation "measure (\<lambda>(env, f, cap, base, i, name). 1000 - i)") simp_all

declare getdest_loop.simps [simp del]

definition getdest :: "file_answers \<Rightarrow> fs \<Rightarrow> string \<Rightarrow> string \<Rightarrow> dest" where
  "getdest env f actarget fullpath =
     (let filename = basename env fullpath;
          cap = length actarget + length filename + 6;
          base = actarget @ [pathsep] @ filename
      in if \<not> allocates env then No_dest
         else if \<not> fits cap base then Overrun
         else getdest_loop env f cap base 1 base)"

section \<open>Actions\<close>

record astate =
  files :: fs
  notmoved :: DWORD
  notremoved :: DWORD

definition unlink :: "file_answers \<Rightarrow> string \<Rightarrow> fs \<Rightarrow> bool \<times> fs" where
  "unlink env p f = (if f p \<noteq> None \<and> can_unlink env p then (True, f(p := None)) else (False, f))"

text \<open>Copying into a file that exists: all of it, or a part when it fails.\<close>

definition filecopy :: "file_answers \<Rightarrow> string \<Rightarrow> string \<Rightarrow> fs \<Rightarrow> bool \<times> fs" where
  "filecopy env src dst f =
     (if copies env \<and> f src \<noteq> None then (True, f(dst := f src)) else (False, f(dst := Some (left_over env))))"

text \<open>The destination has been created empty by \<open>getdest\<close> before anything else happens.\<close>

definition action_move :: "file_answers \<Rightarrow> string \<Rightarrow> action_source option \<Rightarrow> astate \<Rightarrow> astate option" where
  "action_move env actarget src s =
     (case action_source_filename src of
        None \<Rightarrow> Some s
      | Some filename \<Rightarrow>
          (case getdest env (files s) actarget filename of
             Overrun \<Rightarrow> None
           | No_dest \<Rightarrow> Some (s\<lparr>notmoved := notmoved s + 1\<rparr>)
           | Dest nuname \<Rightarrow>
               (case filecopy env filename nuname ((files s)(nuname := Some [])) of
                  (True, f) \<Rightarrow> Some (s\<lparr>files := snd (unlink env filename f)\<rparr>)
                | (False, f) \<Rightarrow> Some (s\<lparr>files := snd (unlink env nuname f), notmoved := notmoved s + 1\<rparr>))))"

definition action_copy :: "file_answers \<Rightarrow> string \<Rightarrow> action_source option \<Rightarrow> astate \<Rightarrow> astate option" where
  "action_copy env actarget src s =
     (case action_source_filename src of
        None \<Rightarrow> Some (s\<lparr>notmoved := notmoved s + 1\<rparr>)
      | Some filename \<Rightarrow>
          (case getdest env (files s) actarget filename of
             Overrun \<Rightarrow> None
           | No_dest \<Rightarrow> Some (s\<lparr>notmoved := notmoved s + 1\<rparr>)
           | Dest nuname \<Rightarrow>
               (case filecopy env filename nuname ((files s)(nuname := Some [])) of
                  (True, f) \<Rightarrow> Some (s\<lparr>files := f\<rparr>)
                | (False, f) \<Rightarrow> Some (s\<lparr>files := snd (unlink env nuname f), notmoved := notmoved s + 1\<rparr>))))"

definition action_remove :: "file_answers \<Rightarrow> action_source option \<Rightarrow> astate \<Rightarrow> astate option" where
  "action_remove env src s =
     (case action_source_filename src of
        None \<Rightarrow> Some s
      | Some filename \<Rightarrow>
          (case unlink env filename (files s) of
             (True, f) \<Rightarrow> Some (s\<lparr>files := f\<rparr>)
           | (False, f) \<Rightarrow> Some (s\<lparr>notremoved := notremoved s + 1\<rparr>)))"

datatype action_kind = No_action | Move_to string | Copy_to string | Remove_it

record options =
  opt_move :: "string option"
  opt_copy :: "string option"
  opt_remove :: bool

text \<open>
  \<open>stat\<close> answers the status of the target, whether it is a directory. The result is the exit status
  and the action.
\<close>

definition isdir :: "(string \<Rightarrow> bool option) \<Rightarrow> string \<Rightarrow> bool" where
  "isdir stat t = (case stat t of None \<Rightarrow> False | Some directory \<Rightarrow> directory)"

definition actsetup :: "(string \<Rightarrow> bool option) \<Rightarrow> options \<Rightarrow> nat \<times> action_kind" where
  "actsetup stat opts =
     (case (opt_move opts, opt_copy opts) of
        (Some t, _) \<Rightarrow> if \<not> isdir stat t then (1, No_action) else (0, Move_to t)
      | (None, Some t) \<Rightarrow> if \<not> isdir stat t then (1, No_action) else (0, Copy_to t)
      | (None, None) \<Rightarrow> (0, if opt_remove opts then Remove_it else No_action))"

definition run_action :: "file_answers \<Rightarrow> action_kind \<Rightarrow> action_source option \<Rightarrow> astate \<Rightarrow> astate option" where
  "run_action env k src s = (case k of
      No_action \<Rightarrow> Some s
    | Move_to t \<Rightarrow> action_move env t src s
    | Copy_to t \<Rightarrow> action_copy env t src s
    | Remove_it \<Rightarrow> action_remove env src s)"

section \<open>Ownership of the resources\<close>

text \<open>What a source that was opened owns, on top of the resources \<open>r\<close> of the process.\<close>

definition owns :: "int \<Rightarrow> nat \<Rightarrow> resources \<Rightarrow> resources" where
  "owns fd h r = r\<lparr>fds := insert fd (fds r), handles := insert h (handles r), blocks := blocks r + 2\<rparr>"

definition fresh :: "sys_answers \<Rightarrow> resources \<Rightarrow> bool" where
  "fresh env r \<longleftrightarrow> new_fd env \<notin> fds r \<and> (\<forall>h. dup_handle env = Some h \<longrightarrow> h \<notin> handles r)"

lemmas source_ops = attach_or_close_def action_source_set_paths_def action_source_attach_fd_def
  action_source_close_def action_source_init_def close_fd_def free_path_def Let_def

lemma attach_or_close_owns:
  assumes "fresh env r"
  shows "case attach_or_close env (action_source_set_paths env d (Some p) (action_source_init, r)) of
    (status, s, r') \<Rightarrow>
      (if status = CL_SUCCESS
       then \<exists>h. dup_handle env = Some h \<and> scan_fd s = new_fd env \<and> 0 \<le> new_fd env \<and> handle s = Some h \<and>
         display_path s = Some d \<and> action_path s = Some p \<and> r' = owns (new_fd env) h r
       else s = action_source_init \<and> r' = r)"
  using assms by (auto simp: source_ops owns_def fresh_def split: option.splits)

lemma close_owned:
  assumes "fresh env r" "dup_handle env = Some h" "0 \<le> new_fd env"
    and "scan_fd s = new_fd env" "handle s = Some h" "display_path s = Some d" "action_path s = Some p"
  shows "action_source_close s (owns (new_fd env) h r) = (action_source_init, r)"
  using assms by (auto simp: source_ops owns_def fresh_def)

text \<open>
  Opening an action source, by path or by descriptor, leaks nothing: when it fails, at
  whichever call, every resource it took is given back and the source is empty; when it succeeds
  the source owns exactly one descriptor, one handle and two strings, and closing it gives
  exactly those back.
\<close>

lemma action_source_no_leak:
  assumes "fresh env r" "open_it \<in> {action_source_open env (Some d) (Some s0) r,
    action_source_open_path env (Some d) (Some p) (Some s0) r, action_source_from_fd env (Some d) fd (Some s0) r}"
    and "0 \<le> fd"
  shows "case open_it of
      (CL_SUCCESS, Some s, r') \<Rightarrow>
        (\<exists>h. r' = owns (new_fd env) h r) \<and> action_source_close s r' = (action_source_init, r)
    | (_, Some s, r') \<Rightarrow> s = action_source_init \<and> r' = r
    | (_, None, _) \<Rightarrow> False"
proof -
  obtain q where q: "open_it = (case attach_or_close env (action_source_set_paths env d (Some q) (action_source_init, r)) of
      (status, s, r) \<Rightarrow> (status, Some s, r))"
    using assms(2,3) by (auto simp: action_source_open_def action_source_open_path_def action_source_from_fd_def)
  show ?thesis
    using attach_or_close_owns [OF assms(1), of d q] close_owned [OF assms(1)]
    by (fastforce simp: q split: prod.splits cl_error.splits if_splits)
qed

definition plain_answers :: sys_answers where
  "plain_answers = \<lparr>strdup1 = True, strdup2 = True, new_fd = 5, fstat_ok = True, is_regular = True,
     osfhandle_ok = True, dup_handle = Some 9\<rparr>"

lemma action_source_no_leak_witness:
  "action_source_close (the (fst (snd (action_source_open plain_answers (Some ''a'') (Some action_source_init)
       \<lparr>fds = {0, 1}, handles = {}, blocks = 0\<rparr>)))) (owns 5 9 \<lparr>fds = {0, 1}, handles = {}, blocks = 0\<rparr>) =
     (action_source_init, \<lparr>fds = {0, 1}, handles = {}, blocks = 0\<rparr>)"
proof -
  have f: "fresh plain_answers \<lparr>fds = {0, 1}, handles = {}, blocks = 0\<rparr>"
    by (simp add: fresh_def plain_answers_def)
  have "fst (action_source_open plain_answers (Some ''a'') (Some action_source_init)
      \<lparr>fds = {0, 1}, handles = {}, blocks = 0\<rparr>) = CL_SUCCESS"
    by (simp add: action_source_open_def action_source_open_path_def source_ops plain_answers_def)
  moreover have "snd (snd (action_source_open plain_answers (Some ''a'') (Some action_source_init)
      \<lparr>fds = {0, 1}, handles = {}, blocks = 0\<rparr>)) = owns 5 9 \<lparr>fds = {0, 1}, handles = {}, blocks = 0\<rparr>"
    by (simp add: action_source_open_def action_source_open_path_def source_ops plain_answers_def owns_def)
  ultimately show ?thesis
    using action_source_no_leak [OF f, of "action_source_open plain_answers (Some ''a'') (Some action_source_init)
      \<lparr>fds = {0, 1}, handles = {}, blocks = 0\<rparr>" "''a''" action_source_init "''a''" 0]
    by (auto split: prod.splits option.splits)
qed

section \<open>The destination name\<close>

lemma length_format_03u: "n < 1000 \<Longrightarrow> length (format_03u n) = 3"
proof -
  assume "n < 1000"
  then have "n div 100 < 10" "n div 10 < 100" by auto
  then have "length (digits n) \<le> 3"
    by (simp add: digits.simps [of n] digits.simps [of "n div 10"] digits.simps [of "n div 10 div 10"] div_mult2_eq [symmetric])
  then show ?thesis by (simp add: format_03u_def)
qed

definition candidate :: "string \<Rightarrow> nat \<Rightarrow> string" where
  "candidate base i = base @ ''.'' @ format_03u i"

lemma getdest_loop_find:
  assumes "length base + 5 \<le> cap"
  shows "1 \<le> i \<Longrightarrow> i \<le> 999 \<Longrightarrow> getdest_loop env f cap base i name =
    (case find (\<lambda>p. f p = None) (name # map (candidate base) [i..<999]) of
       None \<Rightarrow> No_dest | Some p \<Rightarrow> if can_create env p then Dest p else No_dest)"
proof (induction "999 - i" arbitrary: i name)
  case 0
  then have "i = 999" by simp
  moreover have "fits cap (candidate base 999)"
    using assms length_format_03u [of 999] by (simp add: fits_def candidate_def)
  ultimately show ?case
    by (simp add: getdest_loop.simps [of _ _ _ _ 999] getdest_loop.simps [of _ _ _ _ 1000] open_excl_def
        candidate_def Let_def)
next
  case (Suc k)
  then have i: "i < 999" "k = 999 - (i + 1)" by simp_all
  then have "[i..<999] = i # [i + 1..<999]" by (simp add: upt_conv_Cons)
  moreover have "fits cap (candidate base i)"
    using assms i length_format_03u [of i] by (simp add: fits_def candidate_def)
  ultimately show ?case
    using Suc.hyps(1) [OF i(2), of "candidate base i"] i
    by (simp add: getdest_loop.simps [of _ _ _ _ i] open_excl_def candidate_def Let_def)
qed

lemma getdest_lemma:
  "getdest env f actarget fullpath =
    (let base = actarget @ [pathsep] @ basename env fullpath in
     if \<not> allocates env then No_dest
     else case find (\<lambda>p. f p = None) (base # map (candidate base) [1..<999]) of
         None \<Rightarrow> No_dest
       | Some p \<Rightarrow> if can_create env p then Dest p else No_dest)"
  using getdest_loop_find [of "actarget @ [pathsep] @ basename env fullpath"
      "length actarget + length (basename env fullpath) + 6" 1]
  by (simp add: getdest_def fits_def Let_def)

text \<open>
  The destination is the first name not in use among the plain one and those numbered 001 to
  998 (the last number formatted, 999, is never tried); there is none when that name cannot be
  created or all are in use. None of the names overruns the buffer allocated for them, which they
  fill to the last byte.
\<close>

lemma getdest_first_free:
  "getdest env f actarget fullpath =
    (let base = actarget @ [pathsep] @ basename env fullpath in
     if \<not> allocates env then No_dest
     else case find (\<lambda>p. f p = None) (base # map (candidate base) [1..<999]) of
         None \<Rightarrow> No_dest
       | Some p \<Rightarrow> if can_create env p then Dest p else No_dest)"
  by (rule getdest_lemma)

lemma getdest_DestD:
  "getdest env f actarget fullpath = Dest p \<Longrightarrow> f p = None"
  by (auto simp: getdest_lemma Let_def find_Some_iff split: option.splits if_splits)

lemma getdest_not_Overrun: "getdest env f actarget fullpath \<noteq> Overrun"
  by (simp add: getdest_lemma Let_def split: option.splits)

section \<open>Nothing is lost\<close>

text \<open>
  C14: no action loses or overwrites a file it was not asked to remove: every other file keeps its
  content, moving and copying keep the content of the infected file (there or at the destination)
  whatever call fails, and moving and copying report a file as not moved exactly when its content
  did not arrive.
\<close>

theorem actions_preserve_files:
  "\<exists>s'. run_action env k src s = Some s' \<and>
    (\<forall>p c. Some p \<noteq> action_source_filename src \<and> files s p = Some c \<longrightarrow> files s' p = Some c) \<and>
    (\<forall>p c. action_source_filename src = Some p \<and> files s p = Some c \<and> k \<noteq> Remove_it \<longrightarrow>
       (files s' p = Some c \<or>
        (\<exists>t. k = Move_to t \<and> (\<exists>q. q \<noteq> p \<and> getdest env (files s) t p = Dest q \<and> files s' q = Some c)))) \<and>
    (\<forall>t p c. (k = Move_to t \<or> k = Copy_to t) \<and> action_source_filename src = Some p \<and> files s p = Some c \<longrightarrow>
       (notmoved s' = notmoved s \<longleftrightarrow>
        (\<exists>q. getdest env (files s) t p = Dest q \<and> copies env \<and> files s' q = Some c)))"
proof -
  have w: "x + 1 \<noteq> x" for x :: DWORD by simp
  show ?thesis
  proof (cases "action_source_filename src")
    case None
    then show ?thesis
      by (cases k) (simp_all add: run_action_def action_move_def action_copy_def action_remove_def)
  next
    case (Some fn)
    show ?thesis
    proof (cases "\<exists>t q. (k = Move_to t \<or> k = Copy_to t) \<and> getdest env (files s) t fn = Dest q")
      case False
      then show ?thesis
        using Some w getdest_not_Overrun [of env "files s"]
        by (cases k)
          (auto simp: run_action_def action_move_def action_copy_def action_remove_def unlink_def
            split: dest.splits prod.splits if_splits)
    next
      case True
      then obtain t q where tq: "k = Move_to t \<or> k = Copy_to t" "getdest env (files s) t fn = Dest q" by blast
      then have q: "files s q = None" using getdest_DestD by blast
      show ?thesis
        using Some tq q w
        by (auto simp: run_action_def action_move_def action_copy_def filecopy_def unlink_def)
    qed
  qed
qed

definition sample_files :: file_answers where
  "sample_files = \<lparr>can_create = (\<lambda>_. True), can_unlink = (\<lambda>_. True), copies = False, left_over = ''x'',
     basename = id, allocates = True\<rparr>"

definition sample_source :: action_source where
  "sample_source = action_source_init\<lparr>display_path := Some ''v''\<rparr>"

text \<open>A copy that fails, beside a file of another name.\<close>

theorem actions_preserve_files_witness:
  "\<exists>s'. run_action sample_files (Move_to ''q'') (Some sample_source)
       \<lparr>files = [''v'' \<mapsto> ''bad'', ''w'' \<mapsto> ''good''], notmoved = 0, notremoved = 0\<rparr> = Some s' \<and>
     files s' ''w'' = Some ''good'' \<and> notmoved s' \<noteq> 0"
proof -
  have fn: "action_source_filename (Some sample_source) = Some ''v''"
    by (simp add: action_source_filename_def sample_source_def action_source_init_def)
  have "copies sample_files = False" by (simp add: sample_files_def)
  with actions_preserve_files [of sample_files "Move_to ''q''" "Some sample_source"
      "\<lparr>files = [''v'' \<mapsto> ''bad'', ''w'' \<mapsto> ''good''], notmoved = 0, notremoved = 0\<rparr>"]
  show ?thesis by (auto simp: fn)
qed

end
