(* ===== verification/ScanMem.thy ===== *)
theory ScanMem
  imports Actions
begin

text \<open>
  Model of \<open>src/common/scanmem.c\<close>, the scan of the modules of the running processes: the cache of
  results, the names of modules, the realignment of a dumped image, the scan of one file with the
  source kept for its quarantine (component \<open>Actions\<close>), the callback for one module, the unloading
  of processes and modules, and the walk over all of them. The scanner, the daemon and the system
  calls answer as the environment says. \<open>CL_CLEAN\<close> and \<open>CL_SUCCESS\<close> are one constant, 0.
\<close>

abbreviation CL_CLEAN :: cl_error where "CL_CLEAN \<equiv> CL_SUCCESS"

text \<open>The constant of builds for Windows XP.\<close>

definition MAX_PATH :: nat where "MAX_PATH = 260"

section \<open>The cache\<close>

type_synonym filelist = "(string \<times> cl_error) list"

text \<open>\<open>_tcsicmp\<close> in the C locale.\<close>

definition lower :: "char \<Rightarrow> char" where
  "lower c = (if 65 \<le> (of_char c :: nat) \<and> (of_char c :: nat) \<le> 90 then char_of ((of_char c :: nat) + 32) else c)"

definition same_name :: "string \<Rightarrow> string \<Rightarrow> bool" where
  "same_name a b \<longleftrightarrow> map lower a = map lower b"

fun lookup_cache :: "filelist \<Rightarrow> string \<Rightarrow> cl_error option" where
  "lookup_cache [] filename = None"
| "lookup_cache ((name, r) # list) filename =
     (if same_name filename name then Some r else lookup_cache list filename)"

text \<open>A new entry goes to the end; \<open>allocated\<close> is whether there is memory for it.\<close>

definition insert_cache :: "bool \<Rightarrow> filelist \<Rightarrow> string \<Rightarrow> cl_error \<Rightarrow> filelist" where
  "insert_cache allocated list filename r =
     (if \<not> allocated then list else list @ [(take (MAX_PATH - 1) filename, r)])"

definition free_cache :: "filelist \<Rightarrow> filelist" where
  "free_cache list = []"

text \<open>What the scan relies on: a result once stored is found, and a later one does not replace it.\<close>

locale result_cache =
  fixes lookup :: "'c \<Rightarrow> string \<Rightarrow> 'r option" and ins :: "'c \<Rightarrow> string \<Rightarrow> 'r \<Rightarrow> 'c"
    and same :: "string \<Rightarrow> string \<Rightarrow> bool" and short :: "string \<Rightarrow> bool"
  assumes lookup_ins: "short n \<Longrightarrow> lookup (ins c n r) m =
      (case lookup c m of Some x \<Rightarrow> Some x | None \<Rightarrow> if same m n then Some r else None)"
    and same_refl: "same n n"
begin

lemma found_after: "short n \<Longrightarrow> lookup c n = None \<Longrightarrow> lookup (ins c n r) n = Some r"
  by (simp add: lookup_ins same_refl)

lemma kept_after: "short n \<Longrightarrow> lookup c m = Some x \<Longrightarrow> lookup (ins c n r) m = Some x"
  by (simp add: lookup_ins)

lemma kept_after_all:
  "\<forall>p \<in> set ps. short (fst p) \<Longrightarrow> lookup c m = Some x \<Longrightarrow>
   lookup (fold (\<lambda>(n, r) c. ins c n r) ps c) m = Some x"
  by (induction ps arbitrary: c) (auto simp: kept_after split: prod.splits)

end

lemma lookup_cache_append:
  "lookup_cache (xs @ ys) m = (case lookup_cache xs m of Some x \<Rightarrow> Some x | None \<Rightarrow> lookup_cache ys m)"
  by (induction xs m rule: lookup_cache.induct) auto

interpretation cache: result_cache lookup_cache "insert_cache True" same_name "\<lambda>n. length n < MAX_PATH"
  by unfold_locales
    (auto simp: insert_cache_def lookup_cache_append same_name_def split: option.splits)

section \<open>Names of modules\<close>

text \<open>
  The special prefixes of module paths. \<open>expand\<close> is \<open>ExpandEnvironmentStrings\<close>. The counts are
  of type \<open>size_t\<close>, so a difference below zero is a huge count, which copies everything.
\<close>

definition size_diff :: "nat \<Rightarrow> nat \<Rightarrow> nat" where
  "size_diff a b = unat (of_nat a - of_nat b :: 64 word)"

definition modulename :: "(string \<Rightarrow> string) \<Rightarrow> string \<Rightarrow> string" where
  "modulename expand szExePath =
     (let len = length szExePath in
      if take 4 szExePath = [CHR 92, CHR 63, CHR 63, CHR 92]
      then take (size_diff MAX_PATH (len + 4)) (drop 4 szExePath)
      else if take 12 szExePath = [CHR 92] @ ''SystemRoot'' @ [CHR 92]
      then take MAX_PATH (expand (take (MAX_PATH - 2) (''%SystemRoot%'' @ [CHR 92] @ drop 12 szExePath)))
      else take MAX_PATH szExePath)"

text \<open>
  The name of a module given with the prefix \<open>\??\<close> is its path without the prefix exactly when
  the whole path has at most 130 characters (or more than 256): the bound subtracts the length of
  the path and the prefix once too often, and a path in between is cut to \<open>256 - len\<close> characters.
\<close>

lemma module_name_prefix:
  assumes "take 4 path = [CHR 92, CHR 63, CHR 63, CHR 92]" "length path \<le> 260"
  shows "(modulename expand path = drop 4 path \<longleftrightarrow> length path \<le> 130 \<or> 256 < length path) \<and>
    (130 < length path \<and> length path \<le> 256 \<longrightarrow>
       modulename expand path = take (256 - length path) (drop 4 path))"
proof -
  have len: "4 \<le> length path" using assms(1) by (cases "length path < 4") auto
  have small: "size_diff 260 (length path + 4) = 256 - length path" if "length path \<le> 256"
  proof -
    have "of_nat 260 - of_nat (length path + 4) = (of_nat (256 - length path) :: 64 word)"
      using that by (simp flip: of_nat_diff add: of_nat_diff)
    then show ?thesis unfolding size_diff_def by (simp add: unat_of_nat_small)
  qed
  have large: "size_diff 260 (length path + 4) \<ge> 256" if "256 < length path"
  proof -
    have "length path = 257 \<or> length path = 258 \<or> length path = 259 \<or> length path = 260"
      using that assms(2) by linarith
    then show ?thesis by (auto simp: size_diff_def unsigned_minus_1_eq_mask mask_eq_exp_minus_1)
  qed
  have name: "modulename expand path = take (size_diff 260 (length path + 4)) (drop 4 path)"
    using assms(1) by (simp add: modulename_def MAX_PATH_def)
  show ?thesis
  proof (cases "length path \<le> 256")
    case True
    have "take (256 - length path) (drop 4 path) = drop 4 path \<longleftrightarrow> length path \<le> 130"
      using len True by (auto dest: arg_cong [where f = length])
    with True small show ?thesis by (auto simp: name)
  next
    case False
    with large assms(2) show ?thesis by (simp add: name)
  qed
qed

lemma module_name_prefix_witness:
  "modulename id ([CHR 92, CHR 63, CHR 63, CHR 92] @ replicate 196 CHR ''a'') = replicate 56 CHR ''a''"
  using module_name_prefix [of "[CHR 92, CHR 63, CHR 63, CHR 92] @ replicate 196 CHR ''a''" id]
  by simp

section \<open>Realignment of a dumped image\<close>

text \<open>
  The image is written back in the layout it has in memory. Memory is a map from offsets relative
  to the buffer to bytes; \<open>rd\<close> and \<open>wr\<close> are the answers of \<open>IsBadReadPtr\<close> and \<open>IsBadWritePtr\<close>
  for the \<open>n\<close> bytes at an offset. The size of the buffer is not looked at.
\<close>

type_synonym image = "nat \<Rightarrow> BYTE"

definition le16 :: "image \<Rightarrow> nat \<Rightarrow> nat" where
  "le16 m a = unat (m a) + 256 * unat (m (a + 1))"

definition le32 :: "image \<Rightarrow> nat \<Rightarrow> nat" where
  "le32 m a = le16 m a + 65536 * le16 m (a + 2)"

definition copy4 :: "nat \<Rightarrow> nat \<Rightarrow> image \<Rightarrow> image" where
  "copy4 dst src m = m(dst := m src, dst + 1 := m (src + 1), dst + 2 := m (src + 2), dst + 3 := m (src + 3))"

definition IMAGE_DOS_SIGNATURE :: nat where "IMAGE_DOS_SIGNATURE = 0x5A4D"
definition IMAGE_NT_SIGNATURE :: nat where "IMAGE_NT_SIGNATURE = 0x4550"

text \<open>
  A section header has 40 bytes: \<open>VirtualSize\<close> at 8, \<open>VirtualAddress\<close> at 12, \<open>SizeOfRawData\<close> at 16
  and \<open>PointerToRawData\<close> at 20.
\<close>

definition align_section :: "nat \<Rightarrow> image \<Rightarrow> image" where
  "align_section seek m = copy4 (seek + 16) (seek + 8) (copy4 (seek + 20) (seek + 12) m)"

fun align_sections :: "(nat \<Rightarrow> nat \<Rightarrow> bool) \<Rightarrow> nat \<Rightarrow> nat \<Rightarrow> image \<Rightarrow> int \<times> image" where
  "align_sections wr 0 seek m = (1, m)"
| "align_sections wr (Suc n) seek m =
     (if \<not> wr seek 40 then (0, m) else align_sections wr n (seek + 40) (align_section seek m))"

definition align_pe :: "(nat \<Rightarrow> nat \<Rightarrow> bool) \<Rightarrow> (nat \<Rightarrow> nat \<Rightarrow> bool) \<Rightarrow> image \<Rightarrow> int \<times> image" where
  "align_pe rd wr m =
     (if \<not> rd 0 2 then (1, m)
      else if le16 m 0 \<noteq> IMAGE_DOS_SIGNATURE then (0, m)
      else if \<not> rd 0x3c 4 then (1, m)
      else let e_lfanew = le32 m 0x3c in
        if e_lfanew = 0 then (0, m)
        else if \<not> rd e_lfanew 4 then (1, m)
        else if le32 m e_lfanew \<noteq> IMAGE_NT_SIGNATURE then (0, m)
        else if \<not> rd (e_lfanew + 4) 20 then (0, m)
        else if \<not> rd (e_lfanew + 24) 224 then (0, m)
        else let n = le16 m (e_lfanew + 6) in
          if n < 1 \<or> n > 32 then (0, m)
          else align_sections wr n (e_lfanew + 248) m)"

text \<open>The bytes of the two raw fields of the \<open>n\<close> section headers at \<open>seek\<close>.\<close>

definition raw_fields :: "nat \<Rightarrow> nat \<Rightarrow> nat set" where
  "raw_fields seek n = (\<Union>i<n. {seek + 40 * i + 16 ..< seek + 40 * i + 24})"

lemma align_section_same: "a < seek + 16 \<or> seek + 24 \<le> a \<Longrightarrow> align_section seek m a = m a"
  by (auto simp: align_section_def copy4_def)

lemma align_section_raw: "k < 8 \<Longrightarrow> align_section seek m (seek + 16 + k) = m (seek + 8 + k)"
proof -
  assume "k < 8"
  then have "k = 0 \<or> k = 1 \<or> k = 2 \<or> k = 3 \<or> k = 4 \<or> k = 5 \<or> k = 6 \<or> k = 7" by linarith
  then show ?thesis
    by (elim disjE) (simp_all add: align_section_def copy4_def ac_simps)
qed

lemma align_sections_writes:
  "align_sections wr n seek m = (r, m') \<Longrightarrow> a \<notin> raw_fields seek n \<Longrightarrow> m' a = m a"
proof (induction wr n seek m rule: align_sections.induct)
  case (2 wr n seek m)
  have sub: "raw_fields (seek + 40) n \<subseteq> raw_fields seek (Suc n)"
  proof
    fix b assume "b \<in> raw_fields (seek + 40) n"
    then obtain i where "i < n" "seek + 40 + 40 * i + 16 \<le> b" "b < seek + 40 + 40 * i + 24"
      by (auto simp: raw_fields_def)
    then show "b \<in> raw_fields seek (Suc n)"
      unfolding raw_fields_def by (intro UN_I [of "Suc i"]) simp_all
  qed
  have "a \<notin> {seek + 40 * 0 + 16 ..< seek + 40 * 0 + 24}"
    using 2(3) unfolding raw_fields_def by blast
  then have "a < seek + 16 \<or> seek + 24 \<le> a" by auto
  then have "align_section seek m a = m a" by (rule align_section_same)
  with 2 sub show ?case by (auto split: if_splits)
qed simp

lemma align_sections_done:
  "align_sections wr n seek m = (1, m') \<Longrightarrow> i < n \<Longrightarrow> k < 8 \<Longrightarrow>
   m' (seek + 40 * i + 16 + k) = m (seek + 40 * i + 8 + k)"
proof (induction wr n seek m arbitrary: i rule: align_sections.induct)
  case (2 wr n seek m)
  then have run: "align_sections wr n (seek + 40) (align_section seek m) = (1, m')" "wr seek 40"
    by (auto split: if_splits)
  show ?case
  proof (cases i)
    case 0
    have "seek + 16 + k \<notin> raw_fields (seek + 40) n" using 2(4) by (auto simp: raw_fields_def)
    then have "m' (seek + 16 + k) = align_section seek m (seek + 16 + k)"
      using align_sections_writes [OF run(1)] by blast
    with 0 2(4) show ?thesis by (simp add: align_section_raw)
  next
    case (Suc j)
    then have "m' (seek + 40 + 40 * j + 16 + k) = align_section seek m (seek + 40 + 40 * j + 8 + k)"
      using 2(1) [OF _ run(1), of j] 2(3,4) run(2) by simp
    also have "\<dots> = m (seek + 40 + 40 * j + 8 + k)" by (rule align_section_same) simp
    finally show ?thesis using Suc by (simp add: algebra_simps)
  qed
qed simp


definition tiny_image :: image where
  "tiny_image = (\<lambda>_. 0)(0 := 0x4D, 1 := 0x5A, 0x3c := 64, 64 := 0x50, 65 := 0x45, 70 := 1, 320 := 7)"

lemma tiny_aligned:
  "align_pe (\<lambda>_ _. True) (\<lambda>_ _. True) tiny_image = (1, align_section 312 tiny_image)"
  by (simp add: align_pe_def tiny_image_def le16_def le32_def IMAGE_DOS_SIGNATURE_def IMAGE_NT_SIGNATURE_def)


section \<open>Dumping a module\<close>

record dump_answers =
  process :: "nat option"
  buffer_ok :: bool
  read_ok :: bool
  dump_file :: "nat option"
  write_ok :: bool
  dump_fd :: int

text \<open>The descriptor of the dump, negative when there is none; it owns the handle of the file.\<close>

definition dump_pe :: "dump_answers \<Rightarrow> resources \<Rightarrow> int \<times> resources" where
  "dump_pe env r =
     (case process env of
        None \<Rightarrow> (- 1, r)
      | Some hProc \<Rightarrow>
          let r = r\<lparr>handles := insert hProc (handles r)\<rparr> in
          if \<not> buffer_ok env then (- 1, r)
          else let r = r\<lparr>blocks := blocks r + 1\<rparr> in
            if \<not> read_ok env then (- 1, r\<lparr>blocks := blocks r - 1, handles := handles r - {hProc}\<rparr>)
            else let r = r\<lparr>handles := handles r - {hProc}\<rparr> in
              case dump_file env of
                None \<Rightarrow> (- 1, r\<lparr>blocks := blocks r - 1\<rparr>)
              | Some hFile \<Rightarrow>
                  let r = r\<lparr>handles := insert hFile (handles r)\<rparr>;
                      (ret, r) = (if write_ok env \<and> dump_fd env \<ge> 0
                        then (dump_fd env, r\<lparr>handles := handles r - {hFile}, fds := insert (dump_fd env) (fds r)\<rparr>)
                        else (- 1, r))
                  in (ret, r\<lparr>blocks := blocks r - 1\<rparr>))"

definition dump_fresh :: "dump_answers \<Rightarrow> resources \<Rightarrow> bool" where
  "dump_fresh env r \<longleftrightarrow> (\<forall>h. process env = Some h \<or> dump_file env = Some h \<longrightarrow> h \<notin> handles r) \<and>
     dump_fd env \<notin> fds r"

lemma dump_pe_balance:
  assumes "dump_fresh env r" "dump_pe env r = (fd, r')"
  shows "(0 \<le> fd \<longrightarrow> r' = r\<lparr>fds := insert fd (fds r)\<rparr>) \<and>
    (fd < 0 \<longrightarrow> (r' = r \<longleftrightarrow>
      process env = None \<or> buffer_ok env \<and> (\<not> read_ok env \<or> dump_file env = None)))"
proof -
  obtain F H B where r: "r = \<lparr>fds = F, handles = H, blocks = B\<rparr>" by (cases r)
  have fresh: "insert h H \<noteq> H" "insert h H - {h} = H" if "process env = Some h \<or> dump_file env = Some h" for h
    using assms(1) that by (auto simp: dump_fresh_def r)
  show ?thesis
  proof (cases "process env")
    case None
    with assms(2) show ?thesis by (auto simp: dump_pe_def)
  next
    case (Some hp)
    note p = this fresh [of hp]
    show ?thesis
    proof (cases "buffer_ok env \<and> read_ok env")
      case False
      with p assms(2) show ?thesis by (cases "buffer_ok env") (auto simp: dump_pe_def Let_def r)
    next
      case True
      show ?thesis
      proof (cases "dump_file env")
        case None
        with p True assms(2) show ?thesis by (auto simp: dump_pe_def Let_def r)
      next
        case (Some hf)
        with p True assms(2) fresh [of hf] show ?thesis
          by (cases "write_ok env \<and> 0 \<le> dump_fd env") (auto simp: dump_pe_def Let_def r)
      qed
    qed
  qed
qed

text \<open>
  A dump that fails gives its resources back in every case but two: when there is no memory
  for the image the process handle stays open, and when the file cannot be written (or attached
  to a descriptor) the file handle does. A dump that succeeds adds its descriptor alone.
\<close>

lemma dump_pe_leaks_iff:
  assumes "dump_fresh env r" "dump_pe env r = (fd, r')"
  shows "(0 \<le> fd \<longrightarrow> r' = r\<lparr>fds := insert fd (fds r)\<rparr>) \<and>
    (fd < 0 \<longrightarrow> (r' = r \<longleftrightarrow>
      process env = None \<or> buffer_ok env \<and> (\<not> read_ok env \<or> dump_file env = None)))"
  using assms by (rule dump_pe_balance)

lemma dump_pe_leaks_iff_witness:
  "snd (dump_pe \<lparr>process = Some 4, buffer_ok = False, read_ok = True, dump_file = None, write_ok = True, dump_fd = 3\<rparr>
     \<lparr>fds = {}, handles = {}, blocks = 0\<rparr>) \<noteq> \<lparr>fds = {}, handles = {}, blocks = 0\<rparr>"
proof -
  let ?env = "\<lparr>process = Some 4, buffer_ok = False, read_ok = True, dump_file = None, write_ok = True, dump_fd = 3\<rparr>"
  let ?r = "\<lparr>fds = {}, handles = {}, blocks = 0\<rparr>"
  have "dump_pe ?env ?r = (- 1, snd (dump_pe ?env ?r))" by (simp add: dump_pe_def)
  with dump_pe_leaks_iff [of ?env ?r "- 1" "snd (dump_pe ?env ?r)"] show ?thesis
    by (simp add: dump_fresh_def)
qed

section \<open>Scanning one file\<close>

datatype verdict = NOTHING_FOUND | TRUSTED | STRONG_INDICATOR | POTENTIALLY_UNWANTED

datatype effect = Killed nat | Unloaded nat nat

record conf =
  action_on :: bool
  daemon :: bool
  remove_opt :: bool
  kill_opt :: bool
  unload_opt :: bool
  exclude_opt :: bool

record scan_answers =
  source_answers :: sys_answers
  scan_fd_new :: int
  connected :: bool
  ds_result :: int
  ds_errors :: nat
  found :: verdict

record mstate =
  rsrc :: resources
  errors :: nat
  ifiles :: nat
  nfiles :: nat
  not_moved :: DWORD
  not_removed :: DWORD
  acted :: "action_source list"
  cached :: filelist
  res :: cl_error
  processes :: nat
  modules :: nat
  effects :: "effect list"

text \<open>The source for the quarantine, opened before anything is scanned.\<close>

definition open_source ::
    "conf \<Rightarrow> scan_answers \<Rightarrow> string \<Rightarrow> string option \<Rightarrow> bool \<Rightarrow> resources \<Rightarrow> cl_error \<times> action_source \<times> resources" where
  "open_source cfg env disp action_open required r =
     (if \<not> action_on cfg then (CL_SUCCESS, action_source_init, r)
      else case (case action_open of
            Some p \<Rightarrow> action_source_open_path (source_answers env) (Some disp) (Some p) (Some action_source_init) r
          | None \<Rightarrow> if required then (CL_EOPEN, Some action_source_init, r)
              else action_source_open (source_answers env) (Some disp) (Some action_source_init) r) of
          (status, src, r) \<Rightarrow> (status, (case src of Some x \<Rightarrow> x | None \<Rightarrow> action_source_init), r))"

text \<open>The scan proper: \<open>None\<close> when the daemon cannot be reached.\<close>

definition scan_contents :: "conf \<Rightarrow> scan_answers \<Rightarrow> mstate \<Rightarrow> cl_error option \<times> mstate" where
  "scan_contents cfg env s =
     (if daemon cfg then
        if \<not> connected env then (None, s\<lparr>errors := errors s + 1\<rparr>)
        else let s = s\<lparr>errors := errors s + ds_errors env\<rparr> in
          if ds_result env > 0 then (Some CL_VIRUS, s\<lparr>ifiles := ifiles s + 1\<rparr>)
          else if ds_result env < 0 \<or> ds_errors env > 0 then (Some CL_EOPEN, s)
          else (Some CL_CLEAN, s)
      else (case found env of
          NOTHING_FOUND \<Rightarrow> (Some CL_CLEAN, s)
        | TRUSTED \<Rightarrow> (Some CL_CLEAN, s)
        | STRONG_INDICATOR \<Rightarrow> (Some CL_VIRUS, s\<lparr>ifiles := ifiles s + 1\<rparr>)
        | POTENTIALLY_UNWANTED \<Rightarrow> (Some CL_VIRUS, s\<lparr>ifiles := ifiles s + 1\<rparr>)))"

definition release_source :: "action_source \<Rightarrow> mstate \<Rightarrow> mstate" where
  "release_source src s = s\<lparr>rsrc := snd (action_source_close src (rsrc s))\<rparr>"

text \<open>The scan, with a descriptor of its own unless the source lends its one.\<close>

definition scan_body :: "conf \<Rightarrow> scan_answers \<Rightarrow> bool \<Rightarrow> int \<Rightarrow> mstate \<Rightarrow> cl_error option \<times> mstate" where
  "scan_body cfg env uses fd s =
     (let s = (if uses then s else s\<lparr>rsrc := rsrc s\<lparr>fds := insert fd (fds (rsrc s))\<rparr>\<rparr>);
          (outcome, s) = scan_contents cfg env s
      in (outcome, if uses then s else s\<lparr>rsrc := close_fd fd (rsrc s)\<rparr>))"

text \<open>The scan once its source is open or known to be missing.\<close>

definition scan_tail ::
    "conf \<Rightarrow> scan_answers \<Rightarrow> bool \<Rightarrow> action_source \<Rightarrow> action_source option \<Rightarrow> cl_error option \<times> mstate \<Rightarrow>
     cl_error \<times> action_source option \<times> mstate" where
  "scan_tail cfg env have_src src d st =
     (case st of
        (None, s) \<Rightarrow> (CL_EOPEN, d, if have_src then release_source src s else s)
      | (Some status, s) \<Rightarrow>
          if status = CL_VIRUS \<and> action_on cfg then
            if have_src then
              (case d of
                 Some _ \<Rightarrow> (status, Some src, s)
               | None \<Rightarrow> (status, None, release_source src (s\<lparr>acted := acted s @ [src]\<rparr>)))
            else (status, d,
               if remove_opt cfg then s\<lparr>not_removed := not_removed s + 1\<rparr>
               else s\<lparr>not_moved := not_moved s + 1\<rparr>)
          else (status, d, if have_src then release_source src s else s))"

text \<open>\<open>d\<close> is the source the caller takes over when the file is infected, \<open>None\<close> for a null pointer.\<close>

definition scanfile ::
    "conf \<Rightarrow> scan_answers \<Rightarrow> string \<Rightarrow> string option \<Rightarrow> string option \<Rightarrow> string option \<Rightarrow> bool \<Rightarrow>
     action_source option \<Rightarrow> mstate \<Rightarrow> cl_error \<times> action_source option \<times> mstate" where
  "scanfile cfg env filename scan_open action_target action_open required d s =
     (let scan_path = (case scan_open of Some p \<Rightarrow> p | None \<Rightarrow> filename);
          disp = (case action_target of Some t \<Rightarrow> t | None \<Rightarrow> filename);
          is_target = (action_target \<in> {None, Some filename} \<and> action_open \<in> {None, Some scan_path});
          (status, src, r) = open_source cfg env disp action_open required (rsrc s);
          have_src = (action_on cfg \<and> status = CL_SUCCESS);
          s = s\<lparr>rsrc := r\<rparr>;
          uses = (have_src \<and> is_target);
          fd = (if uses then scan_fd src else scan_fd_new env)
      in if fd = - 1 then (CL_EOPEN, d, if have_src then release_source src s else s)
         else scan_tail cfg env have_src src d (scan_body cfg env uses fd s))"

text \<open>The descriptors and handles the answers name are new, and different from each other.\<close>

definition scan_fresh :: "scan_answers \<Rightarrow> resources \<Rightarrow> bool" where
  "scan_fresh env r \<longleftrightarrow> fresh (source_answers env) r \<and> scan_fd_new env \<notin> fds r \<and>
     scan_fd_new env \<noteq> new_fd (source_answers env)"

definition source_of :: "action_source \<Rightarrow> scan_answers \<Rightarrow> nat \<Rightarrow> bool" where
  "source_of src env h \<longleftrightarrow> dup_handle (source_answers env) = Some h \<and> 0 \<le> new_fd (source_answers env) \<and>
     scan_fd src = new_fd (source_answers env) \<and> handle src = Some h \<and>
     display_path src \<noteq> None \<and> action_path src \<noteq> None"

lemma open_source_owns:
  assumes "fresh (source_answers env) r" "action_on cfg"
  shows "case open_source cfg env disp p required r of (status, src, r') \<Rightarrow>
    (if status = CL_SUCCESS
     then \<exists>h. source_of src env h \<and> r' = owns (new_fd (source_answers env)) h r
     else src = action_source_init \<and> r' = r)"
proof -
  have by_path: "(case action_source_open_path (source_answers env) (Some disp) (Some q) (Some action_source_init) r of
      (status, src, r) \<Rightarrow> (status, (case src of Some x \<Rightarrow> x | None \<Rightarrow> action_source_init), r)) =
    attach_or_close (source_answers env) (action_source_set_paths (source_answers env) disp (Some q) (action_source_init, r))"
    for q by (simp add: action_source_open_path_def split: prod.splits)
  obtain q where "open_source cfg env disp p required r =
      attach_or_close (source_answers env) (action_source_set_paths (source_answers env) disp (Some q) (action_source_init, r)) \<or>
    open_source cfg env disp p required r = (CL_EOPEN, action_source_init, r)"
  proof (cases p)
    case None
    then show thesis using assms(2) that [of disp] by_path [of disp]
      by (cases required) (simp_all add: open_source_def action_source_open_def)
  next
    case (Some q)
    then show thesis using assms(2) that [of q] by_path [of q] by (simp add: open_source_def)
  qed
  then show ?thesis
    using attach_or_close_owns [OF assms(1), of disp q] by (auto simp: source_of_def)
qed

lemma release_owned:
  assumes "fresh (source_answers env) r" "source_of src env h" "rsrc s = owns (new_fd (source_answers env)) h r"
  shows "release_source src s = s\<lparr>rsrc := r\<rparr>"
  using assms close_owned [OF assms(1)] by (auto simp: source_of_def release_source_def)

lemma scan_contents_rsrc:
  "scan_contents cfg env s = (outcome, s') \<Longrightarrow> rsrc s' = rsrc s \<and> acted s' = acted s \<and> cached s' = cached s \<and>
     processes s' = processes s \<and> modules s' = modules s \<and> effects s' = effects s \<and> nfiles s' = nfiles s"
  by (auto simp: scan_contents_def Let_def split: if_splits verdict.splits)

lemma scan_contents_frame:
  "scan_contents cfg env s = (outcome, s') \<Longrightarrow> not_moved s' = not_moved s \<and> not_removed s' = not_removed s"
  by (auto simp: scan_contents_def Let_def split: if_splits verdict.splits)

lemma scan_contents_rsrc_upd:
  "scan_contents cfg env (s\<lparr>rsrc := r\<rparr>) = (case scan_contents cfg env s of (out, s') \<Rightarrow> (out, s'\<lparr>rsrc := r\<rparr>))"
  by (auto simp: scan_contents_def Let_def split: verdict.splits)

lemma scan_body_contents:
  assumes "fd \<notin> fds (rsrc s)"
  shows "scan_body cfg env uses fd s = scan_contents cfg env s"
proof (cases uses)
  case False
  obtain out s' where run: "scan_contents cfg env s = (out, s')" by (cases "scan_contents cfg env s")
  have same: "rsrc s' = rsrc s" using scan_contents_rsrc [OF run] by blast
  have "close_fd fd ((rsrc s)\<lparr>fds := insert fd (fds (rsrc s))\<rparr>) = rsrc s'"
    using assms by (simp add: close_fd_def same)
  then show ?thesis using False run by (simp add: scan_body_def scan_contents_rsrc_upd Let_def)
qed (simp add: scan_body_def split: prod.splits)

text \<open>The rest of the scan where there is no source to hand over, and where there is one.\<close>

lemma tail_without_source:
  assumes "scan_body cfg env uses fd s = scan_contents cfg env s"
    and "scan_tail cfg env False src (Some d) (scan_body cfg env uses fd s) = (status, d', s')"
  shows "d' = Some d \<and> rsrc s' = rsrc s \<and>
    (status = CL_VIRUS \<and> action_on cfg \<longrightarrow> not_moved s' \<noteq> not_moved s \<or> not_removed s' \<noteq> not_removed s)"
proof -
  obtain out t where t: "scan_contents cfg env s = (out, t)" by (cases "scan_contents cfg env s")
  have ne: "x + 1 \<noteq> x" for x :: DWORD by simp
  have "scan_tail cfg env False src (Some d) (out, t) = (status, d', s')" using assms t by simp
  with scan_contents_rsrc [OF t] scan_contents_frame [OF t] ne show ?thesis
    by (cases out) (auto simp: scan_tail_def split: if_splits)
qed

lemma tail_with_source:
  assumes "fresh (source_answers env) r" "source_of src env h" "action_on cfg"
    and "rsrc s = owns (new_fd (source_answers env)) h r"
    and "scan_body cfg env uses fd s = scan_contents cfg env s"
    and "scan_tail cfg env True src (Some d) (scan_body cfg env uses fd s) = (status, d', s')"
  shows "(d' = Some d \<and> rsrc s' = r \<and> status \<noteq> CL_VIRUS) \<or>
    (status = CL_VIRUS \<and> d' = Some src \<and> rsrc s' = owns (new_fd (source_answers env)) h r)"
proof -
  obtain out t where t: "scan_contents cfg env s = (out, t)" by (cases "scan_contents cfg env s")
  then have tr: "rsrc t = rsrc s" using scan_contents_rsrc [OF t] by simp
  have "rsrc (release_source src t) = r" using release_owned [OF assms(1,2), of t] tr assms(4) by simp
  moreover have "scan_tail cfg env True src (Some d) (out, t) = (status, d', s')" using assms(5,6) t by simp
  ultimately show ?thesis using tr assms(3,4)
    by (cases out) (auto simp: scan_tail_def split: if_splits)
qed

lemma scanfile_leak_lemma:
  assumes "scan_fresh env (rsrc s)"
    and "scanfile cfg env filename scan_open target action_open required (Some d) s = (status, d', s')"
  shows "(d' = Some d \<and> rsrc s' = rsrc s \<and>
      (status = CL_VIRUS \<and> action_on cfg \<longrightarrow> not_moved s' \<noteq> not_moved s \<or> not_removed s' \<noteq> not_removed s)) \<or>
    (status = CL_VIRUS \<and> action_on cfg \<and>
     (\<exists>src h. d' = Some src \<and> source_of src env h \<and> rsrc s' = owns (new_fd (source_answers env)) h (rsrc s)))"
proof -
  obtain st src r where op: "open_source cfg env
      (case target of Some t \<Rightarrow> t | None \<Rightarrow> filename) action_open required (rsrc s) = (st, src, r)"
    by (metis prod_cases3)
  define have_src where "have_src \<longleftrightarrow> action_on cfg \<and> st = CL_SUCCESS"
  define uses where "uses \<longleftrightarrow> have_src \<and> target \<in> {None, Some filename} \<and>
    action_open \<in> {None, Some (case scan_open of Some p \<Rightarrow> p | None \<Rightarrow> filename)}"
  define fd where "fd = (if uses then scan_fd src else scan_fd_new env)"
  have run: "(if fd = - 1 then (CL_EOPEN, Some d, if have_src then release_source src (s\<lparr>rsrc := r\<rparr>) else s\<lparr>rsrc := r\<rparr>)
       else scan_tail cfg env have_src src (Some d) (scan_body cfg env uses fd (s\<lparr>rsrc := r\<rparr>))) = (status, d', s')"
    using assms(2) by (simp only: scanfile_def op Let_def prod.case have_src_def uses_def fd_def)
  have fr: "fresh (source_answers env) (rsrc s)" using assms(1) by (simp add: scan_fresh_def)
  show ?thesis
  proof (cases have_src)
    case False
    have r: "r = rsrc s"
    proof (cases "action_on cfg")
      case True
      then have "st \<noteq> CL_SUCCESS" using False by (simp add: have_src_def)
      with op open_source_owns [OF fr True] show ?thesis by (fastforce split: prod.splits)
    qed (use op in \<open>simp add: open_source_def\<close>)
    have u: "\<not> uses" using False by (simp add: uses_def)
    then have "fd \<notin> fds (rsrc s)" using assms(1) by (simp add: scan_fresh_def fd_def)
    then have body: "scan_body cfg env uses fd s = scan_contents cfg env s" by (rule scan_body_contents)
    have "fd = - 1 \<Longrightarrow> ?thesis" using run r False by simp
    moreover have "?thesis" if "fd \<noteq> - 1"
      using tail_without_source [OF body, of src d status d' s'] run that False r by simp
    ultimately show ?thesis by blast
  next
    case True
    then obtain h where h: "source_of src env h" and r: "r = owns (new_fd (source_answers env)) h (rsrc s)"
      using op open_source_owns [OF fr, of cfg "case target of Some t \<Rightarrow> t | None \<Rightarrow> filename" action_open required]
      by (auto simp: have_src_def)
    let ?s = "s\<lparr>rsrc := r\<rparr>"
    have given: "rsrc (release_source src x) = rsrc s" if "rsrc x = r" for x
      using release_owned [OF fr h, of x] that r by simp
    have "scan_fd_new env \<notin> fds r" using assms(1) by (auto simp: scan_fresh_def r owns_def)
    then have body: "scan_body cfg env uses fd ?s = scan_contents cfg env ?s"
      by (cases uses) (simp add: scan_body_def split: prod.splits, simp add: scan_body_contents fd_def)
    have "fd = - 1 \<Longrightarrow> ?thesis" using run True given [of ?s] by simp
    moreover have "?thesis" if "fd \<noteq> - 1"
    proof -
      have on: "action_on cfg" using True by (simp add: have_src_def)
      have "scan_tail cfg env True src (Some d) (scan_body cfg env uses fd ?s) = (status, d', s')"
        using run that True by simp
      from tail_with_source [OF fr h on _ body this] r h on show ?thesis by auto
    qed
    ultimately show ?thesis by blast
  qed
qed


definition clean_scan :: scan_answers where
  "clean_scan = \<lparr>source_answers = plain_answers, scan_fd_new = 7, connected = True, ds_result = 0, ds_errors = 0,
     found = STRONG_INDICATOR\<rparr>"

definition empty_state :: mstate where
  "empty_state = \<lparr>rsrc = \<lparr>fds = {}, handles = {}, blocks = 0\<rparr>, errors = 0, ifiles = 0, nfiles = 0, not_moved = 0,
     not_removed = 0, acted = [], cached = [], res = CL_CLEAN, processes = 0, modules = 0, effects = []\<rparr>"

definition quarantine :: conf where
  "quarantine = \<lparr>action_on = True, daemon = False, remove_opt = False, kill_opt = False, unload_opt = False,
     exclude_opt = False\<rparr>"


section \<open>Stopping processes and unloading modules\<close>

definition log_effect :: "effect \<Rightarrow> mstate \<Rightarrow> mstate" where
  "log_effect e s = s\<lparr>effects := effects s @ [e]\<rparr>"

text \<open>\<open>self\<close> is the own process, \<open>opened\<close> whether the process can be opened. The result is always 1.\<close>

definition kill_process :: "nat \<Rightarrow> bool \<Rightarrow> nat \<Rightarrow> mstate \<Rightarrow> int \<times> mstate" where
  "kill_process self opened pid s =
     (if self = pid then (1, s)
      else if opened then (1, log_effect (Killed pid) s)
      else (1, s))"

datatype remote_thread = Done_in_time | Timed_out | Not_implemented | Not_created

definition unload_module :: "nat \<Rightarrow> bool \<Rightarrow> remote_thread \<Rightarrow> bool \<Rightarrow> nat \<Rightarrow> nat \<Rightarrow> mstate \<Rightarrow> int \<times> mstate" where
  "unload_module self opened thread killable pid hModule s =
     (if self = pid then (1, s)
      else if \<not> opened then (1, s)
      else case thread of
          Done_in_time \<Rightarrow> (0, log_effect (Unloaded pid hModule) s)
        | Timed_out \<Rightarrow> kill_process self killable pid (log_effect (Unloaded pid hModule) s)
        | Not_implemented \<Rightarrow> (- 1, s)
        | Not_created \<Rightarrow> (1, s))"

section \<open>Resolving a path, taking a privilege\<close>

text \<open>
  \<open>of_handle\<close> answers the path of the open file. The result has the handles left open.
\<close>

definition scanmem_resolve_action_path ::
    "string option \<Rightarrow> bool \<Rightarrow> bool \<Rightarrow> cl_error + string \<Rightarrow> cl_error \<times> string option \<times> nat" where
  "scanmem_resolve_action_path path wanted opens of_handle =
     (if path = None \<or> \<not> wanted then (CL_EARG, None, 0)
      else if \<not> opens then (CL_EOPEN, None, 0)
      else case of_handle of Inl e \<Rightarrow> (e, None, 1 - 1) | Inr p \<Rightarrow> (CL_SUCCESS, Some p, 1 - 1))"

text \<open>
  \<open>token\<close> is the error of opening the token, if any; \<open>err\<close> is the error after adjusting and closing.
\<close>

definition EnablePrivilege :: "nat option \<Rightarrow> bool \<Rightarrow> nat \<Rightarrow> bool \<times> nat" where
  "EnablePrivilege token looked_up err =
     (case token of
        Some e \<Rightarrow> (e = 120, 0)
      | None \<Rightarrow> if \<not> looked_up then (False, 1) else (err = 0, 1 - 1))"

section \<open>The callback for one module\<close>

record entry =
  th32ProcessID :: nat
  szExeFile :: string
  szModule :: string
  szExePath :: string
  hModule :: nat

record cb_answers =
  own_pid :: nat
  expands :: "string \<Rightarrow> string"
  narrowed :: bool
  resolved :: "string option"
  excluded :: "string \<Rightarrow> bool"
  is_packed :: "string \<Rightarrow> bool"
  dump_name :: string
  first_scan :: scan_answers
  second_scan :: scan_answers
  dumping :: dump_answers
  cache_memory :: bool
  can_open :: bool
  remote :: remote_thread

definition count_module :: "bool \<Rightarrow> mstate \<Rightarrow> mstate" where
  "count_module isprocess s =
     (let s = (if isprocess then s\<lparr>processes := processes s + 1\<rparr> else s\<lparr>modules := modules s + 1\<rparr>)
      in s\<lparr>nfiles := nfiles s + 1, res := CL_CLEAN\<rparr>)"

text \<open>Whether the module is excluded, the path to scan and the resolved path for the action.\<close>

definition choose_paths :: "conf \<Rightarrow> cb_answers \<Rightarrow> string \<Rightarrow> bool \<times> string \<times> string option" where
  "choose_paths cfg env name =
     (let filter_on = (daemon cfg \<or> exclude_opt cfg);
          excl = (filter_on \<and> excluded env name)
      in if action_on cfg \<and> \<not> excl then
           (case resolved env of
              Some p \<Rightarrow> (if filter_on then excluded env p else excl, p, Some p)
            | None \<Rightarrow> (excl, name, None))
         else (excl, name, None))"

text \<open>The dump of a packed module, scanned under its own name with the module as the action's target.\<close>

definition scan_dump ::
    "conf \<Rightarrow> cb_answers \<Rightarrow> string \<Rightarrow> string option \<Rightarrow> action_source \<Rightarrow> mstate \<Rightarrow> action_source \<times> mstate" where
  "scan_dump cfg env name action_open d s =
     (let (fd, r) = dump_pe (dumping env) (rsrc s); s = s\<lparr>rsrc := r\<rparr> in
      if fd > 0 then
        (let s = s\<lparr>rsrc := close_fd fd (rsrc s)\<rparr>;
             (status, d', s) = scanfile cfg (second_scan env) (dump_name env) (Some (dump_name env)) (Some name)
               action_open (action_on cfg) (Some d) s
         in (case d' of Some x \<Rightarrow> x | None \<Rightarrow> d, s\<lparr>res := status\<rparr>))
      else (d, s))"

definition scan_module :: "conf \<Rightarrow> cb_answers \<Rightarrow> string \<Rightarrow> action_source \<Rightarrow> mstate \<Rightarrow> action_source \<times> mstate" where
  "scan_module cfg env name d s =
     (let (excl, scan_path, action_open) = choose_paths cfg env name in
      if excl then (d, s)
      else
        let (status, d', s) = scanfile cfg (first_scan env) name (Some scan_path) (Some name) action_open
              (action_on cfg) (Some d) s;
            d = (case d' of Some x \<Rightarrow> x | None \<Rightarrow> d);
            s = s\<lparr>res := status\<rparr>
        in if status = CL_CLEAN \<and> is_packed env scan_path then scan_dump cfg env name action_open d s else (d, s))"

definition store_result :: "conf \<Rightarrow> cb_answers \<Rightarrow> string \<Rightarrow> mstate \<Rightarrow> mstate" where
  "store_result cfg env name s =
     (if res s = CL_CLEAN \<or> res s = CL_VIRUS \<and> \<not> action_on cfg
      then s\<lparr>cached := insert_cache (cache_memory env) (cached s) name (res s)\<rparr> else s)"

text \<open>What follows an infection: unloading, then the action on the source kept, if any.\<close>

definition act_on :: "conf \<Rightarrow> cb_answers \<Rightarrow> entry \<Rightarrow> bool \<Rightarrow> bool \<Rightarrow> action_source \<Rightarrow> mstate \<Rightarrow> int \<times> mstate" where
  "act_on cfg env m isprocess cache_hit d s =
     (if res s \<noteq> CL_VIRUS then (0, s)
      else
        let (rc, s) =
              (if isprocess \<and> kill_opt cfg then kill_process (own_pid env) (can_open env) (th32ProcessID m) s
               else if unload_opt cfg then
                 unload_module (own_pid env) (can_open env) (remote env) (can_open env) (th32ProcessID m) (hModule m) s
               else (0, s))
        in if rc = - 1 then (rc, s)
           else if action_on cfg \<and> \<not> cache_hit \<and> scan_fd d \<noteq> - 1 then (rc, s\<lparr>acted := acted s @ [d]\<rparr>)
           else (rc, s))"

definition scanmem_cb :: "conf \<Rightarrow> cb_answers \<Rightarrow> entry \<Rightarrow> mstate \<Rightarrow> int \<times> mstate" where
  "scanmem_cb cfg env m s =
     (let s = s\<lparr>res := CL_CLEAN\<rparr>;
          name = modulename (expands env) (szExePath m)
      in if \<not> narrowed env then (0, s)
      else
        let hit = lookup_cache (cached s) name;
            isprocess = (same_name (szExeFile m) name \<or> same_name (szExeFile m) (szModule m));
            s = (case hit of Some r \<Rightarrow> s\<lparr>res := r\<rparr> | None \<Rightarrow> s);
            (d, s) = (case hit of
                Some r \<Rightarrow> (action_source_init, s)
              | None \<Rightarrow>
                  let (d, s) = scan_module cfg env name action_source_init (count_module isprocess s)
                  in (d, store_result cfg env name s));
            (rc, s) = act_on cfg env m isprocess (hit \<noteq> None) d s
        in (rc, if scan_fd d \<noteq> - 1 then release_source d s else s))"

section \<open>The walk over the processes\<close>

text \<open>
  A process: \<open>mods\<close> are the modules \<open>EnumProcessModules\<close> says there are, each with its entry when
  its names and information can be read, and the answers for its callback. The array of handles has
  room for 1024; the loop goes up to the number needed, so reading behind the array is \<open>None\<close>.
\<close>

record proc =
  pid :: nat
  can_query :: bool
  enumerated :: bool
  base_name :: "string option"
  mods :: "(entry option \<times> cb_answers) list"

fun walk_mods :: "conf \<Rightarrow> nat \<Rightarrow> nat \<Rightarrow> string \<Rightarrow> (entry option \<times> cb_answers) list \<Rightarrow> mstate \<Rightarrow> mstate option" where
  "walk_mods cfg j p exe [] s = Some s"
| "walk_mods cfg j p exe ((m, env) # ms) s =
     (if \<not> j < 1024 then None
      else case m of
          None \<Rightarrow> walk_mods cfg (j + 1) p exe ms s
        | Some e \<Rightarrow>
            (case scanmem_cb cfg env (e\<lparr>th32ProcessID := p, szExeFile := exe\<rparr>) s of
               (rc, s) \<Rightarrow> if rc \<noteq> 0 then Some s else walk_mods cfg (j + 1) p exe ms s))"

fun walkmodules :: "conf \<Rightarrow> proc list \<Rightarrow> mstate \<Rightarrow> mstate option" where
  "walkmodules cfg [] s = Some s"
| "walkmodules cfg (p # ps) s =
     (if pid p = 0 \<or> \<not> can_query p \<or> \<not> enumerated p then walkmodules cfg ps s
      else case base_name p of
          None \<Rightarrow> walkmodules cfg ps s
        | Some exe \<Rightarrow>
            (case walk_mods cfg 0 (pid p) exe (mods p) s of
               None \<Rightarrow> None
             | Some s \<Rightarrow> walkmodules cfg ps s))"

text \<open>\<open>procs = None\<close> when the processes cannot be enumerated, which \<open>scanmem\<close> does not notice.\<close>

definition scanmem :: "conf \<Rightarrow> bool \<Rightarrow> proc list option \<Rightarrow> mstate \<Rightarrow> ((int + cl_error) \<times> mstate) option" where
  "scanmem cfg reached procs s =
     (let s = s\<lparr>cached := [], res := CL_CLEAN, processes := 0, modules := 0\<rparr> in
      if daemon cfg \<and> \<not> reached then Some (Inl (- 1), s\<lparr>errors := errors s + 1\<rparr>)
      else case (case procs of None \<Rightarrow> Some s | Some ps \<Rightarrow> walkmodules cfg ps s) of
          None \<Rightarrow> None
        | Some s \<Rightarrow> Some (Inr (res s), s\<lparr>cached := free_cache (cached s)\<rparr>))"

section \<open>Invariants of the walk\<close>

text \<open>What one callback must keep, and what the walk then keeps.\<close>

lemma walk_mods_invariant:
  assumes "\<And>m env s. (Some m, env) \<in> set ms \<Longrightarrow> P s \<Longrightarrow>
      P (snd (scanmem_cb cfg env (m\<lparr>th32ProcessID := p, szExeFile := exe\<rparr>) s))"
    and "walk_mods cfg j p exe ms s = Some s'" "P s"
  shows "P s'"
  using assms
proof (induction cfg j p exe ms s rule: walk_mods.induct)
  case (2 cfg j p exe m env ms s)
  show ?case
  proof (cases m)
    case None
    with 2 show ?thesis by (auto split: if_splits)
  next
    case (Some e)
    obtain rc t where t: "scanmem_cb cfg env (e\<lparr>th32ProcessID := p, szExeFile := exe\<rparr>) s = (rc, t)"
      by fastforce
    have "P t" using 2(3) [of e env s] 2(5) t Some by simp
    then show ?thesis using 2 Some t by (auto split: if_splits)
  qed
qed simp

lemma walkmodules_invariant:
  assumes "\<And>p exe m env s. p \<in> set ps \<Longrightarrow> (Some m, env) \<in> set (mods p) \<Longrightarrow> P s \<Longrightarrow>
      P (snd (scanmem_cb cfg env (m\<lparr>th32ProcessID := pid p, szExeFile := exe\<rparr>) s))"
    and "walkmodules cfg ps s = Some s'" "P s"
  shows "P s'"
  using assms
proof (induction cfg ps s rule: walkmodules.induct)
  case (2 cfg p ps s)
  show ?case
  proof (cases "pid p = 0 \<or> \<not> can_query p \<or> \<not> enumerated p \<or> base_name p = None")
    case True
    then have "walkmodules cfg ps s = Some s'" using 2(5) by (auto split: if_splits)
    with True 2(1,2) 2(4) [OF list.set_intros(2)] 2(6) show ?thesis by blast
  next
    case False
    then obtain exe where exe: "base_name p = Some exe" by blast
    with False 2(5) obtain t where t: "walk_mods cfg 0 (pid p) exe (mods p) s = Some t" "walkmodules cfg ps t = Some s'"
      by (auto split: option.splits)
    have "P t" by (rule walk_mods_invariant [where P = P, OF _ t(1) 2(6)]) (auto intro: 2(4))
    with 2(3) [OF _ exe t(1)] False 2(4) t(2) show ?thesis by auto
  qed
qed simp

text \<open>The parts of the state that scanning leaves alone.\<close>

definition kept :: "mstate \<Rightarrow> effect list \<times> action_source list \<times> filelist \<times> nat \<times> nat \<times> nat" where
  "kept s = (effects s, acted s, cached s, processes s, modules s, nfiles s)"

lemma kept_simps [simp]:
  "kept (s\<lparr>rsrc := r\<rparr>) = kept s" "kept (s\<lparr>res := x\<rparr>) = kept s" "kept (s\<lparr>not_moved := w\<rparr>) = kept s"
  "kept (s\<lparr>not_removed := w\<rparr>) = kept s" "kept (release_source d s) = kept s"
  by (simp_all add: kept_def release_source_def)

lemma scan_contents_kept: "kept (snd (scan_contents cfg env s)) = kept s"
  using scan_contents_rsrc [of cfg env s] by (cases "scan_contents cfg env s") (simp add: kept_def)

lemma scan_body_kept: "kept (snd (scan_body cfg env uses fd s)) = kept s"
  using scan_contents_kept [of cfg env s]
    scan_contents_kept [of cfg env "s\<lparr>rsrc := (rsrc s)\<lparr>fds := insert fd (fds (rsrc s))\<rparr>\<rparr>"]
  by (auto simp: scan_body_def Let_def split: prod.splits)

lemma scan_tail_kept:
  "scan_tail cfg env h src (Some d) (out, s) = (st, d', s') \<Longrightarrow> kept s' = kept s \<and> d' \<noteq> None"
  by (auto simp: scan_tail_def split: option.splits if_splits)

lemma scanfile_kept:
  assumes "scanfile cfg env f so t ao rq (Some d) s = (st, d', s')"
  shows "kept s' = kept s \<and> d' \<noteq> None"
proof -
  obtain status src r where op: "open_source cfg env (case t of Some t \<Rightarrow> t | None \<Rightarrow> f) ao rq (rsrc s) = (status, src, r)"
    by (metis prod_cases3)
  define h where "h \<longleftrightarrow> action_on cfg \<and> status = CL_SUCCESS"
  define u where "u \<longleftrightarrow> h \<and> t \<in> {None, Some f} \<and> ao \<in> {None, Some (case so of Some p \<Rightarrow> p | None \<Rightarrow> f)}"
  define fd where "fd = (if u then scan_fd src else scan_fd_new env)"
  obtain out b where b: "scan_body cfg env u fd (s\<lparr>rsrc := r\<rparr>) = (out, b)" by fastforce
  have "(if fd = - 1 then (CL_EOPEN, Some d, if h then release_source src (s\<lparr>rsrc := r\<rparr>) else s\<lparr>rsrc := r\<rparr>)
       else scan_tail cfg env h src (Some d) (out, b)) = (st, d', s')"
    unfolding b [symmetric]
    using assms by (simp only: scanfile_def op Let_def prod.case h_def u_def fd_def)
  moreover have "kept b = kept s" using scan_body_kept [of cfg env u fd "s\<lparr>rsrc := r\<rparr>"] b by simp
  ultimately show ?thesis
    using scan_tail_kept [of cfg env h src d out b st d' s'] by (auto split: if_splits)
qed

lemma scan_dump_kept: "scan_dump cfg env n ao d s = (d', s') \<Longrightarrow> kept s' = kept s"
  by (auto simp: scan_dump_def Let_def split: prod.splits if_splits dest!: scanfile_kept)

lemma scan_module_kept: "scan_module cfg env n d s = (d', s') \<Longrightarrow> kept s' = kept s"
  by (auto simp: scan_module_def Let_def split: prod.splits if_splits dest!: scanfile_kept scan_dump_kept)

definition victim :: "effect \<Rightarrow> nat" where
  "victim e = (case e of Killed p \<Rightarrow> p | Unloaded p _ \<Rightarrow> p)"

lemma act_on_effects:
  "act_on cfg env m ip hit d s = (rc, s') \<Longrightarrow>
   (\<exists>es. effects s' = effects s @ es \<and> (\<forall>e\<in>set es. victim e = th32ProcessID m \<and> victim e \<noteq> own_pid env)) \<and>
   cached s' = cached s \<and> res s' = res s \<and> rsrc s' = rsrc s \<and>
   (acted s' = acted s \<or> res s = CL_VIRUS \<and> action_on cfg \<and> \<not> hit \<and> scan_fd d \<noteq> - 1 \<and> acted s' = acted s @ [d])"
  by (auto simp: act_on_def kill_process_def unload_module_def log_effect_def victim_def
      split: if_splits remote_thread.splits prod.splits)

lemma release_source_fields [simp]:
  "effects (release_source d s) = effects s" "cached (release_source d s) = cached s"
  "acted (release_source d s) = acted s" "res (release_source d s) = res s"
  by (simp_all add: release_source_def)

text \<open>The callback by cases: no narrow name, a cached result, a module scanned now.\<close>

lemma scanmem_cb_cases:
  assumes "scanmem_cb cfg env m s = (rc, s')"
  obtains "s' = s\<lparr>res := CL_CLEAN\<rparr>" "rc = 0"
  | r ip where "act_on cfg env m ip True action_source_init (s\<lparr>res := r\<rparr>) = (rc, s')"
      "lookup_cache (cached s) (modulename (expands env) (szExePath m)) = Some r"
  | ip d t u where "scan_module cfg env (modulename (expands env) (szExePath m)) action_source_init
        (count_module ip (s\<lparr>res := CL_CLEAN\<rparr>)) = (d, t)"
      "act_on cfg env m ip False d (store_result cfg env (modulename (expands env) (szExePath m)) t) = (rc, u)"
      "s' = (if scan_fd d \<noteq> - 1 then release_source d u else u)"
proof (cases "narrowed env")
  case False
  then show thesis using assms that(1) by (simp add: scanmem_cb_def)
next
  case True
  let ?n = "modulename (expands env) (szExePath m)"
  let ?ip = "same_name (szExeFile m) ?n \<or> same_name (szExeFile m) (szModule m)"
  show thesis
  proof (cases "lookup_cache (cached s) ?n")
    case (Some r)
    obtain rc' u where u: "act_on cfg env m ?ip True action_source_init (s\<lparr>res := r\<rparr>) = (rc', u)" by fastforce
    then have "rc' = rc" "u = s'"
      using assms True Some by (simp_all add: scanmem_cb_def Let_def action_source_init_def)
    with that(2) u Some show thesis by blast
  next
    case None
    obtain d t where t: "scan_module cfg env ?n action_source_init (count_module ?ip (s\<lparr>res := CL_CLEAN\<rparr>)) = (d, t)"
      by fastforce
    obtain rc' u where u: "act_on cfg env m ?ip False d (store_result cfg env ?n t) = (rc', u)" by fastforce
    have "rc' = rc" "s' = (if scan_fd d \<noteq> - 1 then release_source d u else u)"
      using assms True None t u by (simp_all add: scanmem_cb_def Let_def)
    with that(3) t u show thesis by blast
  qed
qed

text \<open>With an action configured only clean results are cached.\<close>

definition cache_ok :: "conf \<Rightarrow> filelist \<Rightarrow> bool" where
  "cache_ok cfg c \<longleftrightarrow> (\<forall>(n, r) \<in> set c. r = CL_CLEAN \<or> r = CL_VIRUS \<and> \<not> action_on cfg)"

lemma store_result_ok: "cache_ok cfg (cached t) \<Longrightarrow> cache_ok cfg (cached (store_result cfg env n t))"
  by (auto simp: store_result_def cache_ok_def insert_cache_def)

lemma count_module_fields [simp]:
  "effects (count_module ip s) = effects s" "cached (count_module ip s) = cached s"
  "acted (count_module ip s) = acted s" "rsrc (count_module ip s) = rsrc s"
  by (simp_all add: count_module_def Let_def)

lemma store_result_fields [simp]:
  "effects (store_result cfg env n t) = effects t" "acted (store_result cfg env n t) = acted t"
  "rsrc (store_result cfg env n t) = rsrc t" "res (store_result cfg env n t) = res t"
  by (simp_all add: store_result_def)

definition spares :: "nat \<Rightarrow> mstate \<Rightarrow> bool" where
  "spares self s \<longleftrightarrow> (\<forall>e \<in> set (effects s). victim e \<noteq> self)"

lemma scanmem_cb_safe:
  assumes "scanmem_cb cfg env m s = (rc, s')" "cache_ok cfg (cached s)" "spares (own_pid env) s"
  shows "cache_ok cfg (cached s') \<and> spares (own_pid env) s'"
  using assms(1)
proof (cases rule: scanmem_cb_cases)
  case 1
  then show ?thesis using assms by (simp add: spares_def)
next
  case (2 r ip)
  with act_on_effects [OF 2(1)] show ?thesis using assms by (auto simp: spares_def)
next
  case (3 ip d t u)
  have "effects t = effects s" "cached t = cached s" using scan_module_kept [OF 3(1)] by (simp_all add: kept_def)
  with act_on_effects [OF 3(2)] store_result_ok [of cfg t] assms 3(3) show ?thesis
    by (auto simp: spares_def)
qed

section \<open>The resources of the walk\<close>

definition cb_fresh :: "cb_answers \<Rightarrow> resources \<Rightarrow> bool" where
  "cb_fresh env r \<longleftrightarrow> scan_fresh (first_scan env) r \<and> scan_fresh (second_scan env) r \<and> dump_fresh (dumping env) r \<and>
     (process (dumping env) = None \<or> buffer_ok (dumping env) \<and>
       (\<not> read_ok (dumping env) \<or> dump_file (dumping env) = None \<or> write_ok (dumping env) \<and> dump_fd (dumping env) > 0))"

text \<open>Either everything is given back, or the source to act on is all that is held.\<close>

definition holding :: "conf \<Rightarrow> cb_answers \<Rightarrow> resources \<Rightarrow> action_source \<Rightarrow> mstate \<Rightarrow> bool" where
  "holding cfg env r d t \<longleftrightarrow> d = action_source_init \<and> rsrc t = r \<or>
     (\<exists>e \<in> {first_scan env, second_scan env}. \<exists>h. source_of d e h \<and> rsrc t = owns (new_fd (source_answers e)) h r)"

lemma dump_balanced:
  assumes "cb_fresh env r" "dump_pe (dumping env) r = (fd, r')"
  shows "fd \<le> 0 \<longrightarrow> r' = r" "fd > 0 \<longrightarrow> close_fd fd r' = r"
proof -
  have leaks: "(0 \<le> fd \<longrightarrow> r' = r\<lparr>fds := insert fd (fds r)\<rparr>) \<and> (fd < 0 \<longrightarrow> (r' = r \<longleftrightarrow>
      process (dumping env) = None \<or> buffer_ok (dumping env) \<and>
        (\<not> read_ok (dumping env) \<or> dump_file (dumping env) = None)))"
    using assms by (intro dump_pe_balance) (simp_all add: cb_fresh_def)
  have neg: "fd < 0 \<or> fd = dump_fd (dumping env) \<and> fd > 0 \<and> fd \<notin> fds r"
    "fd < 0 \<longrightarrow> process (dumping env) = None \<or> buffer_ok (dumping env) \<and> (\<not> read_ok (dumping env) \<or> dump_file (dumping env) = None)"
    using assms by (auto simp: cb_fresh_def dump_fresh_def dump_pe_def Let_def split: option.splits if_splits)
  show "fd \<le> 0 \<longrightarrow> r' = r" "fd > 0 \<longrightarrow> close_fd fd r' = r"
    using leaks neg by (auto simp: close_fd_def)
qed

lemma scanfile_holding:
  assumes "scan_fresh e (rsrc s)" "scanfile cfg e f so t ao rq (Some action_source_init) s = (st, d', s')"
    and "e \<in> {first_scan env, second_scan env}"
  shows "holding cfg env (rsrc s) (the d') s' \<and> (st = CL_CLEAN \<longrightarrow> d' = Some action_source_init \<and> rsrc s' = rsrc s)"
  using scanfile_leak_lemma [OF assms(1,2)] assms(3) by (auto simp: holding_def)

lemma holding_res [simp]: "holding cfg env r d (t\<lparr>res := x\<rparr>) = holding cfg env r d t"
  by (simp add: holding_def)

lemma scan_dump_holding:
  assumes "cb_fresh env (rsrc s)" "scan_dump cfg env n ao action_source_init s = (d', s')"
  shows "holding cfg env (rsrc s) d' s'"
proof -
  obtain fd r where run: "dump_pe (dumping env) (rsrc s) = (fd, r)" by fastforce
  note bal = dump_balanced [OF assms(1) run]
  show ?thesis
  proof (cases "fd > 0")
    case True
    let ?s = "s\<lparr>rsrc := close_fd fd r\<rparr>"
    have r: "rsrc ?s = rsrc s" using bal True by simp
    obtain st d2 s2 where sc: "scanfile cfg (second_scan env) (dump_name env) (Some (dump_name env)) (Some n) ao
        (action_on cfg) (Some action_source_init) ?s = (st, d2, s2)" by (metis prod_cases3)
    have "scan_fresh (second_scan env) (rsrc ?s)" using assms(1) r by (simp add: cb_fresh_def)
    from scanfile_holding [OF this sc, of env] have "holding cfg env (rsrc s) (the d2) s2" using r by simp
    moreover have "d2 \<noteq> None" using scanfile_kept [OF sc] by simp
    ultimately show ?thesis
      using assms(2) True run sc by (auto simp: scan_dump_def Let_def split: option.splits)
  next
    case False
    with bal assms(2) run show ?thesis by (simp add: scan_dump_def holding_def)
  qed
qed

lemma scan_module_holding:
  assumes "cb_fresh env (rsrc s)" "scan_module cfg env n action_source_init s = (d', s')"
  shows "holding cfg env (rsrc s) d' s'"
proof -
  obtain excl sp ao where ch: "choose_paths cfg env n = (excl, sp, ao)" by (metis prod_cases3)
  obtain st d2 s2 where sc: "scanfile cfg (first_scan env) n (Some sp) (Some n) ao (action_on cfg)
      (Some action_source_init) s = (st, d2, s2)" by (metis prod_cases3)
  have fr: "scan_fresh (first_scan env) (rsrc s)" using assms(1) by (simp add: cb_fresh_def)
  note h = scanfile_holding [OF fr sc, of env]
  obtain d where d: "d2 = Some d" using scanfile_kept [OF sc] by auto
  show ?thesis
  proof (cases "\<not> excl \<and> st = CL_CLEAN \<and> is_packed env sp")
    case True
    then have "d = action_source_init" "rsrc s2 = rsrc s" using h d by simp_all
    moreover from this have "scan_dump cfg env n ao action_source_init (s2\<lparr>res := st\<rparr>) = (d', s')"
      using assms(2) True ch sc d by (simp add: scan_module_def Let_def)
    ultimately show ?thesis using scan_dump_holding [of env "s2\<lparr>res := st\<rparr>"] assms(1) by simp
  next
    case False
    then show ?thesis
      using assms(2) ch sc d h by (auto simp: scan_module_def Let_def holding_def split: if_splits)
  qed
qed

lemma scanmem_cb_balanced:
  assumes "scanmem_cb cfg env m s = (rc, s')" "cb_fresh env (rsrc s)"
  shows "rsrc s' = rsrc s"
  using assms(1)
proof (cases rule: scanmem_cb_cases)
  case (2 r ip)
  then show ?thesis using act_on_effects [OF 2(1)] by simp
next
  case (3 ip d t u)
  have "holding cfg env (rsrc s) d t"
    using scan_module_holding [OF _ 3(1)] assms(2) by simp
  moreover have u: "rsrc u = rsrc t" using act_on_effects [OF 3(2)] by simp
  moreover have "snd (action_source_close d (owns (new_fd (source_answers e)) h (rsrc s))) = rsrc s \<and> scan_fd d \<noteq> - 1"
    if "e \<in> {first_scan env, second_scan env}" "source_of d e h" for e h
  proof -
    have "fresh (source_answers e) (rsrc s)" using assms(2) that(1) by (auto simp: cb_fresh_def scan_fresh_def)
    then show ?thesis using that(2) close_owned by (fastforce simp: source_of_def)
  qed
  ultimately show ?thesis
    using 3(3) by (fastforce simp: holding_def release_source_def action_source_init_def)
qed simp


text \<open>
  The walk over the modules of a process reads behind the array of 1024 handles exactly when it
  gets that far: it returns for every process of at most 1024 modules, and a process with more, none
  of which stops the walk, makes it read outside.
\<close>

lemma walk_mods_bounds:
  "(length ms \<le> 1024 - j \<longrightarrow> walk_mods cfg j p exe ms s \<noteq> None) \<and>
   (j \<le> 1024 \<and> length ms > 1024 - j \<and> (\<forall>(m, env) \<in> set ms. m = None) \<longrightarrow> walk_mods cfg j p exe ms s = None)"
proof (induction cfg j p exe ms s rule: walk_mods.induct)
  case (2 cfg j p exe m env ms s)
  show ?case
  proof (cases m)
    case None
    with 2(1) show ?thesis by (cases "j < 1024") auto
  next
    case (Some e)
    obtain rc t where t: "scanmem_cb cfg env (e\<lparr>th32ProcessID := p, szExeFile := exe\<rparr>) s = (rc, t)"
      by fastforce
    with 2(2) [of e rc t] Some show ?thesis by (cases "j < 1024") auto
  qed
qed simp

definition plain_cb :: "verdict \<Rightarrow> cb_answers" where
  "plain_cb v = \<lparr>own_pid = 1, expands = id, narrowed = True, resolved = None, excluded = (\<lambda>_. False),
     is_packed = (\<lambda>_. False), dump_name = ''d'',
     first_scan = clean_scan\<lparr>found := v\<rparr>, second_scan = clean_scan,
     dumping = \<lparr>process = None, buffer_ok = True, read_ok = True, dump_file = None, write_ok = True, dump_fd = 8\<rparr>,
     cache_memory = True, can_open = True, remote = Done_in_time\<rparr>"

definition plain_entry :: "string \<Rightarrow> entry" where
  "plain_entry n = \<lparr>th32ProcessID = 0, szExeFile = [], szModule = n, szExePath = n, hModule = 3\<rparr>"

definition two_modules :: "proc list" where
  "two_modules = [\<lparr>pid = 4, can_query = True, enumerated = True, base_name = Some ''x'',
     mods = [(Some (plain_entry ''bad''), plain_cb STRONG_INDICATOR), (Some (plain_entry ''good''), plain_cb NOTHING_FOUND)]\<rparr>]"

definition report_only :: conf where
  "report_only = quarantine\<lparr>action_on := False\<rparr>"

lemmas scanmem_eval = scanmem_cb_def modulename_def MAX_PATH_def plain_cb_def plain_entry_def scan_module_def
  choose_paths_def scanfile_def open_source_def scan_body_def scan_contents_def scan_tail_def clean_scan_def
  store_result_def act_on_def count_module_def insert_cache_def same_name_def lower_def close_fd_def
  action_source_init_def report_only_def quarantine_def empty_state_def plain_answers_def Let_def

lemma walk_two_modules:
  "\<exists>s'. walkmodules report_only two_modules empty_state = Some s' \<and> ifiles s' = 1 \<and> res s' = CL_CLEAN"
  by (simp add: two_modules_def scanmem_eval)

lemma walk_mods_bounds_witness:
  "walk_mods report_only 0 4 ''x'' (replicate 1025 (None, plain_cb TRUSTED)) empty_state = None"
proof -
  have "\<forall>(m, env) \<in> set (replicate 1025 (None, plain_cb TRUSTED)). (m :: entry option) = None"
    by (auto simp: in_set_replicate)
  then show ?thesis
    using walk_mods_bounds [of "replicate 1025 (None, plain_cb TRUSTED)" 0 report_only 4 "''x''" empty_state] by simp
qed

text \<open>
  The result of a memory scan is that of the last module alone: a scan can find an infected
  module, count it, and still return that everything is clean.
\<close>

lemma scanmem_result_is_last:
  "\<exists>ps s'. scanmem report_only True (Some ps) empty_state = Some (Inr CL_CLEAN, s') \<and> ifiles s' = 1"
proof -
  have "empty_state\<lparr>cached := [], res := CL_CLEAN, processes := 0, modules := 0\<rparr> = empty_state"
    by (simp add: empty_state_def)
  with walk_two_modules show ?thesis
    by (intro exI [of _ two_modules]) (auto simp: scanmem_def Let_def report_only_def quarantine_def)
qed


end
