(* ===== verification/FinalPath.thy ===== *)
theory FinalPath
  imports Prelude
begin

text \<open>
  Model of \<open>src/legacy/shared/getfinalpathnamebyhandlew.c\<close>: \<open>GetFinalPathNameByHandleW\<close> for systems
  that lack it, and its helpers. Strings are lists of 16-bit characters without their terminator.
  The heap blocks and device handles alive are counted, so that every path can be checked for
  leaks. System calls, \<open>GetLongPathNameW\<close> and the allocations (numbered by the place they are
  made at) answer as the environment says.
\<close>

section \<open>The environment\<close>

definition FILE_NAME_OPENED :: DWORD where "FILE_NAME_OPENED = 8"
definition VOLUME_NAME_GUID :: DWORD where "VOLUME_NAME_GUID = 1"
definition VOLUME_NAME_NT :: DWORD where "VOLUME_NAME_NT = 2"
definition VOLUME_NAME_NONE :: DWORD where "VOLUME_NAME_NONE = 4"

lemmas path_flags = FILE_NAME_OPENED_def VOLUME_NAME_GUID_def VOLUME_NAME_NT_def VOLUME_NAME_NONE_def

datatype nt_status = Success | Overflow | Failure nat

text \<open>A query with a buffer of a given size: its status, the size it reports, and the name.\<close>

type_synonym name_query = "nat \<Rightarrow> nt_status \<times> nat \<times> wstring"

text \<open>
  The answers of the system. \<open>mount_points\<close> and \<open>dos_path\<close> answer one control request with an output
  buffer of the given size: the error or the data, and the size the buffer reports. The error
  the thread has when a request is first made is \<open>stale_error\<close>, and a request that succeeds turns
  the error \<open>e\<close> into \<open>error_after e\<close>, which is \<open>e\<close> itself where success does not set it.
\<close>

record drive =
  letter :: WCHAR
  target :: "wstring option"
  remote_drive :: bool

record genv =
  major_version :: nat
  mem :: "nat \<Rightarrow> bool"
  object_name :: name_query
  file_name :: name_query
  normalized_name :: name_query
  mount_manager :: bool
  mount_points :: "nat \<Rightarrow> (nat + wstring list) \<times> nat"
  dos_path :: "wstring \<Rightarrow> nat \<Rightarrow> (nat + wstring) \<times> nat"
  stale_error :: nat
  error_after :: "nat \<Rightarrow> nat"
  drives :: "drive list option"
  long_path :: "wstring \<Rightarrow> nat \<Rightarrow> nat \<times> wstring"

text \<open>The blocks and the device handles alive.\<close>

record counts =
  live :: nat
  devices :: nat

definition gained :: "nat \<Rightarrow> counts \<Rightarrow> counts" where
  "gained n c = c\<lparr>live := live c + n\<rparr>"

definition freed :: "nat \<Rightarrow> counts \<Rightarrow> counts" where
  "freed n c = c\<lparr>live := live c - n\<rparr>"

section \<open>The helpers\<close>

text \<open>
  The two loops that ask for a name with growing buffers; the block of the name is alive when they
  succeed. \<open>header\<close> is what the next size adds to the size reported. \<open>None\<close> is not returning.
\<close>

partial_function (option) query_name :: "name_query \<Rightarrow> bool \<Rightarrow> nat \<Rightarrow> nat \<Rightarrow> (nat + wstring) option" where
  "query_name q memory header n =
     (if \<not> memory then Some (Inl ERROR_NO_SYSTEM_RESOURCES)
      else case q n of
          (Overflow, len, name) \<Rightarrow> query_name q memory header (len + header)
        | (Failure e, len, name) \<Rightarrow> Some (Inl e)
        | (Success, len, name) \<Rightarrow> Some (Inr name))"

text \<open>On 64-bit systems an \<open>OBJECT_NAME_INFORMATION\<close> has 16 bytes, a \<open>FILE_NAME_INFORMATION\<close> 8.\<close>

definition BasepGetObjectNTName :: "genv \<Rightarrow> counts \<Rightarrow> ((nat + wstring) \<times> counts) option" where
  "BasepGetObjectNTName env c =
     map_option (\<lambda>r. (r, case r of Inl e \<Rightarrow> c | Inr n \<Rightarrow> gained 1 c))
       (query_name (object_name env) (mem env 0) 0 (16 + 260 * 2))"

definition BasepGetFileNameInformation :: "name_query \<Rightarrow> bool \<Rightarrow> counts \<Rightarrow> ((nat + wstring) \<times> counts) option" where
  "BasepGetFileNameInformation q memory c =
     map_option (\<lambda>r. (r, case r of Inl e \<Rightarrow> c | Inr n \<Rightarrow> gained 1 c))
       (query_name q memory 8 (8 + 260 * 2))"

text \<open>
  The loop around \<open>DeviceIoControl\<close>: another, larger buffer for as long as \<open>GetLastError\<close> is
  \<open>ERROR_MORE_DATA\<close>, whether the request has succeeded or not. \<open>header\<close> is what the next size adds
  to the size reported.
\<close>

partial_function (option) device_loop ::
    "(nat \<Rightarrow> nat) \<Rightarrow> (nat \<Rightarrow> (nat + 'a) \<times> nat) \<Rightarrow> bool \<Rightarrow> nat \<Rightarrow> nat \<Rightarrow> nat \<Rightarrow> (nat + 'a) option" where
  "device_loop after io memory header e n =
     (if \<not> memory then Some (Inl ERROR_NOT_ENOUGH_MEMORY)
      else case io n of (r, reported) \<Rightarrow>
        let e = (case r of Inl e' \<Rightarrow> e' | Inr _ \<Rightarrow> after e)
        in if e = ERROR_MORE_DATA then device_loop after io memory header e (reported + header)
           else Some r)"

text \<open>\<open>MOUNTMGR_IS_VOLUME_NAME2\<close>: the length is in bytes, the braces and dashes are at fixed places.\<close>

definition is_volume_name :: "wstring \<Rightarrow> bool" where
  "is_volume_name s \<longleftrightarrow>
     (length s = 48 \<or> length s = 49 \<and> s ! 48 = backslash) \<and>
     s ! 0 = backslash \<and> (s ! 1 = 63 \<or> s ! 1 = backslash) \<and> s ! 2 = 63 \<and> s ! 3 = backslash \<and>
     take 7 (drop 4 s) = W ''Volume{'' \<and>
     s ! 19 = 45 \<and> s ! 24 = 45 \<and> s ! 29 = 45 \<and> s ! 34 = 45 \<and> s ! 47 = 125"

text \<open>
  The loop over the mount points: the name found last, if any, and the counts. Every volume name
  is allocated, also after one has been found; the allocation of point \<open>i\<close> is number \<open>100 + i\<close>.
\<close>

fun pick_volume :: "genv \<Rightarrow> nat \<Rightarrow> wstring list \<Rightarrow> bool \<times> wstring option \<times> counts \<Rightarrow> bool \<times> wstring option \<times> counts" where
  "pick_volume env i [] st = st"
| "pick_volume env i (p # ps) (found, v, c) =
     (if \<not> is_volume_name p then pick_volume env (i + 1) ps (found, v, c)
      else if \<not> mem env (100 + i) then (found, None, c)
      else pick_volume env (i + 1) ps (True, Some (p[1 := backslash]), gained 1 c))"

definition volume_of_points :: "genv \<Rightarrow> counts \<Rightarrow> nat + wstring list \<Rightarrow> (nat + wstring option) \<times> counts" where
  "volume_of_points env c r =
     (case r of
        Inl e \<Rightarrow> (Inl e, c)
      | Inr ps \<Rightarrow>
          (case pick_volume env 0 ps (False, None, c) of
             (found, v, c) \<Rightarrow> if found then (Inr v, c) else (Inl ERROR_NOT_SUPPORTED, c)))"

text \<open>The first buffer has room for ten mount points of 24 bytes each with a name of 40 bytes.\<close>

definition BasepGetVolumeGUIDFromNTName ::
    "genv \<Rightarrow> wstring \<Rightarrow> counts \<Rightarrow> ((nat + wstring option) \<times> counts) option" where
  "BasepGetVolumeGUIDFromNTName env src c =
     (if major_version env < 5 then Some (Inl ERROR_NOT_SUPPORTED, c)
      else if \<not> mount_manager env then Some (Inl ERROR_NOT_SUPPORTED, c)
      else if \<not> mem env 1 then Some (Inl ERROR_NOT_ENOUGH_MEMORY, c)
      else map_option (volume_of_points env c)
        (device_loop (error_after env) (mount_points env) (mem env 2) 24 (stale_error env) (32 + 10 * (40 + 24))))"

definition UncPath :: "genv \<Rightarrow> counts \<Rightarrow> (nat + wstring option) \<times> counts" where
  "UncPath env c =
     (if mem env 3 then (Inr (Some ([backslash, backslash, 63, backslash] @ W ''UNC'')), gained 1 c)
      else (Inl ERROR_NOT_ENOUGH_MEMORY, c))"

definition dos_letter :: "genv \<Rightarrow> WCHAR \<Rightarrow> counts \<Rightarrow> (nat + wstring option) \<times> counts" where
  "dos_letter env l c =
     (if mem env 4 then (Inr (Some [backslash, backslash, 63, backslash, l, 58]), gained 1 c)
      else (Inl ERROR_NOT_ENOUGH_MEMORY, c))"

definition lanman :: wstring where
  "lanman = [backslash] @ W ''Device'' @ [backslash] @ W ''LanmanRedirector'' @ [backslash] @ W '';''"

definition contains :: "wstring \<Rightarrow> wstring \<Rightarrow> bool" where
  "contains s t \<longleftrightarrow> list_ex (\<lambda>i. take (length t) (drop i s) = t) [0..<Suc (length s)]"

text \<open>Whether a drive matches the device, and whether it is a remote one.\<close>

definition drive_match :: "wstring \<Rightarrow> wstring \<Rightarrow> drive \<Rightarrow> bool option" where
  "drive_match src fileName d =
     (case target d of
        None \<Rightarrow> None
      | Some dev \<Rightarrow>
          if take (length src) dev \<noteq> src then None
          else if contains dev lanman then
            (if length dev > 28 \<and> dev ! 26 = letter d \<and> dev ! 27 = 58 then
               (let p = dropWhile (\<lambda>ch. ch \<noteq> backslash) (drop 28 dev)
                in if p \<noteq> [] \<and> take (length p) fileName = p then Some True else None)
             else None)
          else Some (remote_drive d))"

fun match_drives :: "genv \<Rightarrow> wstring \<Rightarrow> wstring \<Rightarrow> drive list \<Rightarrow> counts \<Rightarrow> (nat + wstring option) \<times> counts" where
  "match_drives env src fileName [] c = UncPath env c"
| "match_drives env src fileName (d # ds) c =
     (case drive_match src fileName d of
        None \<Rightarrow> match_drives env src fileName ds c
      | Some True \<Rightarrow> UncPath env c
      | Some False \<Rightarrow> dos_letter env (letter d) c)"

definition BasepGetVolumeDosLetterNameFromNTNameAndFileName ::
    "genv \<Rightarrow> wstring \<Rightarrow> wstring \<Rightarrow> counts \<Rightarrow> (nat + wstring option) \<times> counts" where
  "BasepGetVolumeDosLetterNameFromNTNameAndFileName env src fileName c =
     (case drives env of
        None \<Rightarrow> (Inl ERROR_BUFFER_OVERFLOW, c)
      | Some ds \<Rightarrow> match_drives env src fileName ds c)"

definition is_alpha :: "WCHAR \<Rightarrow> bool" where
  "is_alpha ch \<longleftrightarrow> 97 \<le> lower_w ch \<and> lower_w ch \<le> 122"

definition prefixed_path :: "counts \<Rightarrow> nat + wstring \<Rightarrow> (nat + wstring option) \<times> counts" where
  "prefixed_path c r =
     (case r of
        Inl e \<Rightarrow> (Inl e, c)
      | Inr v \<Rightarrow>
          if is_volume_name v then (Inl ERROR_PATH_NOT_FOUND, c)
          else (Inr (Some ([backslash, backslash, 63, backslash] @ v)), gained 1 c))"

definition BasepGetVolumeDosLetterNameFromNTName ::
    "genv \<Rightarrow> wstring \<Rightarrow> counts \<Rightarrow> ((nat + wstring option) \<times> counts) option" where
  "BasepGetVolumeDosLetterNameFromNTName env src c =
     (if same_start src ([backslash] @ W ''Device'' @ [backslash] @ W ''Mup'') then Some (UncPath env c)
      else if same_start src [backslash, 63, 63, backslash] \<and> length src = 6 \<and> src ! 5 = 58 \<and> is_alpha (src ! 4)
      then Some (dos_letter env (src ! 4) c)
      else if major_version env < 5 then Some (Inl ERROR_NOT_SUPPORTED, c)
      else if \<not> mount_manager env then Some (Inl ERROR_NOT_SUPPORTED, c)
      else if \<not> mem env 5 then Some (Inl ERROR_NOT_ENOUGH_MEMORY, c\<lparr>devices := devices c + 1\<rparr>)
      else map_option (prefixed_path c)
        (device_loop (error_after env) (dos_path env src) (mem env 6) 16 (stale_error env) (16 + 260 * 2)))"

section \<open>The function\<close>

datatype volume_type = Type_GUID | Type_NT | Type_DOS

text \<open>A flag outside the four known ones, or more than one volume flag, is an error.\<close>

definition volume_type_of :: "DWORD \<Rightarrow> volume_type option" where
  "volume_type_of dwFlags =
     (let has = (\<lambda>f. dwFlags AND f \<noteq> 0);
          n = (if has VOLUME_NAME_GUID then 1 else 0) + (if has VOLUME_NAME_NT then 1 else 0) +
              (if has VOLUME_NAME_NONE then 1 else 0) :: nat
      in if dwFlags AND NOT (FILE_NAME_OPENED OR VOLUME_NAME_GUID OR VOLUME_NAME_NONE OR VOLUME_NAME_NT) \<noteq> 0 then None
         else if n > 1 then None
         else if has VOLUME_NAME_NONE then Some Type_DOS
         else if has VOLUME_NAME_NT then Some Type_NT
         else if has VOLUME_NAME_GUID then Some Type_GUID
         else Some Type_DOS)"

text \<open>The volume name and what is left of the object name, which the volume name may take over.\<close>

definition volume_name ::
    "genv \<Rightarrow> volume_type \<Rightarrow> wstring \<Rightarrow> wstring \<Rightarrow> counts \<Rightarrow>
     ((nat + wstring option \<times> wstring option) \<times> counts) option" where
  "volume_name env vt nt fileName c =
     (case vt of
        Type_GUID \<Rightarrow>
          (case BasepGetVolumeGUIDFromNTName env nt c of
             None \<Rightarrow> None
           | Some (Inl e, c) \<Rightarrow> Some (Inl (if e = ERROR_INVALID_FUNCTION then ERROR_PATH_NOT_FOUND else e), c)
           | Some (Inr v, c) \<Rightarrow> Some (Inr (v, Some nt), c))
      | Type_NT \<Rightarrow> Some (Inr (Some nt, None), c)
      | Type_DOS \<Rightarrow>
          (case BasepGetVolumeDosLetterNameFromNTName env nt c of
             None \<Rightarrow> None
           | Some (Inr v, c) \<Rightarrow> Some (Inr (v, Some nt), c)
           | Some (Inl e, c) \<Rightarrow>
               if e \<noteq> ERROR_INVALID_FUNCTION \<and> e \<noteq> ERROR_NOT_SUPPORTED then Some (Inl e, c)
               else (case BasepGetVolumeDosLetterNameFromNTNameAndFileName env nt fileName c of
                       (Inl e, c) \<Rightarrow> Some (Inl e, c)
                     | (Inr v, c) \<Rightarrow> Some (Inr (v, Some nt), c))))"

datatype norm = Abandon nat | Too_long nat | Go_on | Out_of_bounds

definition owned :: "'a option \<Rightarrow> nat" where
  "owned x = (case x of None \<Rightarrow> 0 | Some _ \<Rightarrow> 1)"

text \<open>
  Normalising without the information class for it, once the source is known: the long path of the
  source and the file name is computed in a block of its own. \<open>Abandon 0\<close> leaves the error that
  \<open>GetLongPathNameW\<close> has set. A null source, and a long path too short for the source to be cut
  off, read or write out of bounds.
\<close>

definition normalise_from ::
    "genv \<Rightarrow> wstring option \<Rightarrow> wstring option \<Rightarrow> wstring \<Rightarrow> counts \<Rightarrow> norm \<times> counts" where
  "normalise_from env vol dest fileName c =
     (case (case dest of Some d \<Rightarrow> Some d | None \<Rightarrow> vol) of
        None \<Rightarrow> (Out_of_bounds, c)
      | Some source \<Rightarrow>
          if \<not> mem env 7 then (Abandon ERROR_NOT_ENOUGH_MEMORY, freed (owned dest) c)
          else
            let len = length fileName + length source + 1;
                c = gained 1 c;
                (n, name) = long_path env (source @ fileName) len
            in if n = 0 then (Abandon 0, freed (1 + owned dest) c)
               else if n \<ge> len then
                 (let n = (case dest of
                        Some d \<Rightarrow> (case vol of Some v \<Rightarrow> length v | None \<Rightarrow> 0) + (n - length d)
                      | None \<Rightarrow> n)
                  in (Too_long (n + 1), freed (1 + owned dest) c))
               else if length name + 1 < length source then (Out_of_bounds, c)
               else (Go_on, freed (owned dest) c))"

definition normalise_by_long_path ::
    "genv \<Rightarrow> volume_type \<Rightarrow> wstring option \<Rightarrow> wstring option \<Rightarrow> wstring \<Rightarrow> counts \<Rightarrow> (norm \<times> counts) option" where
  "normalise_by_long_path env vt vol nt fileName c =
     (if vt \<noteq> Type_NT then Some (normalise_from env vol None fileName c)
      else case (case nt of Some s \<Rightarrow> Some s | None \<Rightarrow> vol) of
          None \<Rightarrow> Some (Out_of_bounds, c)
        | Some srcName \<Rightarrow>
            (case BasepGetVolumeDosLetterNameFromNTName env srcName c of
               None \<Rightarrow> None
             | Some (Inr (Some d), c) \<Rightarrow> Some (normalise_from env vol (Some d) fileName c)
             | Some (r, c) \<Rightarrow>
                 if r = Inl ERROR_NOT_ENOUGH_MEMORY then Some (Abandon ERROR_NOT_ENOUGH_MEMORY, c)
                 else (case BasepGetVolumeGUIDFromNTName env srcName c of
                         None \<Rightarrow> None
                       | Some (Inl e, c) \<Rightarrow> Some (Abandon e, c)
                       | Some (Inr dest, c) \<Rightarrow> Some (normalise_from env vol dest fileName c))))"

record answer =
  ret :: nat
  written :: "wstring option"
  last_error :: nat
  counted :: counts

text \<open>The result without the buffer, or with the buffer filled; then everything owned is freed.\<close>

definition finish :: "wstring option \<Rightarrow> wstring \<Rightarrow> nat \<Rightarrow> nat \<times> wstring option \<times> nat" where
  "finish vol fileName cch =
     (let path = (case vol of Some v \<Rightarrow> v | None \<Rightarrow> []) @ fileName; n = length path in
      if n + 1 \<le> cch then (n, Some path, 0) else (n + 1, None, ERROR_NOT_ENOUGH_MEMORY))"

definition cleanup :: "nat \<Rightarrow> nat \<times> wstring option \<times> nat \<Rightarrow> counts \<Rightarrow> answer" where
  "cleanup blocks r c = (case r of (n, w, e) \<Rightarrow>
     \<lparr>ret = n, written = w, last_error = e, counted = freed blocks c\<rparr>)"

datatype outcome = Never | Wild | Answer answer

text \<open>From the point where both names are known; \<open>Wild\<close> is a write or read outside of an object.\<close>

definition with_names ::
    "genv \<Rightarrow> volume_type \<Rightarrow> DWORD \<Rightarrow> nat \<Rightarrow> wstring \<Rightarrow> wstring \<Rightarrow> counts \<Rightarrow> outcome" where
  "with_names env vt dwFlags cch ntObject fileName c =
     (if take 1 fileName \<noteq> [backslash] then Answer (cleanup 2 (0, None, ERROR_ACCESS_DENIED) c)
      else if length fileName > length ntObject then Wild
      else
        let ntn = take (length ntObject - length fileName) ntObject in
        case volume_name env vt ntn fileName c of
          None \<Rightarrow> Never
        | Some (Inl e, c) \<Rightarrow> Answer (cleanup 2 (0, None, e) c)
        | Some (Inr (vol, nt), c) \<Rightarrow>
            let blocks = owned nt + 1 + owned vol in
            if dwFlags AND FILE_NAME_OPENED \<noteq> 0 then Answer (cleanup blocks (finish vol fileName cch) c)
            else case BasepGetFileNameInformation (normalized_name env) (mem env 8) c of
                None \<Rightarrow> Never
              | Some (Inr norm_name, c) \<Rightarrow> Answer (cleanup blocks (finish vol norm_name cch) (freed 1 c))
              | Some (Inl e, c) \<Rightarrow>
                  if e \<notin> {ERROR_INVALID_PARAMETER, ERROR_INVALID_LEVEL, ERROR_NOT_SUPPORTED, ERROR_INVALID_FUNCTION}
                  then Answer (cleanup blocks (0, None, e) c)
                  else (case normalise_by_long_path env vt vol nt fileName c of
                          None \<Rightarrow> Never
                        | Some (Out_of_bounds, c) \<Rightarrow> Wild
                        | Some (Abandon e, c) \<Rightarrow> Answer (cleanup blocks (0, None, e) c)
                        | Some (Too_long n, c) \<Rightarrow> Answer (cleanup blocks (n, None, 0) c)
                        | Some (Go_on, c) \<Rightarrow> Answer (cleanup blocks (finish vol fileName cch) c)))"

definition GetFinalPathNameByHandleW :: "genv \<Rightarrow> bool \<Rightarrow> nat \<Rightarrow> DWORD \<Rightarrow> counts \<Rightarrow> outcome" where
  "GetFinalPathNameByHandleW env valid cch dwFlags c =
     (if \<not> valid then Answer (cleanup 0 (0, None, ERROR_INVALID_HANDLE) c)
      else case volume_type_of dwFlags of
          None \<Rightarrow> Answer (cleanup 0 (0, None, ERROR_INVALID_PARAMETER) c)
        | Some vt \<Rightarrow>
            (case BasepGetObjectNTName env c of
               None \<Rightarrow> Never
             | Some (Inl e, c) \<Rightarrow> Answer (cleanup 0 (0, None, e) c)
             | Some (Inr ntObject, c) \<Rightarrow>
                 (case BasepGetFileNameInformation (file_name env) (mem env 9) c of
                    None \<Rightarrow> Never
                  | Some (Inl e, c) \<Rightarrow> Answer (cleanup 1 (0, None, e) c)
                  | Some (Inr fileName, c) \<Rightarrow> with_names env vt dwFlags cch ntObject fileName c)))"

section \<open>What the helpers cost\<close>

text \<open>
  A helper that yields a name keeps its books if a failure leaves the counts alone and a success
  adds the block of the name.
\<close>

definition keeps_books :: "counts \<Rightarrow> (nat + wstring option) \<times> counts \<Rightarrow> bool" where
  "keeps_books c rc = (case rc of
      (Inl e, c') \<Rightarrow> c' = c
    | (Inr v, c') \<Rightarrow> c' = gained (owned v) c)"

lemma gained_0 [simp]: "gained 0 c = c"
  and gained_freed [simp]: "freed n (gained n c) = c"
  and gained_gained [simp]: "gained m (gained n c) = gained (n + m) c"
  and live_gained [simp]: "live (gained n c) = live c + n" "devices (gained n c) = devices c"
  and live_freed [simp]: "live (freed n c) = live c - n" "devices (freed n c) = devices c"
  by (simp_all add: gained_def freed_def add.assoc)

lemma freed_gained_more [simp]: "m \<le> n \<Longrightarrow> freed m (gained n c) = gained (n - m) c"
  by (simp add: gained_def freed_def)

lemma owned_simps [simp]: "owned None = 0" "owned (Some x) = 1"
  by (simp_all add: owned_def)

definition one_volume :: "genv \<Rightarrow> bool" where
  "one_volume env \<longleftrightarrow> (\<forall>n ps. fst (mount_points env n) = Inr ps \<longrightarrow> length (filter is_volume_name ps) \<le> 1)"

lemma pick_volume_none: "filter is_volume_name ps = [] \<Longrightarrow> pick_volume env i ps st = st"
  by (induction env i ps st rule: pick_volume.induct) (auto split: if_splits)

lemma pick_volume_one:
  "length (filter is_volume_name ps) \<le> 1 \<Longrightarrow> pick_volume env i ps (False, None, c) = (found, v, c') \<Longrightarrow>
   if found then \<exists>p. v = Some p \<and> c' = gained 1 c else v = None \<and> c' = c"
proof (induction ps arbitrary: i)
  case (Cons p ps)
  show ?case
  proof (cases "is_volume_name p")
    case True
    with Cons.prems(1) have "filter is_volume_name ps = []" by simp
    with True Cons.prems(2) pick_volume_none [of ps env "i + 1"] show ?thesis by (auto split: if_splits)
  next
    case False
    with Cons.IH [of "i + 1"] Cons.prems show ?thesis by simp
  qed
qed simp

lemma device_loop_answer:
  assumes "device_loop after io memory header e n = Some r"
  shows "r = Inl ERROR_NOT_ENOUGH_MEMORY \<or> (\<exists>k. fst (io k) = r)"
proof (rule device_loop.raw_induct
    [where P = "\<lambda>after io memory header e n r. r = Inl ERROR_NOT_ENOUGH_MEMORY \<or> (\<exists>k. fst (io k) = r)",
      OF _ assms])
  fix f after memory header e n r and io :: "nat \<Rightarrow> (nat + 'a) \<times> nat"
  assume IH: "\<And>after io memory header e n r. f after io memory header e n = Some r \<Longrightarrow>
      r = Inl ERROR_NOT_ENOUGH_MEMORY \<or> (\<exists>k. fst (io k) = r)"
    and run: "(if \<not> memory then Some (Inl ERROR_NOT_ENOUGH_MEMORY)
      else case io n of (r, reported) \<Rightarrow>
        let e = (case r of Inl e' \<Rightarrow> e' | Inr _ \<Rightarrow> after e)
        in if e = ERROR_MORE_DATA then f after io memory header e (reported + header)
           else Some r) = Some r"
  obtain q reported where q: "io n = (q, reported)" by fastforce
  then have "\<exists>k. fst (io k) = q" by (metis fst_conv)
  with run q IH show "r = Inl ERROR_NOT_ENOUGH_MEMORY \<or> (\<exists>k. fst (io k) = r)"
    by (auto simp: Let_def split: if_splits)
qed

lemma points_books:
  assumes "one_volume env" "r = Inl e \<or> (\<exists>k. fst (mount_points env k) = r)"
  shows "keeps_books c (volume_of_points env c r)"
proof (cases r)
  case (Inl e)
  then show ?thesis by (simp add: volume_of_points_def keeps_books_def)
next
  case (Inr ps)
  obtain found v c' where pick: "pick_volume env 0 ps (False, None, c) = (found, v, c')" by (metis prod_cases3)
  from assms Inr have "length (filter is_volume_name ps) \<le> 1" by (auto simp: one_volume_def)
  from pick_volume_one [OF this pick] pick Inr show ?thesis
    by (auto simp: volume_of_points_def keeps_books_def split: if_splits)
qed

lemma guid_books:
  assumes one: "one_volume env" and run: "BasepGetVolumeGUIDFromNTName env src c = Some rc"
  shows "keeps_books c rc"
proof (cases "\<exists>r. device_loop (error_after env) (mount_points env) (mem env 2) 24 (stale_error env) (32 + 10 * (40 + 24)) = Some r")
  case True
  then obtain r where r: "device_loop (error_after env) (mount_points env) (mem env 2) 24 (stale_error env) (32 + 10 * (40 + 24)) = Some r"
    by blast
  from points_books [OF one device_loop_answer [OF r], of c] r run show ?thesis
    by (simp add: BasepGetVolumeGUIDFromNTName_def keeps_books_def split: if_splits) auto
next
  case False
  with run show ?thesis by (auto simp: BasepGetVolumeGUIDFromNTName_def keeps_books_def split: if_splits)
qed

lemma unc_books: "keeps_books c (UncPath env c)" "keeps_books c (dos_letter env l c)"
  by (simp_all add: UncPath_def dos_letter_def keeps_books_def)

lemma drives_books: "keeps_books c (match_drives env src fn ds c)"
  by (induction env src fn ds c rule: match_drives.induct) (auto simp: unc_books split: option.splits bool.splits)

lemma drive_names_books: "keeps_books c (BasepGetVolumeDosLetterNameFromNTNameAndFileName env src fn c)"
  using drives_books
  by (simp add: BasepGetVolumeDosLetterNameFromNTNameAndFileName_def keeps_books_def split: option.splits)

lemma keeps_books_error [simp]: "keeps_books c (Inl e, c') \<longleftrightarrow> c' = c"
  by (simp add: keeps_books_def)

lemma path_books: "keeps_books c (prefixed_path c r)"
  by (simp add: prefixed_path_def keeps_books_def split: sum.split)

lemma dos_letter_books:
  "mem env 5 \<Longrightarrow> BasepGetVolumeDosLetterNameFromNTName env src c = Some rc \<Longrightarrow> keeps_books c rc"
  by (auto simp: BasepGetVolumeDosLetterNameFromNTName_def unc_books path_books split: if_splits)

lemma query_books:
  "BasepGetFileNameInformation q m c = Some (r, c') \<Longrightarrow> (case r of Inl e \<Rightarrow> c' = c | Inr n \<Rightarrow> c' = gained 1 c)"
  "BasepGetObjectNTName env c = Some (r, c') \<Longrightarrow> (case r of Inl e \<Rightarrow> c' = c | Inr n \<Rightarrow> c' = gained 1 c)"
  by (auto simp: BasepGetFileNameInformation_def BasepGetObjectNTName_def split: sum.splits)

lemma volume_name_books:
  assumes "one_volume env" "mem env 5" "volume_name env vt nt fn c = Some (r, c')"
  shows "case r of Inl e \<Rightarrow> c' = c | Inr (v, n) \<Rightarrow> c' = gained (owned v + owned n - 1) c \<and> (owned v + owned n \<ge> 1)"
  using assms(3) guid_books [OF assms(1), of nt c] dos_letter_books [OF assms(2), of nt c]
    drive_names_books [of c env nt fn]
  by (auto simp: volume_name_def keeps_books_def
      split: volume_type.splits prod.splits sum.splits if_splits option.splits)

lemma normalise_from_books:
  "normalise_from env vol dest fn (gained (owned dest) c) = (r, c') \<Longrightarrow>
   (case r of Go_on \<Rightarrow> c' = gained 1 c | Out_of_bounds \<Rightarrow> True | _ \<Rightarrow> c' = c)"
  by (auto simp: normalise_from_def Let_def split: option.splits prod.splits if_splits)

lemma normalise_books:
  assumes "one_volume env" "mem env 5" "normalise_by_long_path env vt vol nt fn c = Some (r, c')"
  shows "case r of Go_on \<Rightarrow> c' = gained 1 c | Out_of_bounds \<Rightarrow> True | _ \<Rightarrow> c' = c"
proof (cases "vt \<noteq> Type_NT \<or> (nt = None \<and> vol = None)")
  case True
  then show ?thesis
    using assms(3) normalise_from_books [of env vol None fn c]
    by (auto simp: normalise_by_long_path_def split: if_splits)
next
  case False
  then obtain src where src: "(case nt of Some s \<Rightarrow> Some s | None \<Rightarrow> vol) = Some src"
    by (cases nt; cases vol) auto
  with False assms(3) obtain r1 c1 where d: "BasepGetVolumeDosLetterNameFromNTName env src c = Some (r1, c1)"
    by (auto simp: normalise_by_long_path_def split: option.splits)
  have b1: "keeps_books c (r1, c1)" by (rule dos_letter_books [OF assms(2) d])
  show ?thesis
  proof (cases "\<exists>v. r1 = Inr (Some v)")
    case True
    then obtain v where v: "r1 = Inr (Some v)" by blast
    with b1 have "c1 = gained (owned (Some v)) c" by (simp add: keeps_books_def)
    with v False src d assms(3) normalise_from_books [of env vol "Some v" fn c r c'] show ?thesis
      by (simp add: normalise_by_long_path_def)
  next
    case none: False
    with b1 have c1: "c1 = c" by (cases r1) (auto simp: keeps_books_def owned_def split: option.splits)
    have norm: "normalise_by_long_path env vt vol nt fn c =
        (if r1 = Inl ERROR_NOT_ENOUGH_MEMORY then Some (Abandon ERROR_NOT_ENOUGH_MEMORY, c)
         else (case BasepGetVolumeGUIDFromNTName env src c of
                 None \<Rightarrow> None
               | Some (Inl e, c) \<Rightarrow> Some (Abandon e, c)
               | Some (Inr dest, c) \<Rightarrow> Some (normalise_from env vol dest fn c)))"
      using none c1 False src d
      by (cases r1) (auto simp: normalise_by_long_path_def split: option.splits)
    show ?thesis
      using assms(3) guid_books [OF assms(1), of src c] normalise_from_books [of env vol _ fn c r c']
      unfolding norm by (fastforce simp: keeps_books_def split: if_splits option.splits prod.splits sum.splits)
  qed
qed

section \<open>What the function promises\<close>

lemma finish_written:
  "finish vol fn cch = (n, w, e) \<Longrightarrow>
   (case w of Some p \<Rightarrow> n = length p \<and> length p < cch \<and> (\<exists>v. p = v @ fn) \<and> e = 0
    | None \<Rightarrow> cch < n \<and> e = ERROR_NOT_ENOUGH_MEMORY)"
  by (auto simp: finish_def Let_def split: if_splits)

lemma cleanup_fields [simp]:
  "counted (cleanup b r c) = freed b c" "ret (cleanup b r c) = fst r"
  "written (cleanup b r c) = fst (snd r)" "last_error (cleanup b r c) = snd (snd r)"
  by (simp_all add: cleanup_def split: prod.splits)

definition falls_back :: "genv \<Rightarrow> DWORD \<Rightarrow> bool" where
  "falls_back env dwFlags \<longleftrightarrow> dwFlags AND FILE_NAME_OPENED = 0 \<and>
     (\<exists>e \<in> {ERROR_INVALID_PARAMETER, ERROR_INVALID_LEVEL, ERROR_NOT_SUPPORTED, ERROR_INVALID_FUNCTION}.
        query_name (normalized_name env) (mem env 8) 8 528 = Some (Inl e))"

text \<open>The answer of the part after the names: what it costs and what it writes.\<close>

definition answers_well :: "genv \<Rightarrow> DWORD \<Rightarrow> nat \<Rightarrow> wstring \<Rightarrow> counts \<Rightarrow> answer \<Rightarrow> bool" where
  "answers_well env dwFlags cch fn c a \<longleftrightarrow>
     (counted a = c \<or>
      falls_back env dwFlags \<and> counted a = gained 1 c \<and> (\<forall>p. written a = Some p \<longrightarrow> (\<exists>v. p = v @ fn))) \<and>
     (\<forall>p. written a = Some p \<longrightarrow> ret a = length p \<and> length p < cch) \<and>
     (falls_back env dwFlags \<longrightarrow> (\<forall>p. written a = Some p \<longrightarrow> counted a = gained 1 c \<and> (\<exists>v. p = v @ fn)))"

lemma with_names_answer:
  assumes env: "one_volume env" "mem env 5"
    and run: "with_names env vt dwFlags cch ntObject fn (gained 2 c) = Answer a"
  shows "answers_well env dwFlags cch fn c a"
proof (cases "take 1 fn \<noteq> [backslash]")
  case True
  with run show ?thesis by (auto simp: with_names_def answers_well_def)
next
  case False
  let ?nt = "take (length ntObject - length fn) ntObject"
  from run False obtain r c1 where vol: "volume_name env vt ?nt fn (gained 2 c) = Some (r, c1)"
    by (auto simp: with_names_def Let_def split: if_splits option.splits)
  note books = volume_name_books [OF env vol]
  show ?thesis
  proof (cases r)
    case (Inl e)
    with books vol run False show ?thesis
      by (auto simp: with_names_def answers_well_def split: if_splits)
  next
    case (Inr vn)
    then obtain v n where vn: "r = Inr (v, n)" by (cases vn) auto
    let ?b = "owned n + 1 + owned v"
    have c1: "c1 = gained ?b c" using books vn by (auto simp: Suc_le_eq)
    obtain m w e' where fin: "finish v fn cch = (m, w, e')" by (metis prod_cases3)
    note finw = finish_written [OF fin]
    show ?thesis
    proof (cases "dwFlags AND FILE_NAME_OPENED \<noteq> 0")
      case True
      with run False vol vn c1 fin finw show ?thesis
        by (auto simp: with_names_def answers_well_def falls_back_def Let_def split: if_splits)
    next
      case opened: False
      have some: "BasepGetFileNameInformation (normalized_name env) (mem env 8) c1 \<noteq> None"
        using run False vol vn opened
        by (cases "BasepGetFileNameInformation (normalized_name env) (mem env 8) c1")
          (auto simp: with_names_def Let_def split: if_splits)
      then obtain q c2 where q: "BasepGetFileNameInformation (normalized_name env) (mem env 8) c1 = Some (q, c2)"
        by auto
      then have qn: "query_name (normalized_name env) (mem env 8) 8 528 = Some q"
        by (auto simp: BasepGetFileNameInformation_def)
      show ?thesis
      proof (cases q)
        case (Inr norm)
        have c2: "c2 = gained (?b + 1) c" using query_books(1) [OF q] c1 Inr by simp
        obtain m w e where fin: "finish v norm cch = (m, w, e)" by (metis prod_cases3)
        from finish_written [OF fin] have "w = Some p \<Longrightarrow> m = length p \<and> length p < cch" for p by auto
        with run False vol vn opened q Inr c2 fin qn show ?thesis
          by (auto simp: with_names_def answers_well_def falls_back_def Let_def split: if_splits)
      next
        case (Inl e)
        have c2: "c2 = gained ?b c" using query_books(1) [OF q] c1 Inl by simp
        show ?thesis
        proof (cases "e \<in> {ERROR_INVALID_PARAMETER, ERROR_INVALID_LEVEL, ERROR_NOT_SUPPORTED, ERROR_INVALID_FUNCTION}")
          case False
          with run \<open>\<not> take 1 fn \<noteq> [backslash]\<close> vol vn opened q Inl c2 show ?thesis
            by (auto simp: with_names_def answers_well_def Let_def split: if_splits)
        next
          case True
          then have fb: "falls_back env dwFlags" using opened qn Inl by (auto simp: falls_back_def)
          have "normalise_by_long_path env vt v n fn c2 \<noteq> None"
            using run False \<open>\<not> take 1 fn \<noteq> [backslash]\<close> vol vn opened q Inl True
            by (cases "normalise_by_long_path env vt v n fn c2")
              (simp_all add: with_names_def Let_def split: if_splits)
          then obtain k c3 where k: "normalise_by_long_path env vt v n fn c2 = Some (k, c3)" by auto
          note kb = normalise_books [OF env k]
          have res: "(case k of Out_of_bounds \<Rightarrow> Wild
              | Abandon e \<Rightarrow> Answer (cleanup ?b (0, None, e) c3)
              | Too_long l \<Rightarrow> Answer (cleanup ?b (l, None, 0) c3)
              | Go_on \<Rightarrow> Answer (cleanup ?b (m, w, e') c3)) = Answer a"
            using run False \<open>\<not> take 1 fn \<noteq> [backslash]\<close> vol vn opened q Inl True k fin
            by (cases k) (simp_all add: with_names_def Let_def split: if_splits)
          show ?thesis
            using res kb c2 fb finw fin
            by (auto simp: answers_well_def split: norm.splits)
        qed
      qed
    qed
  qed
qed

lemma final_path_lemma:
  assumes env: "one_volume env" "mem env 5"
    and run: "GetFinalPathNameByHandleW env valid cch dwFlags c = Answer a"
  shows "(counted a = c \<or> falls_back env dwFlags \<and> counted a = gained 1 c) \<and>
    (\<forall>p. written a = Some p \<longrightarrow> ret a = length p \<and> length p < cch \<and>
      (falls_back env dwFlags \<longrightarrow> counted a = gained 1 c \<and>
        (\<exists>v fn. query_name (file_name env) (mem env 9) 8 528 = Some (Inr fn) \<and> p = v @ fn)))"
proof (cases "valid \<and> volume_type_of dwFlags \<noteq> None")
  case False
  with run show ?thesis by (auto simp: GetFinalPathNameByHandleW_def split: if_splits)
next
  case True
  then obtain vt where vt: "volume_type_of dwFlags = Some vt" by blast
  from run True vt obtain r c1 where o: "BasepGetObjectNTName env c = Some (r, c1)"
    by (auto simp: GetFinalPathNameByHandleW_def split: option.splits)
  note b1 = query_books(2) [OF o]
  show ?thesis
  proof (cases r)
    case (Inl e)
    with b1 o run True vt show ?thesis by (auto simp: GetFinalPathNameByHandleW_def)
  next
    case (Inr nt)
    with run True vt o obtain q c2 where f: "BasepGetFileNameInformation (file_name env) (mem env 9) c1 = Some (q, c2)"
      by (auto simp: GetFinalPathNameByHandleW_def split: option.splits)
    note b2 = query_books(1) [OF f]
    have top: "GetFinalPathNameByHandleW env valid cch dwFlags c =
        (case q of Inl e \<Rightarrow> Answer (cleanup 1 (0, None, e) c2)
         | Inr fn \<Rightarrow> with_names env vt dwFlags cch nt fn c2)"
      using True vt o Inr f by (cases q) (auto simp: GetFinalPathNameByHandleW_def)
    show ?thesis
    proof (cases q)
      case err: (Inl e)
      with Inr b1 b2 run top show ?thesis by auto
    next
      case fn: (Inr fn)
      have "query_name (file_name env) (mem env 9) 8 528 = Some (Inr fn)"
        using f fn by (auto simp: BasepGetFileNameInformation_def)
      moreover have "c2 = gained 2 c" using b1 b2 Inr fn by simp
      with run top fn with_names_answer [OF env, of vt dwFlags cch nt fn c a]
      have "answers_well env dwFlags cch fn c a" by simp
      ultimately show ?thesis by (auto simp: answers_well_def gained_def)
    qed
  qed
qed


text \<open>
  An old system without normalisation: the path comes back as it was opened, one block is lost.
\<close>

definition old_system :: genv where
  "old_system = \<lparr>major_version = 4, mem = (\<lambda>_. True),
     object_name = (\<lambda>_. (Success, 0, W ''/D'' @ [backslash] @ W ''A~1'')),
     file_name = (\<lambda>_. (Success, 0, [backslash] @ W ''A~1'')),
     normalized_name = (\<lambda>_. (Failure ERROR_NOT_SUPPORTED, 0, [])),
     mount_manager = False, mount_points = (\<lambda>_. (Inr [], 0)), dos_path = (\<lambda>_ _. (Inr [], 0)),
     stale_error = 0, error_after = (\<lambda>e. e),
     drives = Some [\<lparr>letter = 67, target = Some (W ''/D''), remote_drive = False\<rparr>],
     long_path = (\<lambda>s n. (7, [backslash, backslash, 63, backslash, 67, 58] @ [backslash] @ W ''Abcd''))\<rparr>"

lemma old_system_falls_back: "falls_back old_system 0"
  by (auto simp: falls_back_def old_system_def query_name.simps)

lemma old_system_answer:
  "GetFinalPathNameByHandleW old_system True 100 0 \<lparr>live = 0, devices = 0\<rparr> =
   Answer \<lparr>ret = 10, written = Some ([backslash, backslash, 63, backslash, 67, 58] @ [backslash] @ W ''A~1''),
     last_error = 0, counted = \<lparr>live = 1, devices = 0\<rparr>\<rparr>"
  by (simp add: GetFinalPathNameByHandleW_def old_system_def volume_type_of_def path_flags
      BasepGetObjectNTName_def BasepGetFileNameInformation_def query_name.simps with_names_def W_def
      volume_name_def BasepGetVolumeDosLetterNameFromNTName_def same_start_def lower_w_def
      backslash_def error_codes BasepGetVolumeDosLetterNameFromNTNameAndFileName_def drive_match_def
      contains_def lanman_def dos_letter_def normalise_by_long_path_def normalise_from_def owned_def
      finish_def cleanup_def gained_def freed_def)


section \<open>Asking a device\<close>

text \<open>If a success leaves the error as it was, the loop never ends once more data was asked for.\<close>

lemma device_loop_stuck:
  fixes io :: "nat \<Rightarrow> (nat + 'a) \<times> nat"
  assumes small: "\<And>k. k < N \<Longrightarrow> io k = (Inl ERROR_MORE_DATA, N)"
    and large: "\<And>k. N \<le> k \<Longrightarrow> io k = (Inr x, N)"
  shows "device_loop (\<lambda>e. e) io True header ERROR_MORE_DATA k = None"
proof -
  have False if "device_loop (\<lambda>e. e) io True header ERROR_MORE_DATA k = Some r" for r
  proof (rule device_loop.raw_induct
      [where P = "\<lambda>after' io' memory header e n r. \<not> (after' = (\<lambda>e. e) \<and> io' = io \<and> memory \<and> e = ERROR_MORE_DATA)",
        OF _ that, THEN notE])
    fix f after' io' memory header' e' n' r'
    assume IH: "\<And>after' (io' :: nat \<Rightarrow> (nat + 'a) \<times> nat) memory header e n r. f after' io' memory header e n = Some r \<Longrightarrow>
        \<not> (after' = (\<lambda>e. e) \<and> io' = io \<and> memory \<and> e = ERROR_MORE_DATA)"
      and run: "(if \<not> memory then Some (Inl ERROR_NOT_ENOUGH_MEMORY)
        else case io' n' of (r, reported) \<Rightarrow>
          let e = (case r of Inl e' \<Rightarrow> e' | Inr _ \<Rightarrow> after' e')
          in if e = ERROR_MORE_DATA then f after' io' memory header' e (reported + header')
             else Some r) = Some r'"
    show "\<not> (after' = (\<lambda>e. e) \<and> io' = io \<and> memory \<and> e' = ERROR_MORE_DATA)"
      using run IH [of "\<lambda>e. e" io True header' ERROR_MORE_DATA "N + header'" r'] small large
      by (cases "N \<le> n'") auto
  qed simp
  then show ?thesis by (metis option.exhaust)
qed

text \<open>
  C30: against a device that wants a buffer of \<open>N\<close> bytes, says so when it gets less, and answers
  when it gets as many, the request loop returns, and then returns the answer, exactly if a success
  clears the thread's error, or else the first buffer was large enough and the thread entered
  without the error that asks for more.
\<close>

theorem device_loop_returns_iff:
  fixes io :: "nat \<Rightarrow> (nat + 'a) \<times> nat"
  assumes small: "\<And>k. k < N \<Longrightarrow> io k = (Inl ERROR_MORE_DATA, N)"
    and large: "\<And>k. N \<le> k \<Longrightarrow> io k = (Inr x, N)"
    and after: "after = (\<lambda>e. e) \<or> after = (\<lambda>e. 0)"
  shows "device_loop after io True header e n =
    (if after = (\<lambda>e. 0) \<or> N \<le> n \<and> e \<noteq> ERROR_MORE_DATA then Some (Inr x) else None)"
proof (cases "after = (\<lambda>e. 0)")
  case True
  then have enough: "device_loop after io True header e k = Some (Inr x)" if "N \<le> k" for e k
    using that by (simp add: device_loop.simps large ERROR_MORE_DATA_def)
  show ?thesis
  proof (cases "N \<le> n")
    case False
    then have "device_loop after io True header e n = device_loop after io True header ERROR_MORE_DATA (N + header)"
      by (simp add: device_loop.simps [of after io True header e n] small)
    with enough True show ?thesis by simp
  next
    case large_enough: True
    from enough [OF this] True show ?thesis by simp
  qed
next
  case False
  with after have keep: "after = (\<lambda>e. e)" by blast
  show ?thesis
  proof (cases "N \<le> n \<and> e \<noteq> ERROR_MORE_DATA")
    case True
    then show ?thesis by (simp add: device_loop.simps large keep)
  next
    case ask: False
    have "device_loop after io True header e n = device_loop after io True header ERROR_MORE_DATA (N + header)"
      using ask by (cases "N \<le> n") (simp_all add: device_loop.simps [of "\<lambda>e. e" io True header e n]
        device_loop.simps [of "\<lambda>e. e" io True header ERROR_MORE_DATA n] small large keep)
    moreover have "device_loop after io True header ERROR_MORE_DATA (N + header) = None"
      unfolding keep by (rule device_loop_stuck) (rule small, assumption, rule large)
    moreover have "after \<noteq> (\<lambda>e. 0)" using False .
    ultimately show ?thesis using ask by simp
  qed
qed

definition big_device :: "nat \<Rightarrow> (nat + wstring list) \<times> nat" where
  "big_device k = (if k < 1000 then (Inl ERROR_MORE_DATA, 1000) else (Inr [], 1000))"

theorem device_loop_returns_iff_witness:
  "device_loop (\<lambda>e. e) big_device True 24 0 672 = None \<and>
   device_loop (\<lambda>e. 0) big_device True 24 0 672 = Some (Inr [])"
  using device_loop_returns_iff [of 1000 big_device "[]" "\<lambda>e. e" 24 0 672]
    device_loop_returns_iff [of 1000 big_device "[]" "\<lambda>e. 0" 24 0 672]
  by (auto simp: big_device_def fun_eq_iff intro: exI [of _ 1])

text \<open>
  Further: a file name longer than the object name is noted as an error, but the terminator is
  written before the start of the block all the same; and a device is left open where memory for
  the request is missing.
\<close>

lemma longer_name_out_of_bounds:
  "take 1 fn = [backslash] \<Longrightarrow> length nt < length fn \<Longrightarrow> with_names env vt flags cch nt fn c = Wild"
  by (simp add: with_names_def)

lemma device_left_open:
  "\<lbrakk>\<not> same_start src ([backslash] @ W ''Device'' @ [backslash] @ W ''Mup'');
    \<not> same_start src [backslash, 63, 63, backslash]; 5 \<le> major_version env; mount_manager env; \<not> mem env 5\<rbrakk> \<Longrightarrow>
   BasepGetVolumeDosLetterNameFromNTName env src c =
     Some (Inl ERROR_NOT_ENOUGH_MEMORY, c\<lparr>devices := devices c + 1\<rparr>)"
  by (simp add: BasepGetVolumeDosLetterNameFromNTName_def)

lemma volume_names_leaked:
  "is_volume_name p \<Longrightarrow> is_volume_name q \<Longrightarrow> mem env 100 \<Longrightarrow> mem env 101 \<Longrightarrow>
   volume_of_points env c (Inr [p, q]) = (Inr (Some (q[1 := backslash])), gained 2 c)"
  by (simp add: volume_of_points_def)

end
