(* ===== verification/DosPath.thy ===== *)
theory DosPath
  imports Prelude
begin

text \<open>
  Model of \<open>src/legacy/shared/getlongpathnamew.c\<close>: \<open>GetLongPathNameW\<close> for systems that lack it. A
  string is the list of its characters before the terminator, a pointer into it a position, and
  a read past the end gives the terminator. The component functions are given the component
  and the loops go over positions. Lookups of directory entries and allocations answer as the
  environment says.
\<close>

section \<open>Kinds of paths\<close>

datatype path_type = Relative | DriveAbsolute | DriveRelative | Rooted | UncAbsolute | LocalDevice | RootLocalDevice

definition is_sep :: "WCHAR \<Rightarrow> bool" where
  "is_sep ch \<longleftrightarrow> ch = backslash \<or> ch = 47"

definition RtlDetermineDosPathNameType_U :: "wstring \<Rightarrow> path_type" where
  "RtlDetermineDosPathNameType_U s =
     (if \<not> is_sep (chr_at s 0) then
        (if chr_at s 0 = 0 \<or> chr_at s 1 \<noteq> 58 then Relative
         else if is_sep (chr_at s 2) then DriveAbsolute else DriveRelative)
      else if \<not> is_sep (chr_at s 1) then Rooted
      else if chr_at s 2 \<noteq> 46 \<and> chr_at s 2 \<noteq> 63 then UncAbsolute
      else if is_sep (chr_at s 3) then LocalDevice
      else if chr_at s 3 \<noteq> 0 then UncAbsolute else RootLocalDevice)"

text \<open>The loop that skips the server and the share: at most \<open>n\<close> separators are passed.\<close>

function skip_seps :: "wstring \<Rightarrow> nat \<Rightarrow> nat \<Rightarrow> nat" where
  "skip_seps s p n =
     (if p < length s \<and> n > 0 then skip_seps s (p + 1) (if is_sep (s ! p) then n - 1 else n) else p)"
  by pat_completeness auto
termination by (relation "measure (\<lambda>(s, p, n). length s - p)") auto

declare skip_seps.simps [simp del]

definition SkipPathTypeIndicator_U :: "wstring \<Rightarrow> nat option" where
  "SkipPathTypeIndicator_U s =
     (case RtlDetermineDosPathNameType_U s of
        UncAbsolute \<Rightarrow>
          Some (skip_seps s (if same_start s ([63, backslash] @ W ''UNC'') then 8 else 2) 2)
      | DriveAbsolute \<Rightarrow> Some 3
      | DriveRelative \<Rightarrow> Some 2
      | Rooted \<Rightarrow> Some 1
      | Relative \<Rightarrow> Some 0
      | _ \<Rightarrow> None)"

section \<open>Short and long names\<close>

text \<open>
  \<open>IsShortName_U\<close> works on the name in the code page of the system, with signed characters: \<open>to_ansi\<close>
  is its conversion and \<open>lead\<close> tells the lead bytes. \<open>None\<close> is a read outside of the table of
  illegal characters.
\<close>

definition IllegalMask :: "DWORD list" where
  "IllegalMask = [0xFFFFFFFF, 0xFC009C05, 0x38000000, 0x10000000]"

definition illegal :: "int \<Rightarrow> bool option" where
  "illegal c =
     (if c > 0x7f then Some True
      else if c < 0 then None
      else Some (push_bit (nat (c mod 32)) (1 :: DWORD) AND IllegalMask ! nat (c div 32) \<noteq> 0))"

fun short_loop :: "(int \<Rightarrow> bool) \<Rightarrow> nat \<Rightarrow> bool \<Rightarrow> nat \<Rightarrow> int \<Rightarrow> int list \<Rightarrow> bool option" where
  "short_loop lead n ext i dots [] = Some True"
| "short_loop lead n ext i dots (c # cs) =
     (if lead c then
        (if \<not> ext \<and> i \<ge> 7 \<or> i = n - 1 then Some False else short_loop lead n ext (i + 1) (dots - 1) cs)
      else case illegal c of
          None \<Rightarrow> None
        | Some True \<Rightarrow> Some False
        | Some False \<Rightarrow>
            if c = 46 \<and> (ext \<or> dots > 3) then Some False
            else let ext = (if c = 46 then True else ext) in
              if i \<ge> 8 \<and> \<not> ext then Some False
              else short_loop lead n ext (i + 1) (dots - 1) cs)"

definition IsShortName_U :: "(wstring \<Rightarrow> int list option) \<Rightarrow> (int \<Rightarrow> bool) \<Rightarrow> wstring \<Rightarrow> bool option" where
  "IsShortName_U to_ansi lead name =
     (if length name > 12 then Some False
      else if name = [] then Some False
      else if hd name = 46 then Some (length name = 1 \<or> length name = 2 \<and> name ! 1 = 46)
      else case to_ansi name of
          None \<Rightarrow> Some False
        | Some a \<Rightarrow>
            if a = [] then Some True
            else short_loop lead (length a) False 0 (int (length name) - 1) a)"

fun long_loop :: "bool \<Rightarrow> nat \<Rightarrow> nat \<Rightarrow> wstring \<Rightarrow> bool" where
  "long_loop ext i dots [] = False"
| "long_loop ext i dots (c # cs) =
     (if c = 46 \<and> (ext \<or> dots > 3) then True
      else let ext = (if c = 46 then True else ext) in
        if i \<ge> 8 \<and> \<not> ext then True else long_loop ext (i + 1) (dots - 1) cs)"

definition IsLongName_U :: "wstring \<Rightarrow> bool" where
  "IsLongName_U name \<longleftrightarrow>
     name = [] \<or> length name > 12 \<or> hd name = 46 \<or> long_loop False 0 (length name - 1) name"

section \<open>Finding a component\<close>

definition skip_while :: "(WCHAR \<Rightarrow> bool) \<Rightarrow> wstring \<Rightarrow> nat \<Rightarrow> nat" where
  "skip_while P s p = p + length (takeWhile P (drop p s))"

definition segment :: "nat \<Rightarrow> nat \<Rightarrow> wstring \<Rightarrow> wstring" where
  "segment a b s = take (b - a) (drop a s)"

text \<open>\<open>wanted\<close> is the test of a component, which depends on the flag of the call.\<close>

function FindLFNorSFN_U :: "(wstring \<Rightarrow> bool) \<Rightarrow> wstring \<Rightarrow> nat \<Rightarrow> (nat \<times> nat) option" where
  "FindLFNorSFN_U wanted s p =
     (let a = skip_while is_sep s p in
      if \<not> a < length s then None
      else let b = skip_while (\<lambda>c. \<not> is_sep c) s (a + 1) in
        if wanted (segment a b s) then Some (a, b)
        else if \<not> b < length s then None
        else FindLFNorSFN_U wanted s (b + 1))"
  by pat_completeness auto
termination
  by (relation "measure (\<lambda>(w, s, p). length s - p)") (auto simp: skip_while_def)

declare FindLFNorSFN_U.simps [simp del]

definition expandable :: "wstring \<Rightarrow> bool" where
  "expandable name \<longleftrightarrow> \<not> IsLongName_U name"

lemma skip_while_bounds: "p \<le> skip_while P s p" "p \<le> length s \<Longrightarrow> skip_while P s p \<le> length s"
  using length_takeWhile_le [of P "drop p s"] by (simp_all add: skip_while_def)

lemma find_comp_bounds: "FindLFNorSFN_U w s p = Some (a, b) \<Longrightarrow> p \<le> a \<and> a < b \<and> b \<le> length s \<and> a < length s"
proof (induction w s p rule: FindLFNorSFN_U.induct)
  case (1 w s p)
  let ?a = "skip_while is_sep s p" and ?b = "skip_while (\<lambda>c. \<not> is_sep c) s (skip_while is_sep s p + 1)"
  have le: "p \<le> ?a" "?a + 1 \<le> ?b" "?a < length s \<Longrightarrow> ?b \<le> length s"
    using skip_while_bounds by fastforce+
  from 1(2) consider "?a < length s" "a = ?a" "b = ?b"
    | "?a < length s" "\<not> w (segment ?a ?b s)" "?b < length s" "FindLFNorSFN_U w s (?b + 1) = Some (a, b)"
    by (subst (asm) FindLFNorSFN_U.simps) (auto simp: Let_def split: if_splits)
  then show ?case
  proof cases
    case 2
    with 1(1) [OF refl _ refl] have "?b + 1 \<le> a \<and> a < b \<and> b \<le> length s \<and> a < length s" by simp
    with le show ?thesis by simp
  qed (use le in simp_all)
qed

section \<open>The expansion\<close>

record lp_env =
  attributes_ok :: "wstring \<Rightarrow> bool"
  find_first :: "wstring \<Rightarrow> wstring option"
  copy_memory :: bool
  buffer_memory :: bool

text \<open>What is left in the buffer of the caller: nothing, a part without its terminator, all of it.\<close>

datatype left = Nothing_written | Part_written wstring | All_written wstring

definition append_if :: "bool \<Rightarrow> wstring \<Rightarrow> wstring \<Rightarrow> wstring" where
  "append_if fits out piece = (if fits then out @ piece else out)"

text \<open>
  The loop: \<open>src\<close> is what has been read of the copy, \<open>a\<close> and \<open>b\<close> the component found, \<open>ret\<close> the length
  so far and \<open>out\<close> what has been written to the destination. \<open>None\<close> is a component that is not
  found in its directory.
\<close>

function expand_loop ::
    "lp_env \<Rightarrow> wstring \<Rightarrow> nat \<Rightarrow> nat \<Rightarrow> nat \<Rightarrow> nat \<Rightarrow> nat \<Rightarrow> wstring \<Rightarrow> (nat \<times> nat \<times> wstring) option \<times> wstring" where
  "expand_loop env s cch src a b ret out =
     (let len = a - src; ret = ret + len;
          out = append_if (len > 0 \<and> cch > ret) out (segment src a s)
      in case find_first env (take b s) of
           None \<Rightarrow> (None, out)
         | Some name \<Rightarrow>
             let piece = (if name \<noteq> [] then name else segment a b s);
                 ret = ret + length piece;
                 out = append_if (cch > ret) out piece
             in if \<not> b < length s then (Some (b, ret, out), out)
                else case FindLFNorSFN_U expandable s b of
                    None \<Rightarrow> (Some (b, ret, out), out)
                  | Some (a', b') \<Rightarrow> expand_loop env s cch b a' b' ret out)"
  by pat_completeness auto
termination
  by (relation "measure (\<lambda>(env, s, cch, src, a, b, ret, out). length s - b)")
    (auto dest: find_comp_bounds)

declare expand_loop.simps [simp del]

text \<open>
  \<open>buf\<close>: the caller gives a buffer, of \<open>cch\<close> characters; \<open>overlap\<close>: it overlaps the path, so that
  the result is built in a buffer of its own. Without a buffer nothing fits.
\<close>

definition GetLongPathNameW :: "lp_env \<Rightarrow> wstring option \<Rightarrow> bool \<Rightarrow> bool \<Rightarrow> nat \<Rightarrow> nat \<times> left" where
  "GetLongPathNameW env path buf overlap cch =
     (case path of
        None \<Rightarrow> (0, Nothing_written)
      | Some s \<Rightarrow>
          if \<not> attributes_ok env s then (0, Nothing_written)
          else case (case SkipPathTypeIndicator_U s of
                 None \<Rightarrow> None
               | Some p \<Rightarrow> if p < length s then FindLFNorSFN_U expandable s p else None) of
              None \<Rightarrow>
                if cch > length s \<and> buf then (length s, All_written s) else (length s + 1, Nothing_written)
            | Some (a, b) \<Rightarrow>
                if \<not> copy_memory env then (0, Nothing_written)
                else
                  let own = (cch > 0 \<and> buf \<and> overlap) in
                  if own \<and> \<not> buffer_memory env then (0, Nothing_written)
                  else
                    (case expand_loop env s (if buf then cch else 0) 0 a b 0 [] of
                       (None, out) \<Rightarrow> (0, if own \<or> out = [] then Nothing_written else Part_written out)
                     | (Some (src, ret, _), out) \<Rightarrow>
                         let ret = ret + (length s - src) in
                         if cch > ret \<and> buf then (ret, All_written (out @ drop src s))
                         else (ret + 1, if own \<or> out = [] then Nothing_written else Part_written out)))"

section \<open>What the expansion means\<close>

text \<open>
  The reference: character by character, separators stay, and each component that is not a long
  name is replaced by the name found for the path up to its end.
\<close>

definition long_name :: "lp_env \<Rightarrow> wstring \<Rightarrow> nat \<Rightarrow> nat \<Rightarrow> wstring option" where
  "long_name env s a b =
     (if expandable (segment a b s)
      then map_option (\<lambda>n. if n = [] then segment a b s else n) (find_first env (take b s))
      else Some (segment a b s))"

function long_form :: "lp_env \<Rightarrow> wstring \<Rightarrow> nat \<Rightarrow> wstring option" where
  "long_form env s p =
     (if \<not> p < length s then Some []
      else if is_sep (s ! p) then map_option (Cons (s ! p)) (long_form env s (p + 1))
      else let b = skip_while (\<lambda>c. \<not> is_sep c) s (p + 1) in
        case long_name env s p b of
          None \<Rightarrow> None
        | Some n \<Rightarrow> map_option ((@) n) (long_form env s b))"
  by pat_completeness auto
termination
  by (relation "measure (\<lambda>(env, s, p). length s - p)") (auto simp: skip_while_def)

declare long_form.simps [simp del]

definition long_path_of :: "lp_env \<Rightarrow> wstring \<Rightarrow> wstring option" where
  "long_path_of env s =
     (case SkipPathTypeIndicator_U s of
        None \<Rightarrow> Some s
      | Some p \<Rightarrow> map_option ((@) (take p s)) (long_form env s p))"

lemma segment_simps [simp]: "segment a a s = []" "length (segment a b s) = min (b - a) (length s - a)"
  by (simp_all add: segment_def min.commute)

lemma segment_append:
  assumes "a \<le> b" "b \<le> c"
  shows "segment a b s @ segment b c s = segment a c s"
proof -
  obtain i where i: "b = a + i" using assms(1) by (auto simp: le_iff_add)
  obtain j where j: "c = b + j" using assms(2) by (auto simp: le_iff_add)
  have "take (i + j) (drop a s) = take i (drop a s) @ take j (drop i (drop a s))" by (rule take_add)
  then show ?thesis by (simp add: segment_def i j add.commute add.assoc)
qed

lemma segment_drop: "a \<le> b \<Longrightarrow> segment a b s @ drop b s = drop a s"
  by (metis append_take_drop_id drop_drop le_add_diff_inverse2 segment_def)

lemma segment_0: "segment 0 b s = take b s"
  by (simp add: segment_def)

lemma segment_Suc: "p < length s \<Longrightarrow> p < b \<Longrightarrow> segment p b s = s ! p # segment (Suc p) b s"
  by (simp add: segment_def Cons_nth_drop_Suc [symmetric] take_Cons')

lemma skip_while_step: "p < length s \<Longrightarrow> skip_while P s p = (if P (s ! p) then skip_while P s (p + 1) else p)"
  by (simp add: skip_while_def Cons_nth_drop_Suc [symmetric])

lemma skip_while_stop: "skip_while P s p < length s \<Longrightarrow> \<not> P (s ! skip_while P s p)"
proof -
  assume "skip_while P s p < length s"
  then have "length (takeWhile P (drop p s)) < length (drop p s)" by (simp add: skip_while_def)
  from nth_length_takeWhile [OF this] this show ?thesis by (simp add: skip_while_def nth_drop)
qed

lemma long_form_seps: "long_form env s p = map_option ((@) (segment p (skip_while is_sep s p) s)) (long_form env s (skip_while is_sep s p))"
proof (induction "length s - p" arbitrary: p)
  case 0
  then show ?case by (simp add: skip_while_def option.map_ident)
next
  case (Suc n)
  then have p: "p < length s" by simp
  show ?case
  proof (cases "is_sep (s ! p)")
    case True
    have "long_form env s (p + 1) = map_option ((@) (segment (p + 1) (skip_while is_sep s (p + 1)) s))
        (long_form env s (skip_while is_sep s (p + 1)))"
      using Suc by simp
    moreover have "p < skip_while is_sep s (p + 1)" using skip_while_bounds(1) [of "p + 1" is_sep s] by simp
    ultimately show ?thesis
      using True p by (subst long_form.simps)
        (cases "long_form env s (skip_while is_sep s (p + 1))",
          simp_all add: skip_while_step [OF p] segment_Suc)
  next
    case False
    then show ?thesis by (cases "long_form env s p") (simp_all add: skip_while_step [OF p])
  qed
qed

lemma long_form_find:
  "p \<le> length s \<Longrightarrow> (case FindLFNorSFN_U expandable s p of
     None \<Rightarrow> long_form env s p = Some (drop p s)
   | Some (a, b) \<Rightarrow> expandable (segment a b s) \<and>
       long_form env s p = (case long_name env s a b of
         None \<Rightarrow> None
       | Some n \<Rightarrow> map_option (\<lambda>r. segment p a s @ n @ r) (long_form env s b)))"
proof (induction "expandable" s p rule: FindLFNorSFN_U.induct)
  case (1 s p)
  define a where "a = skip_while is_sep s p"
  define b where "b = skip_while (\<lambda>c. \<not> is_sep c) s (a + 1)"
  have pa: "p \<le> a" "a \<le> length s" using skip_while_bounds 1(2) by (auto simp: a_def)
  have form: "long_form env s p = map_option ((@) (segment p a s)) (long_form env s a)"
    unfolding a_def by (rule long_form_seps)
  show ?case
  proof (cases "a < length s")
    case False
    then have "long_form env s a = Some []" by (simp add: long_form.simps)
    moreover have "segment p a s = drop p s" using False pa by (simp add: segment_def)
    ultimately show ?thesis using False form by (subst FindLFNorSFN_U.simps) (simp add: a_def [symmetric])
  next
    case True
    have ab: "a + 1 \<le> b" "b \<le> length s" using skip_while_bounds True by (auto simp: b_def)
    have bS: "skip_while (\<lambda>c. \<not> is_sep c) s (Suc a) = b" by (simp add: b_def)
    have sep: "\<not> is_sep (s ! a)" using skip_while_stop True by (simp add: a_def)
    have comp: "long_form env s a = (case long_name env s a b of
          None \<Rightarrow> None | Some n \<Rightarrow> map_option ((@) n) (long_form env s b))"
      using True sep unfolding b_def by (subst long_form.simps) (simp add: Let_def split: option.split)
    show ?thesis
    proof (cases "expandable (segment a b s)")
      case yes: True
      then have "FindLFNorSFN_U expandable s p = Some (a, b)"
        using True by (subst FindLFNorSFN_U.simps) (simp add: a_def [symmetric] bS Let_def)
      then show ?thesis
        using yes form comp by (cases "long_name env s a b") (simp_all add: option.map_comp comp_def)
    next
      case no: False
      then have n: "long_name env s a b = Some (segment a b s)" by (simp add: long_name_def)
      have join: "segment p a s @ segment a b s @ drop b s = drop p s"
        using pa ab by (simp add: segment_drop)
      show ?thesis
      proof (cases "b < length s")
        case False
        then have "long_form env s b = Some []" "drop b s = []" by (simp_all add: long_form.simps)
        moreover have "FindLFNorSFN_U expandable s p = None"
          using True no False by (subst FindLFNorSFN_U.simps) (simp add: a_def [symmetric] bS Let_def)
        ultimately show ?thesis using form comp n join by simp
      next
        case more: True
        have sepb: "is_sep (s ! b)" using skip_while_stop more by (auto simp: b_def)
        have find: "FindLFNorSFN_U expandable s p = FindLFNorSFN_U expandable s (b + 1)"
          using True no more
          by (subst FindLFNorSFN_U.simps) (simp add: a_def [symmetric] bS Let_def)
        have fb: "long_form env s b = map_option (Cons (s ! b)) (long_form env s (b + 1))"
          using more sepb by (subst long_form.simps) simp
        have IH: "case FindLFNorSFN_U expandable s (b + 1) of
            None \<Rightarrow> long_form env s (b + 1) = Some (drop (b + 1) s)
          | Some (a', b') \<Rightarrow> expandable (segment a' b' s) \<and>
              long_form env s (b + 1) = (case long_name env s a' b' of
                None \<Rightarrow> None
              | Some n \<Rightarrow> map_option (\<lambda>r. segment (b + 1) a' s @ n @ r) (long_form env s b'))"
          using 1(1) [of a b] True no more by (simp add: a_def [symmetric] bS)
        show ?thesis
        proof (cases "FindLFNorSFN_U expandable s (b + 1)")
          case None
          with IH fb have "long_form env s b = Some (drop b s)"
            using more by (simp add: Cons_nth_drop_Suc)
          with find None form comp n join show ?thesis by simp
        next
          case (Some ab')
          obtain a' b' where ab': "ab' = (a', b')" by (cases ab')
          with Some find_comp_bounds [of expandable s "b + 1" a' b'] have le: "b + 1 \<le> a'" by simp
          have "segment p a s @ segment a b s @ s ! b # segment (b + 1) a' s = segment p a' s"
          proof -
            have "segment p a s @ segment a b s @ segment b a' s = segment p a' s"
              using le pa ab by (simp add: segment_append)
            then show ?thesis using segment_Suc [of b s a'] more le by simp
          qed
          then have join: "segment p a s @ segment a b s @ s ! b # segment (b + 1) a' s @ x = segment p a' s @ x" for x
            by (metis append.assoc append_Cons)
          have "map_option (\<lambda>r. segment p a s @ segment a b s @ s ! b # segment (b + 1) a' s @ m @ r) r =
              map_option (\<lambda>r. segment p a' s @ m @ r) r" for m r
            by (simp only: join)
          then show ?thesis
            using IH Some ab' find form comp n fb
            by (cases "long_name env s a' b'") (simp_all add: option.map_comp comp_def)
        qed
      qed
    qed
  qed
qed

text \<open>The loop: the length and, where everything fits, the text.\<close>

lemma expand_loop_spec:
  assumes "FindLFNorSFN_U expandable s p = Some (a, b)" "src \<le> p" "length out \<le> ret" "out = [] \<or> length out < cch"
  shows "case expand_loop env s cch src a b ret out of (r, out') \<Rightarrow>
    (out' = [] \<or> length out' < cch) \<and>
    (case long_form env s p of
       None \<Rightarrow> r = None
     | Some f \<Rightarrow> \<exists>src' ret'. r = Some (src', ret', out') \<and> src' \<le> length s \<and>
         ret' + (length s - src') = ret + (p - src) + length f \<and>
         (cch > ret + (p - src) + length f \<longrightarrow> out' @ drop src' s = out @ segment src p s @ f))"
  using assms
proof (induction "length s - b" arbitrary: p src a b ret out rule: less_induct)
  case (less b p src a ret out)
  have ab: "p \<le> a" "a < b" "b \<le> length s" "a < length s" using find_comp_bounds [OF less(2)] by auto
  define out1 where "out1 = append_if (a - src > 0 \<and> cch > ret + (a - src)) out (segment src a s)"
  have len1: "length out1 \<le> ret + (a - src)" "out1 = [] \<or> length out1 < cch"
    using less(4,5) ab by (auto simp: out1_def append_if_def)
  have fits1: "cch > ret + (a - src) \<Longrightarrow> out1 = out @ segment src a s"
    by (cases "a - src = 0") (auto simp: out1_def append_if_def segment_def)
  from long_form_find [of p s env] less(2) ab have ex: "expandable (segment a b s)"
    and form: "long_form env s p = (case long_name env s a b of None \<Rightarrow> None
        | Some n \<Rightarrow> map_option (\<lambda>r. segment p a s @ n @ r) (long_form env s b))"
    by auto
  show ?case
  proof (cases "find_first env (take b s)")
    case None
    then have "long_name env s a b = None" using ex by (simp add: long_name_def)
    with None form len1 show ?thesis
      by (subst expand_loop.simps) (simp add: out1_def Let_def)
  next
    case (Some name)
    define piece where "piece = (if name \<noteq> [] then name else segment a b s)"
    define ret2 where "ret2 = ret + (a - src) + length piece"
    define out2 where "out2 = append_if (cch > ret2) out1 piece"
    have n: "long_name env s a b = Some piece" using ex Some by (simp add: long_name_def piece_def)
    have len2: "length out2 \<le> ret2" "out2 = [] \<or> length out2 < cch"
      using len1 by (auto simp: out2_def append_if_def ret2_def)
    have fits2: "cch > ret2 \<Longrightarrow> out2 = out @ segment src a s @ piece"
      using fits1 by (simp add: out2_def append_if_def ret2_def)
    have step: "expand_loop env s cch src a b ret out =
        (if \<not> b < length s then (Some (b, ret2, out2), out2)
         else case FindLFNorSFN_U expandable s b of
             None \<Rightarrow> (Some (b, ret2, out2), out2)
           | Some (a', b') \<Rightarrow> expand_loop env s cch b a' b' ret2 out2)"
      unfolding out2_def ret2_def piece_def out1_def
      by (subst expand_loop.simps) (simp only: Let_def Some option.case)
    have pieces: "segment src p s @ segment p a s = segment src a s" "(p - src) + (a - p) = a - src"
      using segment_append [of src p a s] less(3) ab by auto
    show ?thesis
    proof (cases "b < length s \<and> FindLFNorSFN_U expandable s b \<noteq> None")
      case False
      then have tail: "long_form env s b = Some (drop b s)"
      proof (cases "b < length s")
        case True
        with False have "FindLFNorSFN_U expandable s b = None" by blast
        with long_form_find [of b s env] ab(3) show ?thesis by simp
      next
        case no: False
        then have "long_form env s b = Some []" by (subst long_form.simps) simp
        with no show ?thesis by simp
      qed
      have run: "expand_loop env s cch src a b ret out = (Some (b, ret2, out2), out2)"
        using False unfolding step by (cases "FindLFNorSFN_U expandable s b") auto
      have lf: "long_form env s p = Some (segment p a s @ piece @ drop b s)" using form n tail by simp
      have "ret2 + (length s - b) = ret + (p - src) + length (segment p a s @ piece @ drop b s)"
        using pieces(2) ab less(3) by (simp add: ret2_def)
      moreover have "out2 @ drop b s = out @ segment src p s @ segment p a s @ piece @ drop b s"
        if "cch > ret + (p - src) + length (segment p a s @ piece @ drop b s)"
        using fits2 that pieces ab by (simp add: ret2_def)
      ultimately show ?thesis
        unfolding run lf prod.case option.case using len2(2) ab(3) by blast
    next
      case True
      then obtain a' b' where f: "FindLFNorSFN_U expandable s b = Some (a', b')" by auto
      have run: "expand_loop env s cch src a b ret out = expand_loop env s cch b a' b' ret2 out2"
        using True f unfolding step by simp
      have IH: "case expand_loop env s cch b a' b' ret2 out2 of (r, out') \<Rightarrow>
        (out' = [] \<or> length out' < cch) \<and>
        (case long_form env s b of
           None \<Rightarrow> r = None
         | Some f \<Rightarrow> \<exists>src' ret'. r = Some (src', ret', out') \<and> src' \<le> length s \<and>
             ret' + (length s - src') = ret2 + (b - b) + length f \<and>
             (cch > ret2 + (b - b) + length f \<longrightarrow> out' @ drop src' s = out2 @ segment b b s @ f))"
      proof (rule less(1) [OF _ f order_refl len2])
        show "length s - b' < length s - b" using find_comp_bounds [OF f] True by auto
      qed
      obtain r out' where ro: "expand_loop env s cch b a' b' ret2 out2 = (r, out')" by fastforce
      show ?thesis
      proof (cases "long_form env s b")
        case None
        with IH run ro form n show ?thesis by simp
      next
        case (Some f)
        from IH Some ro obtain src' ret' where
          res: "r = Some (src', ret', out')" "src' \<le> length s" "out' = [] \<or> length out' < cch"
            "ret' + (length s - src') = ret2 + length f"
            "cch > ret2 + length f \<Longrightarrow> out' @ drop src' s = out2 @ f"
          by auto
        have lf: "long_form env s p = Some (segment p a s @ piece @ f)" using form n Some by simp
        have len: "ret + (p - src) + length (segment p a s @ piece @ f) = ret2 + length f"
          using pieces(2) ab less(3) by (simp add: ret2_def)
        have whole: "out' @ drop src' s = out @ segment src p s @ segment p a s @ piece @ f" if "cch > ret2 + length f"
          using res(5) [OF that] fits2 that pieces(1) by simp
        show ?thesis
          unfolding run ro lf prod.case option.case len using res(1-4) whole by blast
      qed
    qed
  qed
qed

section \<open>The whole function\<close>

text \<open>A path without short components stays as it is.\<close>

lemma no_short_component:
  assumes "(case SkipPathTypeIndicator_U s of None \<Rightarrow> None
    | Some p \<Rightarrow> if p < length s then FindLFNorSFN_U expandable s p else None) = None"
  shows "long_path_of env s = Some s"
proof (cases "SkipPathTypeIndicator_U s")
  case (Some p)
  have "long_form env s p = Some (drop p s)"
  proof (cases "p < length s")
    case True
    with assms Some have "FindLFNorSFN_U expandable s p = None" by simp
    with True long_form_find [of p s env] show ?thesis by simp
  next
    case False
    then show ?thesis by (subst long_form.simps) simp
  qed
  with Some show ?thesis by (simp add: long_path_of_def)
qed (simp add: long_path_of_def)

text \<open>Otherwise it is what the loop over the short components makes of it.\<close>

lemma long_path_by_loop:
  assumes "attributes_ok env s" "copy_memory env" "buffer_memory env"
    and "SkipPathTypeIndicator_U s = Some p" "p < length s" "FindLFNorSFN_U expandable s p = Some (a, b)"
    and "expand_loop env s (if buf then cch else 0) 0 a b 0 [] = (r, out)"
  shows "GetLongPathNameW env (Some s) buf overlap cch =
    (case (r, out) of
       (None, out) \<Rightarrow> (0, if cch > 0 \<and> buf \<and> overlap \<or> out = [] then Nothing_written else Part_written out)
     | (Some (src, ret, _), out) \<Rightarrow>
         let ret = ret + (length s - src) in
         if cch > ret \<and> buf then (ret, All_written (out @ drop src s))
         else (ret + 1, if cch > 0 \<and> buf \<and> overlap \<or> out = [] then Nothing_written else Part_written out))"
  unfolding assms(7) [symmetric] GetLongPathNameW_def Let_def option.case assms(4,6)
  using assms(1-3,5) by simp

text \<open>
  C16: where the path exists and memory suffices, \<open>GetLongPathNameW\<close> computes the path in which every
  component that is not a long name is replaced by its name in the directory: it returns 0 if one
  of them is not found there, the length and the whole path if the path and its terminator fit
  the buffer, and otherwise the size of the buffer that would do. It never writes beyond the
  buffer, whether or not the buffer overlaps the path.
\<close>

theorem long_path_expands:
  assumes "attributes_ok env s" "copy_memory env" "buffer_memory env"
  shows "(case long_path_of env s of
      None \<Rightarrow> fst (GetLongPathNameW env (Some s) buf overlap cch) = 0
    | Some f \<Rightarrow>
        if buf \<and> length f < cch then GetLongPathNameW env (Some s) buf overlap cch = (length f, All_written f)
        else fst (GetLongPathNameW env (Some s) buf overlap cch) = length f + 1) \<and>
    (case snd (GetLongPathNameW env (Some s) buf overlap cch) of
      Nothing_written \<Rightarrow> True
    | Part_written f \<Rightarrow> buf \<and> length f < cch
    | All_written f \<Rightarrow> buf \<and> length f < cch)"
proof (cases "case SkipPathTypeIndicator_U s of None \<Rightarrow> None | Some p \<Rightarrow> if p < length s then FindLFNorSFN_U expandable s p else None")
  case None
  note no_short_component [OF None, of env]
  moreover have "GetLongPathNameW env (Some s) buf overlap cch =
      (if cch > length s \<and> buf then (length s, All_written s) else (length s + 1, Nothing_written))"
    using assms(1) None by (simp add: GetLongPathNameW_def)
  ultimately show ?thesis by auto
next
  case (Some ab)
  then obtain p a b where p: "SkipPathTypeIndicator_U s = Some p" "p < length s"
    "FindLFNorSFN_U expandable s p = Some (a, b)"
    by (cases ab) (auto split: option.splits if_splits)
  define own where "own \<longleftrightarrow> cch > 0 \<and> buf \<and> overlap"
  define cap where "cap = (if buf then cch else 0)"
  obtain r out where run: "expand_loop env s cap 0 a b 0 [] = (r, out)" by fastforce
  have spec: "(out = [] \<or> length out < cap) \<and>
    (case long_form env s p of
       None \<Rightarrow> r = None
     | Some f \<Rightarrow> \<exists>src' ret'. r = Some (src', ret', out) \<and> src' \<le> length s \<and>
         ret' + (length s - src') = p + length f \<and>
         (cap > p + length f \<longrightarrow> out @ drop src' s = take p s @ f))"
    using expand_loop_spec [OF p(3), of 0 "[]" 0 cap env] run
    by (cases "long_form env s p") (simp_all add: segment_0)
  note top = long_path_by_loop [OF assms p run [unfolded cap_def], of overlap, folded own_def]
  have form: "long_path_of env s = map_option ((@) (take p s)) (long_form env s p)"
    using p by (simp add: long_path_of_def)
  show ?thesis
  proof (cases "long_form env s p")
    case None
    with spec top form show ?thesis by (auto simp: cap_def split: if_splits)
  next
    case (Some f)
    with spec obtain src' ret' where res: "r = Some (src', ret', out)"
      "ret' + (length s - src') = p + length f" "cap > p + length f \<Longrightarrow> out @ drop src' s = take p s @ f"
      by auto
    have len: "length (take p s @ f) = p + length f" using p(2) by simp
    have "GetLongPathNameW env (Some s) buf overlap cch =
        (if cch > p + length f \<and> buf then (p + length f, All_written (take p s @ f))
         else (p + length f + 1, if own \<or> out = [] then Nothing_written else Part_written out))"
      unfolding top res(1) using res(2,3) by (simp add: cap_def Let_def)
    with Some form spec len show ?thesis by (auto simp: cap_def split: if_splits)
  qed
qed

text \<open>
  The branch for paths of the form \<open>\\?\UNC\<close> compares the whole path with its third and later
  characters and is never taken, and such paths count as device paths: they have no components to
  expand and come back as they are.
\<close>

lemma unc_branch_dead:
  "RtlDetermineDosPathNameType_U s = UncAbsolute \<Longrightarrow> \<not> same_start s ([63, backslash] @ W ''UNC'')"
  by (cases s) (auto simp: RtlDetermineDosPathNameType_U_def same_start_def is_sep_def lower_w_def backslash_def
      split: if_splits)

text \<open>
  A path that starts with \<open>\\?\<close> is never expanded, whatever its components are.
\<close>

lemma device_path_unchanged_lemma:
  assumes "attributes_ok env (backslash # backslash # 63 # backslash # s)"
  shows "GetLongPathNameW env (Some (backslash # backslash # 63 # backslash # s)) buf overlap cch =
    (if buf \<and> length s + 4 < cch then (length s + 4, All_written (backslash # backslash # 63 # backslash # s))
     else (length s + 5, Nothing_written))"
  using assms
  by (auto simp: GetLongPathNameW_def SkipPathTypeIndicator_U_def RtlDetermineDosPathNameType_U_def is_sep_def
      backslash_def)

text \<open>The directory of the examples has one entry, reached by two short paths.\<close>

definition tiny_dir :: lp_env where
  "tiny_dir = \<lparr>attributes_ok = (\<lambda>_. True),
     find_first = (\<lambda>p. if p = W ''C:/A~1'' then Some (W ''Alphabet'') else None),
     copy_memory = True, buffer_memory = True\<rparr>"

lemma tiny_long_path: "long_path_of tiny_dir (W ''C:/A~1'') = Some (W ''C:/Alphabet'')"
  by (simp add: long_path_of_def SkipPathTypeIndicator_U_def RtlDetermineDosPathNameType_U_def is_sep_def
      backslash_def long_form.simps long_name_def segment_def skip_while_def expandable_def IsLongName_U_def
      tiny_dir_def)

lemma tiny_env: "attributes_ok tiny_dir p" "copy_memory tiny_dir" "buffer_memory tiny_dir"
  by (simp_all add: tiny_dir_def)

theorem long_path_expands_witness:
  "GetLongPathNameW tiny_dir (Some (W ''C:/A~1'')) True True 12 = (11, All_written (W ''C:/Alphabet'')) \<and>
   fst (GetLongPathNameW tiny_dir (Some (W ''C:/A~1'')) True True 11) = 12"
  using long_path_expands [of tiny_dir "W ''C:/A~1''" True True 12]
    long_path_expands [of tiny_dir "W ''C:/A~1''" True True 11]
    tiny_long_path
  by (simp add: tiny_env)

end
