(* ===== verification/FileApi.thy ===== *)
theory FileApi
  imports FinalPath
begin

text \<open>
  Model of \<open>src/legacy/shared/fileapi.c\<close>: reading and setting information about an open file. A
  request carries the structure the caller's pointer refers to, of the class asked for; sizes
  are those of the 64-bit structures. Renaming goes through \<open>GetFinalPathNameByHandleW\<close> as it is
  modelled in \<open>FinalPath\<close>. Heap blocks, open handles and the calls that change the file system
  are recorded in the state.
\<close>

definition ERROR_INSUFFICIENT_BUFFER :: nat where "ERROR_INSUFFICIENT_BUFFER = 122"
definition ERROR_OUTOFMEMORY :: nat where "ERROR_OUTOFMEMORY = 14"

lemmas file_errors = error_codes ERROR_INSUFFICIENT_BUFFER_def ERROR_OUTOFMEMORY_def

definition FILE_ATTRIBUTE_DIRECTORY :: DWORD where "FILE_ATTRIBUTE_DIRECTORY = 0x10"
definition FILE_ATTRIBUTE_REPARSE_POINT :: DWORD where "FILE_ATTRIBUTE_REPARSE_POINT = 0x400"

section \<open>Reading\<close>

datatype info_class = FileBasicInfo | FileStandardInfo | FileAttributeTagInfo | Other_class nat

record by_handle =
  ftCreationTime :: ULONGLONG
  ftLastAccessTime :: ULONGLONG
  ftLastWriteTime :: ULONGLONG
  dwFileAttributes :: DWORD
  nFileSizeLow :: DWORD
  nFileSizeHigh :: DWORD
  nNumberOfLinks :: DWORD

datatype file_info =
    Basic (created: ULONGLONG) (accessed: ULONGLONG) (modified: ULONGLONG) (changed: ULONGLONG) (attributes: DWORD)
  | Standard (allocation: ULONGLONG) (end_of_file: ULONGLONG) (links: DWORD) (delete_pending: bool) (directory: bool)
  | Tag (attributes: DWORD) (reparse_tag: DWORD)

text \<open>The two halves of a \<open>LARGE_INTEGER\<close>.\<close>

definition large_integer :: "DWORD \<Rightarrow> DWORD \<Rightarrow> ULONGLONG" where
  "large_integer low high = push_bit 32 (ucast high) OR ucast low"

text \<open>
  \<open>by_handle\<close> is the answer of \<open>GetFileInformationByHandle\<close>, an error or the information; \<open>tag\<close> that
  of the reparse point request.
\<close>

definition GetFileInformationByHandleEx ::
    "nat + by_handle \<Rightarrow> DWORD option \<Rightarrow> bool \<Rightarrow> bool \<Rightarrow> info_class \<Rightarrow> nat \<Rightarrow> nat + file_info" where
  "GetFileInformationByHandleEx by_handle tag valid buf cls n =
     (if \<not> valid \<or> \<not> buf then Inl ERROR_INVALID_PARAMETER
      else case cls of
          FileBasicInfo \<Rightarrow>
            if n < 40 then Inl ERROR_INSUFFICIENT_BUFFER
            else (case by_handle of
                Inl e \<Rightarrow> Inl e
              | Inr i \<Rightarrow> Inr (Basic (ftCreationTime i) (ftLastAccessTime i) (ftLastWriteTime i)
                  (ftLastWriteTime i) (dwFileAttributes i)))
        | FileStandardInfo \<Rightarrow>
            if n < 24 then Inl ERROR_INSUFFICIENT_BUFFER
            else (case by_handle of
                Inl e \<Rightarrow> Inl e
              | Inr i \<Rightarrow>
                  let fileSize = large_integer (nFileSizeLow i) (nFileSizeHigh i)
                  in Inr (Standard fileSize fileSize (nNumberOfLinks i) False
                       (dwFileAttributes i AND FILE_ATTRIBUTE_DIRECTORY \<noteq> 0)))
        | FileAttributeTagInfo \<Rightarrow>
            if n < 8 then Inl ERROR_INSUFFICIENT_BUFFER
            else (case by_handle of
                Inl e \<Rightarrow> Inl e
              | Inr i \<Rightarrow>
                  Inr (Tag (dwFileAttributes i)
                    (if dwFileAttributes i AND FILE_ATTRIBUTE_REPARSE_POINT \<noteq> 0
                     then (case tag of None \<Rightarrow> 0 | Some t \<Rightarrow> t) else 0)))
        | Other_class k \<Rightarrow> Inl ERROR_INVALID_PARAMETER)"

section \<open>Setting\<close>

datatype set_request =
    Set_basic ULONGLONG ULONGLONG ULONGLONG ULONGLONG DWORD
  | Set_rename bool wstring
  | Set_disposition bool
  | Set_other nat

text \<open>What is handed to the kernel or to \<open>MoveFileExW\<close>; \<open>None\<close> is a source that was never written.\<close>

datatype change =
    Nt_basic ULONGLONG ULONGLONG ULONGLONG ULONGLONG DWORD
  | Nt_disposition bool
  | Move "wstring option" wstring bool

record file_state =
  books :: counts
  opened :: "nat set"
  changes :: "change list"
  file_error :: nat

record set_env =
  path_env :: genv
  nt_memory :: bool
  nt_status :: nat
  move_error :: nat

definition MAX_PATH :: nat where "MAX_PATH = 260"

datatype set_outcome = Set_never | Set_wild | Set_done bool file_state

definition fail_with :: "nat \<Rightarrow> file_state \<Rightarrow> set_outcome" where
  "fail_with e s = Set_done False (s\<lparr>file_error := e\<rparr>)"

text \<open>The common tail: the prepared block goes to \<open>NtSetInformationFile\<close> and is freed.\<close>

definition nt_set :: "set_env \<Rightarrow> change \<Rightarrow> file_state \<Rightarrow> set_outcome" where
  "nt_set env ch s =
     (if \<not> nt_memory env then fail_with ERROR_OUTOFMEMORY s
      else
        let s = s\<lparr>books := gained 1 (books s)\<rparr> in
        if nt_status env = 0
        then Set_done True (s\<lparr>changes := changes s @ [ch], books := freed 1 (books s)\<rparr>)
        else Set_done False (s\<lparr>file_error := nt_status env, books := freed 1 (books s)\<rparr>))"

definition rename_by_path :: "set_env \<Rightarrow> nat \<Rightarrow> bool \<Rightarrow> wstring \<Rightarrow> file_state \<Rightarrow> set_outcome" where
  "rename_by_path env h replace name s =
     (case GetFinalPathNameByHandleW (path_env env) True MAX_PATH 0 (books s) of
        Never \<Rightarrow> Set_never
      | Wild \<Rightarrow> Set_wild
      | Answer a \<Rightarrow>
          let s = s\<lparr>books := counted a\<rparr> in
          if ret a = 0 then fail_with (last_error a) s
          else
            let s = s\<lparr>opened := opened s - {h}\<rparr> in
            if move_error env = 0
            then Set_done True (s\<lparr>changes := changes s @ [Move (written a) name replace]\<rparr>)
            else fail_with (move_error env) s)"

definition SetFileInformationByHandle ::
    "set_env \<Rightarrow> nat option \<Rightarrow> bool \<Rightarrow> set_request \<Rightarrow> nat \<Rightarrow> file_state \<Rightarrow> set_outcome" where
  "SetFileInformationByHandle env handle buf request n s =
     (case handle of
        None \<Rightarrow> fail_with ERROR_INVALID_PARAMETER s
      | Some h \<Rightarrow>
          if \<not> buf then fail_with ERROR_INVALID_PARAMETER s
          else case request of
              Set_basic a b c d f \<Rightarrow>
                if n < 40 then fail_with ERROR_INSUFFICIENT_BUFFER s else nt_set env (Nt_basic a b c d f) s
            | Set_rename replace name \<Rightarrow>
                if n < 24 then fail_with ERROR_INSUFFICIENT_BUFFER s else rename_by_path env h replace name s
            | Set_disposition d \<Rightarrow>
                if n < 1 then fail_with ERROR_INSUFFICIENT_BUFFER s else nt_set env (Nt_disposition d) s
            | Set_other k \<Rightarrow> fail_with ERROR_NOT_SUPPORTED s)"

section \<open>What the functions promise\<close>

text \<open>The size of a file is read back from its two halves.\<close>

lemma large_integer_halves:
  "unat (large_integer low high) = unat high * 2 ^ 32 + unat low"
proof -
  have "\<not> bit (push_bit 32 (ucast high) :: ULONGLONG) n \<or> \<not> bit (ucast low :: ULONGLONG) n" for n
    by (auto simp: bit_simps dest: bit_imp_le_length)
  then have "large_integer low high = push_bit 32 (ucast high) + ucast low"
    unfolding large_integer_def by (rule disjunctive_add [symmetric])
  moreover have up: "unat (ucast x :: ULONGLONG) = unat x" for x :: DWORD
    using unat_bound [of x] by (simp add: unsigned_ucast_eq take_bit_nat_eq_self)
  moreover have "unat high < 2 ^ 32" "unat low < 2 ^ 32"
    using unat_bound [of high] unat_bound [of low] by simp_all
  moreover from this have "unat high * 2 ^ 32 + unat low < 2 ^ 64" by simp
  ultimately show ?thesis
    by (simp add: push_bit_eq_mult unat_word_ariths up)
qed

text \<open>Renaming by path takes the handle once the path is known, whether or not the file is moved.\<close>

definition takes_handle :: "set_env \<Rightarrow> set_request \<Rightarrow> nat \<Rightarrow> file_state \<Rightarrow> bool" where
  "takes_handle env request n s \<longleftrightarrow>
     (case request of
        Set_rename replace name \<Rightarrow>
          24 \<le> n \<and> (case GetFinalPathNameByHandleW (path_env env) True MAX_PATH 0 (books s) of
                      Answer a \<Rightarrow> ret a \<noteq> 0 | _ \<Rightarrow> False)
      | _ \<Rightarrow> False)"

lemma nt_set_done:
  "nt_set env ch s = Set_done r s' \<Longrightarrow> books s' = books s \<and> opened s' = opened s \<and>
     changes s' = (if r then changes s @ [ch] else changes s)"
  by (auto simp: nt_set_def fail_with_def Let_def split: if_splits)

lemma rename_done:
  assumes env: "one_volume (path_env env)" "mem (path_env env) 5"
    and run: "rename_by_path env h replace name s = Set_done r s'"
  shows "\<exists>a. GetFinalPathNameByHandleW (path_env env) True MAX_PATH 0 (books s) = Answer a \<and>
    (books s' = books s \<or> falls_back (path_env env) 0 \<and> books s' = gained 1 (books s)) \<and>
    opened s' = (if ret a \<noteq> 0 then opened s - {h} else opened s) \<and>
    changes s' = (if r then changes s @ [Move (written a) name replace] else changes s) \<and>
    (r \<longrightarrow> ret a \<noteq> 0) \<and> (\<forall>p. written a = Some p \<longrightarrow> length p < MAX_PATH)"
proof (cases "GetFinalPathNameByHandleW (path_env env) True MAX_PATH 0 (books s)")
  case (Answer a)
  from final_path_lemma [OF env Answer] Answer run show ?thesis
    by (auto simp: rename_by_path_def fail_with_def Let_def split: if_splits)
qed (use run in \<open>simp_all add: rename_by_path_def\<close>)


text \<open>A rename that fails but takes the handle, and one that moves from an unwritten buffer.\<close>

definition deep_name :: wstring where
  "deep_name = backslash # replicate 300 97"

definition deep_system :: genv where
  "deep_system = old_system\<lparr>object_name := (\<lambda>_. (Success, 0, W ''/D'' @ deep_name)),
     file_name := (\<lambda>_. (Success, 0, deep_name)), normalized_name := (\<lambda>_. (Success, 0, deep_name))\<rparr>"

definition quiet :: file_state where
  "quiet = \<lparr>books = \<lparr>live = 0, devices = 0\<rparr>, opened = {4}, changes = [], file_error = 0\<rparr>"

lemma deep_answer:
  "GetFinalPathNameByHandleW deep_system True MAX_PATH 0 \<lparr>live = 0, devices = 0\<rparr> =
   Answer \<lparr>ret = 308, written = None, last_error = 8, counted = \<lparr>live = 0, devices = 0\<rparr>\<rparr>"
  by (simp add: GetFinalPathNameByHandleW_def deep_system_def old_system_def volume_type_of_def path_flags
      BasepGetObjectNTName_def BasepGetFileNameInformation_def query_name.simps with_names_def W_def
      volume_name_def BasepGetVolumeDosLetterNameFromNTName_def same_start_def lower_w_def deep_name_def
      backslash_def error_codes BasepGetVolumeDosLetterNameFromNTNameAndFileName_def drive_match_def
      contains_def lanman_def dos_letter_def owned_def finish_def cleanup_def gained_def freed_def MAX_PATH_def)

lemma deep_rename:
  "SetFileInformationByHandle \<lparr>path_env = deep_system, nt_memory = True, nt_status = 0, move_error = e\<rparr>
     (Some 4) True (Set_rename False (W ''x'')) 24 quiet =
   Set_done (e = 0) (if e = 0 then quiet\<lparr>opened := {}, changes := [Move None (W ''x'') False]\<rparr>
     else quiet\<lparr>opened := {}, file_error := e\<rparr>)"
  by (simp add: SetFileInformationByHandle_def rename_by_path_def quiet_def deep_answer fail_with_def Let_def)


end
