(* ===== verification/Fls.thy ===== *)
theory Fls
  imports Prelude
begin

text \<open>
  Model of \<open>src/legacy/shared/fibersapi.c\<close>: fiber-local storage on top of the thread-specific
  data of the pthread library. Keys and values are blocks of a heap, linked into lists that are
  walked through pointers to pointers; a read of a block that is not alive makes an operation
  \<open>None\<close>. The calls of the pthread library and the allocations answer as their arguments say:
  a created key is not in use and has the value null in every thread, as the library documents.
\<close>

section \<open>Walking a list with a pointer to a pointer\<close>

text \<open>
  The cursor points to the root of the list or to the link of a block. The walk stops at the first
  block that satisfies the test, or at null.
\<close>

datatype cursor = Root | After addr

partial_function (option) seek ::
    "(addr \<Rightarrow> addr option) \<Rightarrow> (addr \<Rightarrow> bool) \<Rightarrow> cursor \<Rightarrow> addr \<Rightarrow> (cursor \<times> addr) option" where
  "seek nx hit c p =
     (if p = 0 then Some (c, 0)
      else case nx p of
          None \<Rightarrow> None
        | Some q \<Rightarrow> if hit p then Some (c, p) else seek nx hit (After p) q)"

primrec slist :: "(addr \<Rightarrow> addr option) \<Rightarrow> addr \<Rightarrow> addr list \<Rightarrow> bool" where
  "slist nx p [] \<longleftrightarrow> p = 0"
| "slist nx p (a # as) \<longleftrightarrow> p = a \<and> a \<noteq> 0 \<and> (\<exists>q. nx a = Some q \<and> slist nx q as)"

lemma slist_unique: "slist nx p as \<Longrightarrow> slist nx p bs \<Longrightarrow> as = bs"
proof (induction as arbitrary: p bs)
  case Nil
  then show ?case by (cases bs) auto
next
  case (Cons a as)
  then show ?case by (cases bs) auto
qed

lemma slist_cong: "slist nx p as \<Longrightarrow> (\<And>a. a \<in> set as \<Longrightarrow> nx' a = nx a) \<Longrightarrow> slist nx' p as"
  by (induction as arbitrary: p) auto

lemma slist_suffix: "slist nx p (as @ bs) \<Longrightarrow> \<exists>q. slist nx q bs"
  by (induction as arbitrary: p) auto

lemma slist_distinct: "slist nx p as \<Longrightarrow> distinct as"
proof (induction as arbitrary: p)
  case (Cons a as)
  have "a \<notin> set as"
  proof
    assume "a \<in> set as"
    then obtain us vs where as: "as = us @ a # vs" by (meson split_list)
    from Cons.prems obtain q where "nx a = Some q" "slist nx q as" by auto
    moreover from this(2) as obtain r where "slist nx r (a # vs)" using slist_suffix by blast
    ultimately have "slist nx q vs" by auto
    with \<open>slist nx q as\<close> have "as = vs" by (rule slist_unique)
    with as show False by (metis append_self_conv2 list.distinct(1) append_eq_append_conv2 length_Cons length_append not_add_less2 less_Suc_eq)
  qed
  with Cons show ?case by auto
qed simp

lemma slist_nonnull: "slist nx p as \<Longrightarrow> 0 \<notin> set as"
  by (induction as arbitrary: p) auto

lemma slist_alive: "slist nx p as \<Longrightarrow> a \<in> set as \<Longrightarrow> nx a \<noteq> None"
  by (induction as arbitrary: p) auto

definition place :: "cursor \<Rightarrow> addr list \<Rightarrow> cursor" where
  "place c as = (if as = [] then c else After (last as))"

lemma seek_found:
  "slist nx p (as @ b # bs) \<Longrightarrow> hit b \<Longrightarrow> (\<And>a. a \<in> set as \<Longrightarrow> \<not> hit a) \<Longrightarrow> seek nx hit c p = Some (place c as, b)"
proof (induction as arbitrary: p c)
  case Nil
  then show ?case by (auto simp: seek.simps place_def)
next
  case (Cons a as)
  then obtain q where q: "p = a" "a \<noteq> 0" "nx a = Some q" "slist nx q (as @ b # bs)" by auto
  with Cons.IH [OF q(4)] Cons.prems(2,3) have "seek nx hit (After a) q = Some (place (After a) as, b)" by auto
  with q Cons.prems(3) [of a] show ?case by (subst seek.simps) (auto simp: place_def)
qed

lemma seek_missing:
  "slist nx p as \<Longrightarrow> (\<And>a. a \<in> set as \<Longrightarrow> \<not> hit a) \<Longrightarrow> seek nx hit c p = Some (place c as, 0)"
proof (induction as arbitrary: p c)
  case Nil
  then show ?case by (simp add: seek.simps place_def)
next
  case (Cons a as)
  then obtain q where q: "p = a" "a \<noteq> 0" "nx a = Some q" "slist nx q as" by auto
  with Cons.IH [OF q(4)] Cons.prems(2) have "seek nx hit (After a) q = Some (place (After a) as, 0)" by auto
  with q Cons.prems(2) [of a] show ?case by (subst seek.simps) (auto simp: place_def)
qed

text \<open>Storing the link of the block found through the cursor takes the block out of the list.\<close>

lemma slist_unlink:
  assumes "slist nx p (as @ b # bs)" "nx b = Some q"
  shows "slist (if as = [] then nx else nx(last as := Some q)) (if as = [] then q else p) (as @ bs)"
  using assms
proof (induction as arbitrary: p)
  case (Cons a as)
  then obtain r where r: "p = a" "a \<noteq> 0" "nx a = Some r" "slist nx r (as @ b # bs)" by auto
  have d: "distinct (a # as @ b # bs)" using Cons.prems(1) slist_distinct by fastforce
  show ?case
  proof (cases "as = []")
    case True
    with r Cons.prems(2) have "slist nx q bs" by auto
    then have "slist (nx(a := Some q)) q bs" using d by (auto intro: slist_cong)
    with True r show ?thesis by (auto simp: fun_upd_def)
  next
    case False
    from Cons.IH [OF r(4) Cons.prems(2)] False have "slist (nx(last as := Some q)) r (as @ bs)" by (simp add: fun_upd_def)
    moreover have "last as \<noteq> a" using d False by auto
    ultimately show ?thesis using r False by (auto simp: fun_upd_def)
  qed
qed auto

section \<open>The state and the operations\<close>

text \<open>
  \<open>struct fls_value\<close> and \<open>struct fls_key\<close>; a callback and a datum are 0 when null. \<open>specific t i\<close> is
  what \<open>pthread_getspecific\<close> returns for key \<open>i\<close> in thread \<open>t\<close>, and \<open>called\<close> logs the callbacks run,
  with their argument.
\<close>

record fls_value =
  owner :: addr
  vnext :: addr
  vdata :: nat

record fls_key =
  knext :: addr
  kvalues :: addr
  kkey :: nat
  callback :: nat

record fls =
  vheap :: "addr \<Rightarrow> fls_value option"
  kheap :: "addr \<Rightarrow> fls_key option"
  fls_keys :: addr
  specific :: "nat \<Rightarrow> nat \<Rightarrow> addr"
  called :: "(nat \<times> nat) list"
  fls_error :: nat

definition ENOMEM :: nat where "ENOMEM = 12"
definition FLS_OUT_OF_INDEXES :: nat where "FLS_OUT_OF_INDEXES = 0xFFFFFFFF"

definition knx :: "fls \<Rightarrow> addr \<Rightarrow> addr option" where
  "knx s k = map_option knext (kheap s k)"

definition vnx :: "fls \<Rightarrow> addr \<Rightarrow> addr option" where
  "vnx s v = map_option vnext (vheap s v)"

definition has_index :: "fls \<Rightarrow> nat \<Rightarrow> addr \<Rightarrow> bool" where
  "has_index s i k \<longleftrightarrow> (case kheap s k of None \<Rightarrow> False | Some key \<Rightarrow> kkey key = i)"

definition failure :: "nat \<Rightarrow> nat" where
  "failure rc = (if rc = ENOMEM then ERROR_NOT_ENOUGH_MEMORY else ERROR_INVALID_PARAMETER)"

definition fls_find_key :: "fls \<Rightarrow> nat \<Rightarrow> addr option" where
  "fls_find_key s i = map_option snd (seek (knx s) (has_index s i) Root (fls_keys s))"

definition set_values :: "addr \<Rightarrow> addr \<Rightarrow> fls \<Rightarrow> fls" where
  "set_values k v s = s\<lparr>kheap := (kheap s)(k := map_option (kvalues_update (\<lambda>_. v)) (kheap s k))\<rparr>"

definition set_vnext :: "addr \<Rightarrow> addr \<Rightarrow> fls \<Rightarrow> fls" where
  "set_vnext a v s = s\<lparr>vheap := (vheap s)(a := map_option (vnext_update (\<lambda>_. v)) (vheap s a))\<rparr>"

definition set_knext :: "addr \<Rightarrow> addr \<Rightarrow> fls \<Rightarrow> fls" where
  "set_knext a k s = s\<lparr>kheap := (kheap s)(a := map_option (knext_update (\<lambda>_. k)) (kheap s a))\<rparr>"

definition fls_unlink_value :: "addr \<Rightarrow> fls \<Rightarrow> fls option" where
  "fls_unlink_value v s =
     (case vheap s v of
        None \<Rightarrow> None
      | Some x \<Rightarrow>
          (case kheap s (owner x) of
             None \<Rightarrow> None
           | Some key \<Rightarrow>
               (case seek (vnx s) (\<lambda>p. p = v) Root (kvalues key) of
                  None \<Rightarrow> None
                | Some (c, p) \<Rightarrow>
                    if p = 0 then Some s
                    else Some (case c of Root \<Rightarrow> set_values (owner x) (vnext x) s
                                       | After a \<Rightarrow> set_vnext a (vnext x) s))))"

definition free_value :: "addr \<Rightarrow> fls \<Rightarrow> fls" where
  "free_value v s = s\<lparr>vheap := (vheap s)(v := None)\<rparr>"

definition run_callback :: "nat \<Rightarrow> nat \<Rightarrow> fls \<Rightarrow> fls" where
  "run_callback cb data s = (if cb \<noteq> 0 \<and> data \<noteq> 0 then s\<lparr>called := called s @ [(cb, data)]\<rparr> else s)"

definition fls_destroy_value :: "addr \<Rightarrow> fls \<Rightarrow> fls option" where
  "fls_destroy_value v s =
     (if v = 0 then Some s
      else case fls_unlink_value v s of
          None \<Rightarrow> None
        | Some s1 \<Rightarrow>
            (case vheap s1 v of
               None \<Rightarrow> None
             | Some x \<Rightarrow>
                 (case kheap s1 (owner x) of
                    None \<Rightarrow> None
                  | Some key \<Rightarrow> Some (run_callback (callback key) (vdata x) (free_value v s1)))))"

text \<open>The library runs the destructor of a key when a thread ends, after making its value null.\<close>

definition thread_exit :: "nat \<Rightarrow> nat \<Rightarrow> fls \<Rightarrow> fls option" where
  "thread_exit t i s =
     fls_destroy_value (specific s t i) (s\<lparr>specific := (specific s)(t := (specific s t)(i := 0))\<rparr>)"

text \<open>\<open>block\<close> is the block allocated, \<open>created\<close> the answer of \<open>pthread_key_create\<close>.\<close>

definition FlsAlloc :: "addr option \<Rightarrow> nat + nat \<Rightarrow> nat \<Rightarrow> fls \<Rightarrow> nat \<times> fls" where
  "FlsAlloc block created cb s =
     (case block of
        None \<Rightarrow> (FLS_OUT_OF_INDEXES, s\<lparr>fls_error := ERROR_NOT_ENOUGH_MEMORY\<rparr>)
      | Some k \<Rightarrow>
          (case created of
             Inl rc \<Rightarrow> (FLS_OUT_OF_INDEXES, s\<lparr>fls_error := failure rc\<rparr>)
           | Inr i \<Rightarrow>
               (i, s\<lparr>specific := (\<lambda>t. (specific s t)(i := 0)),
                     kheap := (kheap s)(k \<mapsto> \<lparr>knext = fls_keys s, kvalues = 0, kkey = i, callback = cb\<rparr>),
                     fls_keys := k\<rparr>)))"

text \<open>\<open>rc\<close> is what \<open>pthread_setspecific\<close> returns, or \<open>pthread_key_delete\<close>.\<close>

definition set_specific :: "nat \<Rightarrow> nat \<Rightarrow> addr \<Rightarrow> fls \<Rightarrow> fls" where
  "set_specific t i v s = s\<lparr>specific := (specific s)(t := (specific s t)(i := v))\<rparr>"

definition clear_value :: "nat \<Rightarrow> nat \<Rightarrow> nat \<Rightarrow> addr \<Rightarrow> fls \<Rightarrow> (bool \<times> fls) option" where
  "clear_value t i rc v s =
     (if v = 0 then Some (True, s)
      else if rc \<noteq> 0 then Some (False, s\<lparr>fls_error := failure rc\<rparr>)
      else map_option (\<lambda>s. (True, free_value v s)) (fls_unlink_value v (set_specific t i 0 s)))"

definition new_value :: "nat \<Rightarrow> nat \<Rightarrow> addr \<Rightarrow> nat \<Rightarrow> addr option \<Rightarrow> nat \<Rightarrow> fls \<Rightarrow> (bool \<times> fls) option" where
  "new_value t i k data block rc s =
     (case block of
        None \<Rightarrow> Some (False, s\<lparr>fls_error := ERROR_NOT_ENOUGH_MEMORY\<rparr>)
      | Some b \<Rightarrow>
          (case kheap s k of
             None \<Rightarrow> None
           | Some key \<Rightarrow>
               let s = set_values k b
                     (s\<lparr>vheap := (vheap s)(b \<mapsto> \<lparr>owner = k, vnext = kvalues key, vdata = data\<rparr>)\<rparr>)
               in if rc \<noteq> 0 then
                    map_option (\<lambda>s. (False, (free_value b s)\<lparr>fls_error := failure rc\<rparr>)) (fls_unlink_value b s)
                  else Some (True, set_specific t i b s)))"

definition replace_value :: "nat \<Rightarrow> nat \<Rightarrow> addr \<Rightarrow> nat \<Rightarrow> nat \<Rightarrow> fls \<Rightarrow> (bool \<times> fls) option" where
  "replace_value t i v data rc s =
     (case vheap s v of
        None \<Rightarrow> None
      | Some x \<Rightarrow>
          let s = s\<lparr>vheap := (vheap s)(v \<mapsto> x\<lparr>vdata := data\<rparr>)\<rparr>
          in if rc \<noteq> 0 then Some (False, s\<lparr>fls_error := failure rc\<rparr>)
             else Some (True, set_specific t i v s))"

definition FlsSetValue :: "nat \<Rightarrow> nat \<Rightarrow> nat \<Rightarrow> addr option \<Rightarrow> nat \<Rightarrow> fls \<Rightarrow> (bool \<times> fls) option" where
  "FlsSetValue t i data block rc s =
     (case fls_find_key s i of
        None \<Rightarrow> None
      | Some k \<Rightarrow>
          if k = 0 then Some (False, s\<lparr>fls_error := ERROR_INVALID_PARAMETER\<rparr>)
          else
            let v = specific s t i in
            if data = 0 then clear_value t i rc v s
            else if v = 0 then new_value t i k data block rc s
            else replace_value t i v data rc s)"

partial_function (option) free_values :: "nat \<Rightarrow> addr \<Rightarrow> fls \<Rightarrow> fls option" where
  "free_values cb p s =
     (if p = 0 then Some s
      else case vheap s p of
          None \<Rightarrow> None
        | Some x \<Rightarrow> free_values cb (vnext x) (free_value p (run_callback cb (vdata x) s)))"

definition FlsFree :: "nat \<Rightarrow> nat \<Rightarrow> fls \<Rightarrow> (bool \<times> fls) option" where
  "FlsFree i rc s =
     (case seek (knx s) (has_index s i) Root (fls_keys s) of
        None \<Rightarrow> None
      | Some (c, k) \<Rightarrow>
          if k = 0 then Some (False, s\<lparr>fls_error := ERROR_INVALID_PARAMETER\<rparr>)
          else (case kheap s k of
             None \<Rightarrow> None
           | Some key \<Rightarrow>
               let s = (case c of Root \<Rightarrow> s\<lparr>fls_keys := knext key\<rparr> | After a \<Rightarrow> set_knext a (knext key) s) in
               if rc \<noteq> 0 then
                 Some (False, (set_knext k (fls_keys s) s)\<lparr>fls_keys := k, fls_error := ERROR_INVALID_PARAMETER\<rparr>)
               else
                 map_option (\<lambda>s. (True, s\<lparr>kheap := (kheap s)(k := None)\<rparr>)) (free_values (callback key) (kvalues key) s)))"

text \<open>Whether the block of the thread has fiber data; regular threads have none.\<close>

definition IsThreadAFiber :: "addr \<Rightarrow> bool" where
  "IsThreadAFiber fiber_data \<longleftrightarrow> fiber_data \<noteq> 0"

section \<open>The shape of the heap\<close>

text \<open>
  What the lists leave out: the owner and the datum of a value, the index and the callback of a
  key. \<open>linked\<close> says that the key list holds exactly the keys alive, and the list of each key its
  values. \<open>tied\<close> says that no two keys share an index and that the values alive are exactly those
  some thread has for some key, each for one thread, with a datum that is not null.
\<close>

definition vview :: "fls \<Rightarrow> addr \<Rightarrow> (addr \<times> nat) option" where
  "vview s v = map_option (\<lambda>x. (owner x, vdata x)) (vheap s v)"

definition kview :: "fls \<Rightarrow> addr \<Rightarrow> (nat \<times> nat) option" where
  "kview s k = map_option (\<lambda>x. (kkey x, callback x)) (kheap s k)"

definition linked :: "fls \<Rightarrow> addr list \<Rightarrow> (addr \<Rightarrow> addr list) \<Rightarrow> bool" where
  "linked s ks vs \<longleftrightarrow>
     slist (knx s) (fls_keys s) ks \<and> set ks = dom (kheap s) \<and>
     (\<forall>k key. kheap s k = Some key \<longrightarrow>
        slist (vnx s) (kvalues key) (vs k) \<and> set (vs k) = {v. \<exists>d. vview s v = Some (k, d)})"

text \<open>The second half of \<open>linked\<close>, for any set of keys alive.\<close>

definition value_lists :: "fls \<Rightarrow> (addr \<Rightarrow> addr list) \<Rightarrow> bool" where
  "value_lists s vs \<longleftrightarrow> (\<forall>k key. kheap s k = Some key \<longrightarrow>
     slist (vnx s) (kvalues key) (vs k) \<and> set (vs k) = {v. \<exists>d. vview s v = Some (k, d)})"

lemma linked_iff:
  "linked s ks vs \<longleftrightarrow> slist (knx s) (fls_keys s) ks \<and> set ks = dom (kheap s) \<and> value_lists s vs"
  by (simp add: linked_def value_lists_def)

lemma value_lists_at:
  assumes "value_lists s vs" "kheap s k = Some key"
  shows "slist (vnx s) (kvalues key) (vs k)" "set (vs k) = {v. \<exists>d. vview s v = Some (k, d)}"
  using assms by (auto simp: value_lists_def)

definition tied :: "fls \<Rightarrow> bool" where
  "tied s \<longleftrightarrow>
     (\<forall>k k' i c c'. kview s k = Some (i, c) \<longrightarrow> kview s k' = Some (i, c') \<longrightarrow> k = k') \<and>
     (\<forall>v k d. vview s v = Some (k, d) \<longrightarrow>
        d \<noteq> 0 \<and> (\<exists>i c. kview s k = Some (i, c) \<and> (\<exists>!t. specific s t i = v))) \<and>
     (\<forall>t k i c. kview s k = Some (i, c) \<longrightarrow>
        specific s t i = 0 \<or> (\<exists>d. vview s (specific s t i) = Some (k, d)))"

definition fls_ok :: "fls \<Rightarrow> bool" where
  "fls_ok s \<longleftrightarrow> (\<exists>ks vs. linked s ks vs \<and> tied s)"

text \<open>What a client sees: the callback of each index and the datum of each thread and index.\<close>

definition callback_of :: "fls \<Rightarrow> nat \<Rightarrow> nat option" where
  "callback_of s i = (case fls_find_key s i of None \<Rightarrow> None | Some k \<Rightarrow> map_option callback (kheap s k))"

definition data_of :: "fls \<Rightarrow> nat \<Rightarrow> nat \<Rightarrow> nat option" where
  "data_of s t i =
     (case callback_of s i of None \<Rightarrow> None | Some c \<Rightarrow> map_option vdata (vheap s (specific s t i)))"

lemma view_None: "vview s v = None \<longleftrightarrow> vheap s v = None" "kview s k = None \<longleftrightarrow> kheap s k = None"
  by (simp_all add: vview_def kview_def)

lemma kview_Some: "kview s k = Some (i, c) \<longleftrightarrow> (\<exists>key. kheap s k = Some key \<and> kkey key = i \<and> callback key = c)"
  by (auto simp: kview_def)

lemma vview_Some: "vview s v = Some (k, d) \<longleftrightarrow> (\<exists>x. vheap s v = Some x \<and> owner x = k \<and> vdata x = d)"
  by (auto simp: vview_def)

lemma same_index: "tied s \<Longrightarrow> kview s k = Some (i, c) \<Longrightarrow> kview s k' = Some (i, c') \<Longrightarrow> k = k'"
  unfolding tied_def by blast

lemma tied_value:
  "tied s \<Longrightarrow> vview s v = Some (k, d) \<Longrightarrow> d \<noteq> 0 \<and> (\<exists>i c. kview s k = Some (i, c) \<and> (\<exists>!t. specific s t i = v))"
  unfolding tied_def by blast

lemma tied_holder:
  assumes "tied s" "vview s v = Some (k, d)"
  obtains i c t where "kview s k = Some (i, c)" "specific s t i = v" "\<And>u. specific s u i = v \<Longrightarrow> u = t"
proof -
  from tied_value [OF assms] obtain i c where ic: "kview s k = Some (i, c)" "\<exists>!t. specific s t i = v" by blast
  from ic(2) obtain t where "specific s t i = v" "\<And>u. specific s u i = v \<Longrightarrow> u = t" by (elim ex1E) blast
  with ic(1) show thesis by (rule that)
qed

lemma tied_slot:
  "tied s \<Longrightarrow> kview s k = Some (i, c) \<Longrightarrow> specific s t i = 0 \<or> (\<exists>d. vview s (specific s t i) = Some (k, d))"
  unfolding tied_def by blast

lemma linked_nonnull:
  assumes "linked s ks vs"
  shows "kheap s 0 = None" "tied s \<Longrightarrow> vheap s 0 = None"
proof -
  show k: "kheap s 0 = None"
    using assms slist_nonnull [of "knx s" "fls_keys s" ks] by (auto simp: linked_def)
  show "vheap s 0 = None" if "tied s"
  proof (rule ccontr)
    assume "vheap s 0 \<noteq> None"
    then obtain x where "vheap s 0 = Some x" by blast
    then have x: "vview s 0 = Some (owner x, vdata x)" by (simp add: vview_def)
    then obtain i c where "kview s (owner x) = Some (i, c)" using \<open>tied s\<close> unfolding tied_def by blast
    then obtain key where "kheap s (owner x) = Some key" by (auto simp: kview_Some)
    with assms x have "slist (vnx s) (kvalues key) (vs (owner x))" "0 \<in> set (vs (owner x))"
      by (auto simp: linked_def)
    then show False using slist_nonnull by blast
  qed
qed

text \<open>The search for an index, through the cursor.\<close>

lemma seek_listed:
  assumes "slist (knx s) (fls_keys s) ks" "k \<in> set ks" "tied s" "kview s k = Some (i, c)"
  obtains as bs where "ks = as @ k # bs" "seek (knx s) (has_index s i) Root (fls_keys s) = Some (place Root as, k)"
proof -
  from assms(4) obtain key where key: "kheap s k = Some key" "kkey key = i" by (auto simp: kview_Some)
  from assms(2) obtain as bs where ks: "ks = as @ k # bs" "k \<notin> set as" by (meson split_list_first)
  have "\<not> has_index s i a" if "a \<in> set as" for a
  proof
    assume "has_index s i a"
    then have "\<exists>c. kview s a = Some (i, c)" by (auto simp: has_index_def kview_def split: option.splits)
    with assms(3,4) have "a = k" unfolding tied_def by blast
    with that ks show False by simp
  qed
  moreover have "has_index s i k" using key by (simp add: has_index_def)
  ultimately show thesis using assms(1) ks by (intro that [of as bs]) (simp_all add: seek_found)
qed

lemma seek_key:
  assumes "linked s ks vs" "tied s" "kview s k = Some (i, c)"
  obtains as bs where "ks = as @ k # bs" "seek (knx s) (has_index s i) Root (fls_keys s) = Some (place Root as, k)"
proof (rule seek_listed [of s ks k i c])
  show "k \<in> set ks" using assms(1,3) by (auto simp: linked_def kview_Some)
qed (use assms that in \<open>simp_all add: linked_def\<close>)

lemma seek_no_key:
  assumes "linked s ks vs" "\<nexists>k c. kview s k = Some (i, c)"
  shows "\<exists>c. seek (knx s) (has_index s i) Root (fls_keys s) = Some (c, 0)"
proof -
  have "slist (knx s) (fls_keys s) ks" using assms(1) by (simp add: linked_def)
  moreover have "\<not> has_index s i a" for a
    using assms(2) by (auto simp: has_index_def kview_def split: option.splits)
  ultimately show ?thesis using seek_missing [of "knx s" "fls_keys s" ks "has_index s i" Root] by blast
qed

lemma find_key:
  assumes "linked s ks vs" "tied s"
  shows "kview s k = Some (i, c) \<Longrightarrow> fls_find_key s i = Some k"
    and "\<nexists>k c. kview s k = Some (i, c) \<Longrightarrow> fls_find_key s i = Some 0"
proof -
  show "kview s k = Some (i, c) \<Longrightarrow> fls_find_key s i = Some k"
    using seek_key [OF assms] by (metis fls_find_key_def option.simps(9) snd_conv)
  show "\<nexists>k c. kview s k = Some (i, c) \<Longrightarrow> fls_find_key s i = Some 0"
    using seek_no_key [OF assms(1)] by (auto simp: fls_find_key_def)
qed

lemma callback_of_iff:
  assumes "linked s ks vs" "tied s"
  shows "callback_of s i = Some c \<longleftrightarrow> (\<exists>k. kview s k = Some (i, c))"
proof (cases "\<exists>k c. kview s k = Some (i, c)")
  case True
  then obtain k c' where k: "kview s k = Some (i, c')" by blast
  then obtain key where key: "kheap s k = Some key" "callback key = c'" by (auto simp: kview_Some)
  have "callback_of s i = Some c'" by (simp add: callback_of_def find_key(1) [OF assms k] key)
  moreover have "(\<exists>k. kview s k = Some (i, c)) \<longleftrightarrow> c = c'"
  proof
    assume "\<exists>k. kview s k = Some (i, c)"
    then obtain k' where k': "kview s k' = Some (i, c)" by blast
    with same_index [OF assms(2) k k'] k show "c = c'" by simp
  qed (use k in blast)
  ultimately show ?thesis by auto
next
  case False
  with find_key(2) [OF assms False] linked_nonnull(1) [OF assms(1)] show ?thesis
    by (auto simp: callback_of_def)
qed

lemma data_of_eq:
  assumes "linked s ks vs" "tied s"
  shows "data_of s t i = (if \<exists>k c. kview s k = Some (i, c) then map_option snd (vview s (specific s t i)) else None)"
proof (cases "callback_of s i")
  case None
  with callback_of_iff [OF assms, of i] show ?thesis by (auto simp: data_of_def)
next
  case (Some c)
  with callback_of_iff [OF assms, of i c] show ?thesis
    by (auto simp: data_of_def vview_def option.map_comp comp_def)
qed

section \<open>Taking a value out\<close>

text \<open>Everything but the links.\<close>

definition same_view :: "fls \<Rightarrow> fls \<Rightarrow> bool" where
  "same_view s s' \<longleftrightarrow> vview s' = vview s \<and> kview s' = kview s \<and> fls_keys s' = fls_keys s \<and>
     specific s' = specific s \<and> called s' = called s \<and> fls_error s' = fls_error s \<and> knx s' = knx s"

lemma set_values_same: "same_view s (set_values k v s)" "vnx (set_values k v s) = vnx s"
  by (auto simp: same_view_def set_values_def vview_def kview_def knx_def vnx_def option.map_comp fun_eq_iff
      comp_def option.map_ident)

lemma set_vnext_same:
  "same_view s (set_vnext a v s)" "kheap (set_vnext a v s) = kheap s"
  "vheap s a \<noteq> None \<Longrightarrow> vnx (set_vnext a v s) = (vnx s)(a := Some v)"
  by (auto simp: same_view_def set_vnext_def vview_def kview_def knx_def vnx_def option.map_comp fun_eq_iff comp_def)

lemma free_value_view:
  "vview (free_value v s) = (vview s)(v := None)" "kview (free_value v s) = kview s"
  "kheap (free_value v s) = kheap s" "knx (free_value v s) = knx s" "fls_keys (free_value v s) = fls_keys s"
  "specific (free_value v s) = specific s" "called (free_value v s) = called s"
  "vnx (free_value v s) = (vnx s)(v := None)" "fls_error (free_value v s) = fls_error s"
  by (auto simp: free_value_def vview_def kview_def knx_def vnx_def fun_eq_iff)

text \<open>What the walk and the store through the cursor do, for a value in the list of its owner.\<close>

definition cut_value :: "addr list \<Rightarrow> addr \<Rightarrow> addr \<Rightarrow> fls \<Rightarrow> fls" where
  "cut_value as k q s = (if as = [] then set_values k q s else set_vnext (last as) q s)"

lemma unlink_run:
  assumes y: "vheap s v = Some y" and key: "kheap s (owner y) = Some key"
    and list: "slist (vnx s) (kvalues key) (as @ v # bs)"
  shows "fls_unlink_value v s = Some (cut_value as (owner y) (vnext y) s)"
proof -
  have "seek (vnx s) (\<lambda>p. p = v) Root (kvalues key) = Some (place Root as, v)"
    using list slist_distinct [OF list] by (intro seek_found [where bs = bs]) auto
  moreover have "v \<noteq> 0" using slist_nonnull [OF list] by auto
  ultimately show ?thesis using y key by (simp add: fls_unlink_value_def place_def cut_value_def)
qed

lemma cut_same: "same_view s (cut_value as k q s)"
  by (simp add: cut_value_def set_values_same set_vnext_same)

lemma cut_keys: "kheap (cut_value as k q s) k' = None \<longleftrightarrow> kheap s k' = None"
  by (simp add: cut_value_def set_values_def set_vnext_def)

lemma cut_lists:
  assumes lk: "value_lists s vs" and y: "vheap s v = Some y" and key: "kheap s (owner y) = Some key"
    and sp: "vs (owner y) = as @ v # bs"
  shows "value_lists (free_value v (cut_value as (owner y) (vnext y) s)) (vs(owner y := as @ bs))"
proof -
  let ?k = "owner y" and ?s = "cut_value as (owner y) (vnext y) s"
  note list = value_lists_at [OF lk key]
  have dist: "distinct (as @ v # bs)" using slist_distinct [OF list(1)] sp by simp
  have vy: "vnx s v = Some (vnext y)" using y by (simp add: vnx_def)
  from slist_unlink [OF list(1) [unfolded sp] this]
  have un: "slist (if as = [] then vnx s else (vnx s)(last as := Some (vnext y)))
      (if as = [] then vnext y else kvalues key) (as @ bs)" .
  have alive: "as \<noteq> [] \<Longrightarrow> vheap s (last as) \<noteq> None"
    using slist_alive [OF list(1), of "last as"] sp by (auto simp: vnx_def)
  have nx: "vnx ?s = (if as = [] then vnx s else (vnx s)(last as := Some (vnext y)))"
    using alive by (simp add: cut_value_def set_values_same set_vnext_same)
  have view: "vview (free_value v ?s) = (vview s)(v := None)"
    using cut_same [of s as ?k "vnext y"] by (simp add: free_value_view same_view_def)
  show ?thesis
    unfolding value_lists_def
  proof (intro allI impI)
    fix k' key' assume k': "kheap (free_value v ?s) k' = Some key'"
    then have k3: "kheap s k' \<noteq> None" using cut_keys by (metis free_value_view(3) option.distinct(1))
    then obtain key0 where key0: "kheap s k' = Some key0" by blast
    have rest: "(vs(?k := as @ bs)) k' = (if k' = ?k then as @ bs else vs k')" by simp
    have apart: "a \<in> set (vs k') \<Longrightarrow> k' \<noteq> ?k \<Longrightarrow> a \<notin> set (vs ?k)" for a
      using value_lists_at(2) [OF lk key0] list(2) by auto
    have "slist (vnx (free_value v ?s)) (kvalues key') ((vs(?k := as @ bs)) k')"
    proof (cases "k' = ?k")
      case True
      then have "kvalues key' = (if as = [] then vnext y else kvalues key)"
        using k' key by (auto simp: free_value_view cut_value_def set_values_def set_vnext_def split: if_splits)
      with un nx True rest show ?thesis
        using dist by (auto simp: free_value_view intro: slist_cong)
    next
      case False
      then have k2: "kheap s k' = Some key'"
        using k' by (auto simp: free_value_view cut_value_def set_values_def set_vnext_def split: if_splits)
      then have "slist (vnx s) (kvalues key') (vs k')" by (rule value_lists_at(1) [OF lk])
      moreover have "a \<noteq> v \<and> (as = [] \<or> a \<noteq> last as)" if "a \<in> set (vs k')" for a
        using apart [OF that False] sp last_in_set [of as] by auto
      ultimately show ?thesis
        using False rest nx by (auto simp: free_value_view intro!: slist_cong [of "vnx s"])
    qed
    moreover have "vview s v = Some (?k, vdata y)" using y by (simp add: vview_def)
    then have "set ((vs(?k := as @ bs)) k') = {va. \<exists>d. vview (free_value v ?s) va = Some (k', d)}"
      using rest list(2) value_lists_at(2) [OF lk key0] sp dist view by (auto split: if_splits)
    ultimately show "slist (vnx (free_value v ?s)) (kvalues key') ((vs(?k := as @ bs)) k') \<and>
        set ((vs(?k := as @ bs)) k') = {va. \<exists>d. vview (free_value v ?s) va = Some (k', d)}" by blast
  qed
qed

lemma unlink_value:
  assumes lk: "linked s ks vs" and x: "vview s v = Some (k, d)" and k: "kheap s k \<noteq> None"
  shows "\<exists>s'. fls_unlink_value v s = Some s' \<and> same_view s s' \<and>
    linked (free_value v s') ks (vs(k := remove1 v (vs k)))"
proof -
  from k obtain key where key: "kheap s k = Some key" by blast
  from x obtain y where y: "vheap s v = Some y" "owner y = k" "vdata y = d" by (auto simp: vview_Some)
  have vl: "value_lists s vs" using lk by (simp add: linked_iff)
  note list = value_lists_at [OF vl key]
  with x have "v \<in> set (vs k)" by auto
  then obtain as bs where sp: "vs k = as @ v # bs" "v \<notin> set as" by (meson split_list_first)
  let ?s = "cut_value as k (vnext y) s"
  have run: "fls_unlink_value v s = Some ?s"
    using unlink_run [OF y(1), of key as bs] y key list sp by simp
  have same: "same_view s ?s" by (rule cut_same)
  have "value_lists (free_value v ?s) (vs(k := remove1 v (vs k)))"
    using cut_lists [OF vl y(1), of key as bs] y key sp by (simp add: remove1_append)
  moreover have "slist (knx (free_value v ?s)) (fls_keys (free_value v ?s)) ks"
    using lk same by (simp add: linked_def same_view_def free_value_view)
  moreover have "set ks = dom (kheap (free_value v ?s))"
    using lk cut_keys by (simp add: linked_def free_value_view dom_def)
  ultimately show ?thesis using run same by (intro exI [of _ ?s]) (simp add: linked_iff)
qed

section \<open>Putting a value in\<close>

lemma link_value:
  assumes key: "kheap s k = Some key" and b: "b \<noteq> 0" "vheap s b = None"
    and s': "s' = set_values k b (s\<lparr>vheap := (vheap s)(b \<mapsto> \<lparr>owner = k, vnext = kvalues key, vdata = d\<rparr>)\<rparr>)"
  shows "value_lists s vs \<Longrightarrow> value_lists s' (vs(k := b # vs k))"
    "linked s ks vs \<Longrightarrow> linked s' ks (vs(k := b # vs k))"
    "vview s' = (vview s)(b \<mapsto> (k, d))" "kview s' = kview s"
    "specific s' = specific s" "called s' = called s" "fls_error s' = fls_error s" "fls_keys s' = fls_keys s"
proof -
  show vv: "vview s' = (vview s)(b \<mapsto> (k, d))" and "kview s' = kview s"
    by (auto simp: s' set_values_def vview_def kview_def option.map_comp comp_def fun_eq_iff)
  show "specific s' = specific s" "called s' = called s" "fls_error s' = fls_error s" "fls_keys s' = fls_keys s"
    by (simp_all add: s' set_values_def)
  have nx: "vnx s' = (vnx s)(b := Some (kvalues key))" and kn: "knx s' = knx s"
    using key by (auto simp: s' set_values_def vnx_def knx_def fun_eq_iff)
  show lists: "value_lists s' (vs(k := b # vs k))" if lk: "value_lists s vs"
    unfolding value_lists_def
  proof (intro allI impI)
    fix k' key' assume k': "kheap s' k' = Some key'"
    then obtain key0 where key0: "kheap s k' = Some key0" by (auto simp: s' set_values_def split: if_splits)
    have new: "a \<noteq> b" if "a \<in> set (vs k')" for a
      using that value_lists_at(2) [OF lk key0] b(2) by (auto simp: vview_def)
    have "slist (vnx s') (kvalues key0) (vs k')"
      using value_lists_at(1) [OF lk key0] by (rule slist_cong) (use nx new in auto)
    then have "slist (vnx s') (kvalues key') ((vs(k := b # vs k)) k')"
      using k' key key0 b nx by (auto simp: s' set_values_def split: if_splits)
    moreover have "set ((vs(k := b # vs k)) k') = {v. \<exists>d. vview s' v = Some (k', d)}"
      using value_lists_at(2) [OF lk key0] vv b view_None(1) [of s b] by auto
    ultimately show "slist (vnx s') (kvalues key') ((vs(k := b # vs k)) k') \<and>
      set ((vs(k := b # vs k)) k') = {v. \<exists>d. vview s' v = Some (k', d)}" by blast
  qed
  show "linked s' ks (vs(k := b # vs k))" if "linked s ks vs"
  proof -
    have "set ks = dom (kheap s')" using that key by (auto simp: linked_def s' set_values_def)
    then show ?thesis using that lists kn by (simp add: linked_iff s' set_values_def)
  qed
qed

text \<open>What the changes do to the ties.\<close>

lemma tied_new:
  assumes t: "tied s" and k: "kview s k = Some (i, c)" and b: "vview s b = None" "b \<noteq> 0" "d \<noteq> 0"
    and empty: "specific s t i = 0"
    and s': "vview s' = (vview s)(b \<mapsto> (k, d))" "kview s' = kview s"
      "specific s' = (specific s)(t := (specific s t)(i := b))"
    and null: "vview s 0 = None"
  shows "tied s'"
  unfolding tied_def s'
proof (intro conjI allI impI)
  fix k1 k2 j c1 c2 assume "kview s k1 = Some (j, c1)" "kview s k2 = Some (j, c2)"
  then show "k1 = k2" using same_index [OF t] by blast
next
  fix v k' d' assume v: "((vview s)(b \<mapsto> (k, d))) v = Some (k', d')"
  show "d' \<noteq> 0" using v b(3) tied_value [OF t] by (auto split: if_splits)
  show "\<exists>i' c. kview s k' = Some (i', c) \<and> (\<exists>!u. ((specific s)(t := (specific s t)(i := b))) u i' = v)"
  proof (cases "v = b")
    case True
    have "specific s u i \<noteq> b" for u using tied_slot [OF t k, of u] b by auto
    then have "\<exists>!u. ((specific s)(t := (specific s t)(i := b))) u i = b" by (auto split: if_splits)
    with True v k show ?thesis by auto
  next
    case False
    with v have "vview s v = Some (k', d')" by simp
    from tied_holder [OF t this] obtain j c' u where
      j: "kview s k' = Some (j, c')" "specific s u j = v" "\<And>u'. specific s u' j = v \<Longrightarrow> u' = u"
      by metis
    have "v \<noteq> 0" using \<open>vview s v = Some (k', d')\<close> null by (cases "v = 0") auto
    have "((specific s)(t := (specific s t)(i := b))) u' j = v \<longleftrightarrow> specific s u' j = v" for u'
      using False \<open>v \<noteq> 0\<close> empty by auto
    with j show ?thesis by auto
  qed
next
  fix u k' j c' assume k': "kview s k' = Some (j, c')"
  show "((specific s)(t := (specific s t)(i := b))) u j = 0 \<or>
      (\<exists>d'. ((vview s)(b \<mapsto> (k, d))) (((specific s)(t := (specific s t)(i := b))) u j) = Some (k', d'))"
  proof (cases "u = t \<and> j = i")
    case True
    with same_index [OF t k] k' show ?thesis by auto
  next
    case False
    then have "((specific s)(t := (specific s t)(i := b))) u j = specific s u j" by auto
    with tied_slot [OF t k', of u] b(1) show ?thesis by auto
  qed
qed

lemma tied_replace:
  assumes t: "tied s" and v: "vview s v = Some (k, d0)" "d \<noteq> 0"
    and s': "vview s' = (vview s)(v \<mapsto> (k, d))" "kview s' = kview s" "specific s' = specific s"
  shows "tied s'"
  unfolding tied_def s'
proof (intro conjI allI impI)
  fix k1 k2 j c1 c2 assume "kview s k1 = Some (j, c1)" "kview s k2 = Some (j, c2)"
  then show "k1 = k2" using same_index [OF t] by blast
next
  fix a k' d' assume "((vview s)(v \<mapsto> (k, d))) a = Some (k', d')"
  with v obtain d1 where "vview s a = Some (k', d1)" "d' = d1 \<or> d' = d" by (auto split: if_splits)
  with tied_value [OF t this(1)] v(2)
  show "d' \<noteq> 0" "\<exists>i c. kview s k' = Some (i, c) \<and> (\<exists>!t. specific s t i = a)" by auto
next
  fix u k' j c' assume "kview s k' = Some (j, c')"
  from tied_slot [OF t this, of u] v(1)
  show "specific s u j = 0 \<or> (\<exists>d'. ((vview s)(v \<mapsto> (k, d))) (specific s u j) = Some (k', d'))" by auto
qed

lemma tied_clear:
  assumes t: "tied s" and k: "kview s k = Some (i, c)" and v: "specific s t i = v" "v \<noteq> 0"
    and s': "vview s' = (vview s)(v := None)" "kview s' = kview s"
      "specific s' = (specific s)(t := (specific s t)(i := 0))"
    and null: "vview s 0 = None"
  shows "tied s'"
  unfolding tied_def s'
proof (intro conjI allI impI)
  fix k1 k2 j c1 c2 assume "kview s k1 = Some (j, c1)" "kview s k2 = Some (j, c2)"
  then show "k1 = k2" using same_index [OF t] by blast
next
  fix a k' d' assume a: "((vview s)(v := None)) a = Some (k', d')"
  then have av: "a \<noteq> v" "vview s a = Some (k', d')" by (auto split: if_splits)
  show "d' \<noteq> 0" using av(2) tied_value [OF t] by blast
  from tied_holder [OF t av(2)] obtain j c' u where
    j: "kview s k' = Some (j, c')" "specific s u j = a" "\<And>u'. specific s u' j = a \<Longrightarrow> u' = u" by metis
  have "a \<noteq> 0" using av(2) null by (cases "a = 0") auto
  then have "((specific s)(t := (specific s t)(i := 0))) u' j = a \<longleftrightarrow> specific s u' j = a" for u'
    using av(1) v(1) by auto
  with j show "\<exists>i' c. kview s k' = Some (i', c) \<and> (\<exists>!u. ((specific s)(t := (specific s t)(i := 0))) u i' = a)"
    by auto
next
  fix u k' j c' assume k': "kview s k' = Some (j, c')"
  obtain d where d: "vview s v = Some (k, d)" using tied_slot [OF t k, of t] v by auto
  show "((specific s)(t := (specific s t)(i := 0))) u j = 0 \<or>
      (\<exists>d'. ((vview s)(v := None)) (((specific s)(t := (specific s t)(i := 0))) u j) = Some (k', d'))"
  proof (cases "u = t \<and> j = i")
    case False
    then have same: "((specific s)(t := (specific s t)(i := 0))) u j = specific s u j" by auto
    have "specific s u j \<noteq> v" if "specific s u j \<noteq> 0"
    proof
      assume uj: "specific s u j = v"
      with tied_slot [OF t k', of u] that d have "k' = k" by auto
      with k k' have "j = i" by simp
      moreover from tied_value [OF t d] k obtain w where "\<And>u'. specific s u' i = v \<Longrightarrow> u' = w"
        by (metis option.inject prod.inject)
      ultimately have "u = w" "t = w" using uj v(1) by auto
      with \<open>j = i\<close> False show False by simp
    qed
    with tied_slot [OF t k', of u] same show ?thesis by auto
  qed simp
qed

section \<open>Setting a value\<close>

lemma ok_views:
  assumes "fls_ok s"
  shows "callback_of s i = Some c \<longleftrightarrow> (\<exists>k. kview s k = Some (i, c))"
    and "data_of s t i = (if \<exists>k c. kview s k = Some (i, c) then map_option snd (vview s (specific s t i)) else None)"
    and "vview s 0 = None"
  using assms callback_of_iff data_of_eq linked_nonnull(2) view_None(1) unfolding fls_ok_def by blast+

lemma option_eqI: "(\<And>c. x = Some c \<longleftrightarrow> y = Some c) \<Longrightarrow> x = y"
  by (cases x) (auto, metis option.exhaust)

lemma callbacks_same: "fls_ok s \<Longrightarrow> fls_ok s' \<Longrightarrow> kview s' = kview s \<Longrightarrow> callback_of s' = callback_of s"
proof
  fix i assume "fls_ok s" "fls_ok s'" "kview s' = kview s"
  then have "callback_of s' i = Some c \<longleftrightarrow> callback_of s i = Some c" for c
    by (simp add: ok_views(1))
  then show "callback_of s' i = callback_of s i" by (rule option_eqI)
qed

text \<open>The abstract operation: the datum of one thread and index.\<close>

definition data_set :: "nat \<Rightarrow> nat \<Rightarrow> nat option \<Rightarrow> (nat \<Rightarrow> nat \<Rightarrow> nat option) \<Rightarrow> nat \<Rightarrow> nat \<Rightarrow> nat option" where
  "data_set t i d f = f(t := (f t)(i := d))"

lemma data_same:
  "fls_ok s \<Longrightarrow> fls_ok s' \<Longrightarrow> kview s' = kview s \<Longrightarrow> vview s' = vview s \<Longrightarrow> specific s' = specific s \<Longrightarrow> data_of s' = data_of s"
  by (intro ext) (simp add: ok_views(2))

lemma field_views [simp]:
  "knx (s\<lparr>fls_error := e\<rparr>) = knx s" "vnx (s\<lparr>fls_error := e\<rparr>) = vnx s"
  "kview (s\<lparr>fls_error := e\<rparr>) = kview s" "vview (s\<lparr>fls_error := e\<rparr>) = vview s"
  "knx (s\<lparr>specific := f\<rparr>) = knx s" "vnx (s\<lparr>specific := f\<rparr>) = vnx s"
  "kview (s\<lparr>specific := f\<rparr>) = kview s" "vview (s\<lparr>specific := f\<rparr>) = vview s"
  by (simp_all add: kview_def vview_def knx_def vnx_def fun_eq_iff)

lemma error_ok [simp]:
  "linked (s\<lparr>fls_error := e\<rparr>) ks vs = linked s ks vs" "tied (s\<lparr>fls_error := e\<rparr>) = tied s"
  "fls_ok (s\<lparr>fls_error := e\<rparr>) = fls_ok s"
  "linked (s\<lparr>specific := f\<rparr>) ks vs = linked s ks vs"
  by (simp_all add: fls_ok_def linked_def tied_def)

lemma tied_views: "vview s' = vview s \<Longrightarrow> kview s' = kview s \<Longrightarrow> specific s' = specific s \<Longrightarrow> tied s' = tied s"
  by (simp add: tied_def)

text \<open>Taking the value of a thread and index away, then freeing it.\<close>

lemma take_away:
  assumes ok: "fls_ok s" and k: "kview s k = Some (i, c)" and v: "specific s t i = v" "v \<noteq> 0"
  obtains s' d where "fls_unlink_value v (set_specific t i 0 s) = Some s'" "vview s v = Some (k, d)"
    "fls_ok (free_value v s')" "kview s' = kview s" "vview s' = vview s" "called s' = called s"
    "callback_of (free_value v s') = callback_of s" "data_of (free_value v s') = data_set t i None (data_of s)"
    "fls_error s' = fls_error s"
proof -
  from ok obtain ks vs where lk: "linked s ks vs" and t: "tied s" by (auto simp: fls_ok_def)
  obtain d where d: "vview s v = Some (k, d)" using tied_slot [OF t k, of t] v by auto
  have "kheap (set_specific t i 0 s) k \<noteq> None" using k by (auto simp: set_specific_def kview_Some)
  then obtain s' where s': "fls_unlink_value v (set_specific t i 0 s) = Some s'"
      "same_view (set_specific t i 0 s) s'" "linked (free_value v s') ks (vs(k := remove1 v (vs k)))"
    using unlink_value [of "set_specific t i 0 s" ks vs v k d] lk d by (auto simp: set_specific_def)
  have view: "kview s' = kview s" "vview s' = vview s" "called s' = called s" "fls_error s' = fls_error s"
      "specific s' = (specific s)(t := (specific s t)(i := 0))"
    using s'(2) by (simp_all add: same_view_def set_specific_def)
  have "tied (free_value v s')"
    by (rule tied_clear [OF t k v]) (simp_all add: free_value_view view ok_views(3) [OF ok])
  with s'(3) have ok': "fls_ok (free_value v s')" unfolding fls_ok_def by blast
  have "data_of (free_value v s') u j = data_set t i None (data_of s) u j" for u j
  proof -
    have "specific s u j \<noteq> v" if "kview s k' = Some (j, c')" "\<not> (u = t \<and> j = i)" for k' c'
    proof
      assume uj: "specific s u j = v"
      with tied_slot [OF t that(1), of u] v(2) d have "k' = k" by auto
      with k that(1) have "j = i" by simp
      from tied_holder [OF t d] obtain i' c0 w where
        w: "kview s k = Some (i', c0)" "\<And>u. specific s u i' = v \<Longrightarrow> u = w" by metis
      with k have "i' = i" by simp
      with w(2) uj v(1) \<open>j = i\<close> that(2) show False by blast
    qed
    then show ?thesis
      using ok_views(3) [OF ok]
      by (auto simp: ok_views(2) [OF ok'] ok_views(2) [OF ok] free_value_view view data_set_def)
  qed
  then have "data_of (free_value v s') = data_set t i None (data_of s)" by blast
  moreover have "callback_of (free_value v s') = callback_of s"
    using callbacks_same [OF ok ok'] by (simp add: free_value_view view)
  ultimately show thesis using that s'(1) d ok' view by blast
qed

lemma error_sees:
  assumes "fls_ok s"
  shows "callback_of (s\<lparr>fls_error := e\<rparr>) = callback_of s" "data_of (s\<lparr>fls_error := e\<rparr>) = data_of s"
  using assms by (auto intro!: callbacks_same data_same)

lemma find_known:
  assumes "fls_ok s"
  shows "kview s k = Some (i, c) \<Longrightarrow> fls_find_key s i = Some k \<and> k \<noteq> 0"
    and "callback_of s i = None \<Longrightarrow> fls_find_key s i = Some 0"
proof -
  from assms obtain ks vs where lk: "linked s ks vs" and t: "tied s" by (auto simp: fls_ok_def)
  show "fls_find_key s i = Some k \<and> k \<noteq> 0" if "kview s k = Some (i, c)"
    using find_key(1) [OF lk t that] that linked_nonnull(1) [OF lk] by (cases "k = 0") (auto simp: kview_def)
  show "fls_find_key s i = Some 0" if "callback_of s i = None"
    using find_key(2) [OF lk t, of i] callback_of_iff [OF lk t, of i] that by fastforce
qed

text \<open>The fresh value is put into the list, and taken out again if the library refuses it.\<close>

lemma new_value_ok:
  assumes ok: "fls_ok s" and k: "kview s k = Some (i, c)" and empty: "specific s t i = 0"
    and fresh: "\<And>b. block = Some b \<Longrightarrow> b \<noteq> 0 \<and> vheap s b = None" and d: "d \<noteq> 0"
  shows "\<exists>r s'. new_value t i k d block rc s = Some (r, s') \<and> fls_ok s' \<and> called s' = called s \<and>
    callback_of s' = callback_of s \<and> (r \<longleftrightarrow> rc = 0 \<and> block \<noteq> None) \<and>
    data_of s' = (if r then data_set t i (Some d) (data_of s) else data_of s)"
proof (cases block)
  case None
  with ok show ?thesis by (intro exI [of _ False]) (simp add: new_value_def error_sees)
next
  case (Some b)
  from ok obtain ks vs where lk: "linked s ks vs" and t: "tied s" by (auto simp: fls_ok_def)
  obtain key where key: "kheap s k = Some key" using k by (auto simp: kview_Some)
  define s1 where "s1 = set_values k b (s\<lparr>vheap := (vheap s)(b \<mapsto> \<lparr>owner = k, vnext = kvalues key, vdata = d\<rparr>)\<rparr>)"
  have b: "b \<noteq> 0" "vheap s b = None" using fresh Some by auto
  note new = link_value(2) [OF key b s1_def lk] link_value(3-8) [OF key b s1_def]
  show ?thesis
  proof (cases "rc = 0")
    case True
    let ?s = "set_specific t i b s1"
    have run: "new_value t i k d block rc s = Some (True, ?s)"
      using Some key True by (simp add: new_value_def s1_def Let_def)
    have "tied ?s"
      by (rule tied_new [OF t k _ b(1) d empty])
        (simp_all add: set_specific_def new b view_None ok_views(3) [OF ok])
    with new(1) have ok': "fls_ok ?s" unfolding fls_ok_def set_specific_def by (auto simp del: fun_upd_apply)
    have "callback_of ?s = callback_of s"
      by (rule callbacks_same [OF ok ok']) (simp add: set_specific_def new)
    moreover have "data_of ?s u j = data_set t i (Some d) (data_of s) u j" for u j
    proof (cases "u = t \<and> j = i")
      case True
      with k show ?thesis unfolding ok_views(2) [OF ok'] by (auto simp: set_specific_def new data_set_def)
    next
      case False
      have "specific s u j \<noteq> b" if "kview s k' = Some (j, c')" for k' c'
        using tied_slot [OF t that, of u] b by (auto simp: vview_Some)
      with False show ?thesis
        unfolding ok_views(2) [OF ok'] data_set_def
        by (auto simp: ok_views(2) [OF ok] set_specific_def new)
    qed
    ultimately show ?thesis using run ok' new True Some by (auto simp: set_specific_def fun_eq_iff)
  next
    case False
    have "kheap s1 k \<noteq> None" using k new(3) by (metis view_None(2) option.distinct(1))
    with unlink_value [OF new(1), of b k d] new(2) obtain s2 where
      s2: "fls_unlink_value b s1 = Some s2" "same_view s1 s2" "linked (free_value b s2) ks (vs(k := vs k))"
      by auto
    let ?s = "(free_value b s2)\<lparr>fls_error := failure rc\<rparr>"
    have run: "new_value t i k d block rc s = Some (False, ?s)"
      using Some key False s2(1) by (simp add: new_value_def s1_def Let_def)
    have view: "vview (free_value b s2) = vview s" "kview (free_value b s2) = kview s"
      "specific (free_value b s2) = specific s" "called (free_value b s2) = called s"
      using s2(2) new view_None(1) [of s b] b by (auto simp: same_view_def free_value_view fun_eq_iff)
    have ok': "fls_ok (free_value b s2)"
      using s2(3) tied_views [OF view(1-3)] t unfolding fls_ok_def by auto
    then show ?thesis
      using run view False callbacks_same [OF ok ok'] data_same [OF ok ok']
      by (intro exI [of _ False]) (simp add: error_sees)
  qed
qed

lemma replace_value_ok:
  assumes ok: "fls_ok s" and k: "kview s k = Some (i, c)" and v: "specific s t i = v" "v \<noteq> 0" and d: "d \<noteq> 0"
  shows "\<exists>s'. replace_value t i v d rc s = Some (rc = 0, s') \<and> fls_ok s' \<and> called s' = called s \<and>
    callback_of s' = callback_of s \<and> data_of s' = data_set t i (Some d) (data_of s)"
proof -
  from ok obtain ks vs where lk: "linked s ks vs" and t: "tied s" by (auto simp: fls_ok_def)
  obtain d0 where d0: "vview s v = Some (k, d0)" using tied_slot [OF t k, of t] v by auto
  then obtain x where x: "vheap s v = Some x" "owner x = k" by (auto simp: vview_Some)
  define s1 where "s1 = s\<lparr>vheap := (vheap s)(v \<mapsto> x\<lparr>vdata := d\<rparr>)\<rparr>"
  have view: "vview s1 = (vview s)(v \<mapsto> (k, d))" "kview s1 = kview s" "specific s1 = specific s"
    "vnx s1 = vnx s" "knx s1 = knx s" "kheap s1 = kheap s" "fls_keys s1 = fls_keys s" "called s1 = called s"
    using x by (auto simp: s1_def vview_def kview_def vnx_def knx_def fun_eq_iff)
  have "linked s1 ks vs" using lk d0 by (auto simp: linked_def view)
  moreover have "tied s1" by (rule tied_replace [OF t d0 d view(1-3)])
  ultimately have ok': "fls_ok s1" unfolding fls_ok_def by blast
  have "data_of s1 u j = data_set t i (Some d) (data_of s) u j" for u j
  proof (cases "u = t \<and> j = i")
    case True
    with k v show ?thesis by (auto simp: ok_views(2) [OF ok'] view data_set_def)
  next
    case False
    have "specific s u j \<noteq> v" if "kview s k' = Some (j, c')" for k' c'
    proof
      assume uj: "specific s u j = v"
      with tied_slot [OF t that, of u] v d0 have "k' = k" by auto
      with k that have "j = i" by simp
      with uj False tied_holder [OF t d0] k v(1) show False by (metis option.inject prod.inject)
    qed
    with False show ?thesis by (auto simp: ok_views(2) [OF ok'] ok_views(2) [OF ok] view data_set_def)
  qed
  moreover have "set_specific t i v s1 = s1" using v(1) view(3) by (auto simp: set_specific_def)
  moreover have "callback_of s1 = callback_of s" by (rule callbacks_same [OF ok ok' view(2)])
  ultimately show ?thesis
    using x ok' view error_sees [OF ok'] by (auto simp: replace_value_def s1_def [symmetric] fun_eq_iff)
qed

lemma fls_set_lemma:
  assumes ok: "fls_ok s" and fresh: "\<And>b. block = Some b \<Longrightarrow> b \<noteq> 0 \<and> vheap s b = None"
  shows "\<exists>r s'. FlsSetValue t i d block rc s = Some (r, s') \<and> fls_ok s' \<and> called s' = called s \<and>
    callback_of s' = callback_of s \<and>
    (r \<longleftrightarrow> callback_of s i \<noteq> None \<and>
      (if data_of s t i = None then d = 0 \<or> rc = 0 \<and> block \<noteq> None else rc = 0)) \<and>
    data_of s' =
      (if r \<or> d \<noteq> 0 \<and> data_of s t i \<noteq> None
       then data_set t i (if d = 0 then None else Some d) (data_of s) else data_of s)"
proof (cases "callback_of s i")
  case None
  then have "data_of s t i = None" by (simp add: data_of_def)
  with None find_known(2) [OF ok None] ok show ?thesis
    by (intro exI [of _ False]) (simp add: FlsSetValue_def error_sees)
next
  case (Some c)
  then obtain k where k: "kview s k = Some (i, c)" using ok_views(1) [OF ok] by blast
  note find = find_known(1) [OF ok k]
  obtain ks vs where t: "tied s" using ok by (auto simp: fls_ok_def)
  have has: "data_of s t i = None \<longleftrightarrow> specific s t i = 0"
    using k tied_slot [OF t k, of t] ok_views(3) [OF ok] by (auto simp: ok_views(2) [OF ok])
  have unset: "data_set t i None (data_of s) = data_of s" if "data_of s t i = None"
    using that by (auto simp: data_set_def fun_eq_iff)
  show ?thesis
  proof (cases "specific s t i = 0")
    case True
    show ?thesis
    proof (cases "d = 0")
      case zero: True
      have "data_set t i None (data_of s) = data_of s" using unset True has by simp
      with zero True has Some find show ?thesis using ok
        by (intro exI [of _ True]) (simp add: FlsSetValue_def clear_value_def)
    next
      case False
      from new_value_ok [OF ok k True fresh False, of block rc] True has Some find False show ?thesis
        by (auto simp: FlsSetValue_def)
    qed
  next
    case False
    show ?thesis
    proof (cases "d = 0")
      case zero: True
      show ?thesis
      proof (cases "rc = 0")
        case True
        from take_away [OF ok k refl False] obtain s' where
          "fls_unlink_value (specific s t i) (set_specific t i 0 s) = Some s'"
          "fls_ok (free_value (specific s t i) s')" "called s' = called s"
          "callback_of (free_value (specific s t i) s') = callback_of s"
          "data_of (free_value (specific s t i) s') = data_set t i None (data_of s)"
          by metis
        with True False zero has Some find show ?thesis
          by (intro exI [of _ True]) (simp add: FlsSetValue_def clear_value_def free_value_view)
      next
        case refused: False
        with False zero has Some find ok show ?thesis
          by (intro exI [of _ False]) (simp add: FlsSetValue_def clear_value_def error_sees)
      qed
    next
      case nonzero: False
      from replace_value_ok [OF ok k refl False nonzero, of rc] False has Some find nonzero show ?thesis
        by (auto simp: FlsSetValue_def)
    qed
  qed
qed

text \<open>
  C2: \<open>FlsSetValue\<close> never touches a freed block. Where it succeeds, the datum of the calling thread
  is the new one, and nothing else changes. It fails without an effect for an unknown index and
  where memory or the pthread library refuses; but where the library refuses to store again a
  value that exists, the datum has already been replaced.
\<close>

theorem fls_set_value_refines:
  assumes ok: "fls_ok s" and fresh: "\<And>b. block = Some b \<Longrightarrow> b \<noteq> 0 \<and> vheap s b = None"
  shows "\<exists>r s'. FlsSetValue t i d block rc s = Some (r, s') \<and> fls_ok s' \<and> called s' = called s \<and>
    callback_of s' = callback_of s \<and>
    (r \<longleftrightarrow> callback_of s i \<noteq> None \<and>
      (if data_of s t i = None then d = 0 \<or> rc = 0 \<and> block \<noteq> None else rc = 0)) \<and>
    data_of s' =
      (if r \<or> d \<noteq> 0 \<and> data_of s t i \<noteq> None
       then data_set t i (if d = 0 then None else Some d) (data_of s) else data_of s)"
  using assms by (rule fls_set_lemma)

section \<open>Freeing an index, and the end of a thread\<close>

definition log_entry :: "nat \<Rightarrow> nat \<Rightarrow> (nat \<times> nat) list" where
  "log_entry cb d = (if cb \<noteq> 0 \<and> d \<noteq> 0 then [(cb, d)] else [])"

lemma run_callback_log: "run_callback cb d s = s\<lparr>called := called s @ log_entry cb d\<rparr>"
  by (simp add: run_callback_def log_entry_def)

lemma free_values_list:
  "slist (vnx s) p as \<Longrightarrow>
   free_values cb p s = Some (s\<lparr>vheap := (\<lambda>a. if a \<in> set as then None else vheap s a),
     called := called s @ concat (map (\<lambda>a. log_entry cb (vdata (the (vheap s a)))) as)\<rparr>)"
proof (induction as arbitrary: p s)
  case Nil
  then show ?case by (simp add: free_values.simps)
next
  case (Cons a as)
  then obtain q where q: "p = a" "a \<noteq> 0" "vnx s a = Some q" "slist (vnx s) q as" by auto
  then obtain x where x: "vheap s a = Some x" "vnext x = q" by (auto simp: vnx_def)
  have na: "a \<notin> set as" using slist_distinct [OF Cons.prems] by simp
  define s1 where "s1 = free_value a (run_callback cb (vdata x) s)"
  have heap: "vheap s1 = (vheap s)(a := None)" and log: "called s1 = called s @ log_entry cb (vdata x)"
    and upd: "\<And>h l. s1\<lparr>vheap := h, called := l\<rparr> = s\<lparr>vheap := h, called := l\<rparr>"
    by (simp_all add: s1_def free_value_def run_callback_log)
  have same: "vheap s1 b = vheap s b" if "b \<in> set as" for b
    using that na heap by (cases "b = a") auto
  have "slist (vnx s1) q as"
    using q(4) by (rule slist_cong) (simp add: vnx_def same)
  note IH = Cons.IH [OF this]
  have "map (\<lambda>b. log_entry cb (vdata (the (vheap s1 b)))) as = map (\<lambda>b. log_entry cb (vdata (the (vheap s b)))) as"
    by (intro map_cong refl) (simp add: same)
  moreover have "(\<lambda>b. if b \<in> set as then None else vheap s1 b) = (\<lambda>b. if b \<in> set (a # as) then None else vheap s b)"
    by (auto simp: fun_eq_iff heap)
  ultimately have "free_values cb q s1 = Some (s\<lparr>vheap := (\<lambda>b. if b \<in> set (a # as) then None else vheap s b),
      called := called s @ concat (map (\<lambda>b. log_entry cb (vdata (the (vheap s b)))) (a # as))\<rparr>)"
    unfolding IH by (simp only: upd log) (simp add: x(1))
  moreover have "free_values cb p s = free_values cb q s1"
    using q x by (subst free_values.simps) (simp add: s1_def)
  ultimately show ?case by simp
qed

lemma concat_log: "(\<And>a. a \<in> set as \<Longrightarrow> f a \<noteq> 0) \<Longrightarrow>
  concat (map (\<lambda>a. log_entry cb (f a)) as) = (if cb = 0 then [] else map (\<lambda>a. (cb, f a)) as)"
  by (induction as) (auto simp: log_entry_def)

text \<open>The key list without the key found.\<close>

lemma unlink_key:
  assumes lk: "linked s ks vs" and t: "tied s" and k: "kview s k = Some (i, c)"
  obtains as bs key s1 where "ks = as @ k # bs" "kheap s k = Some key" "callback key = c" "k \<noteq> 0"
    "\<And>rc. FlsFree i rc s = (if rc \<noteq> 0 then
       Some (False, (set_knext k (fls_keys s1) s1)\<lparr>fls_keys := k, fls_error := ERROR_INVALID_PARAMETER\<rparr>)
       else map_option (\<lambda>s. (True, s\<lparr>kheap := (kheap s)(k := None)\<rparr>)) (free_values c (kvalues key) s1))"
    "slist (knx s1) (fls_keys s1) (as @ bs)" "kview s1 = kview s" "vheap s1 = vheap s"
    "specific s1 = specific s" "called s1 = called s" "fls_error s1 = fls_error s"
    "\<And>k. map_option kvalues (kheap s1 k) = map_option kvalues (kheap s k)"
proof -
  from seek_key [OF lk t k] obtain as bs where ks: "ks = as @ k # bs"
    and seek: "seek (knx s) (has_index s i) Root (fls_keys s) = Some (place Root as, k)" by metis
  from k obtain key where key: "kheap s k = Some key" "callback key = c" by (auto simp: kview_Some)
  have list: "slist (knx s) (fls_keys s) (as @ k # bs)" using lk ks by (simp add: linked_def)
  then have "k \<noteq> 0" using slist_nonnull by fastforce
  define s1 where "s1 = (if as = [] then s\<lparr>fls_keys := knext key\<rparr> else set_knext (last as) (knext key) s)"
  have "as \<noteq> [] \<Longrightarrow> kheap s (last as) \<noteq> None"
    using slist_alive [OF list, of "last as"] by (auto simp: knx_def)
  then have nx: "knx s1 = (if as = [] then knx s else (knx s)(last as := Some (knext key)))"
    by (auto simp: s1_def set_knext_def knx_def fun_eq_iff)
  from slist_unlink [OF list, of "knext key"] key
  have "slist (knx s1) (fls_keys s1) (as @ bs)"
    unfolding nx by (auto simp: knx_def [of s] s1_def set_knext_def split: if_splits)
  moreover have "kview s1 = kview s" "vheap s1 = vheap s" "specific s1 = specific s" "called s1 = called s"
    "fls_error s1 = fls_error s" "\<And>k. map_option kvalues (kheap s1 k) = map_option kvalues (kheap s k)"
    by (auto simp: s1_def set_knext_def kview_def fun_eq_iff option.map_comp comp_def)
  moreover have "FlsFree i rc s = (if rc \<noteq> 0 then
       Some (False, (set_knext k (fls_keys s1) s1)\<lparr>fls_keys := k, fls_error := ERROR_INVALID_PARAMETER\<rparr>)
       else map_option (\<lambda>s. (True, s\<lparr>kheap := (kheap s)(k := None)\<rparr>)) (free_values c (kvalues key) s1))" for rc
    using seek key \<open>k \<noteq> 0\<close> by (simp add: FlsFree_def s1_def place_def Let_def)
  ultimately show thesis using that ks key \<open>k \<noteq> 0\<close> by blast
qed

lemma free_refused:
  assumes lk: "linked s ks vs" and t: "tied s" and k: "kview s k = Some (i, c)" and rc: "rc \<noteq> 0"
  obtains s' where "FlsFree i rc s = Some (False, s')" "fls_ok s'" "kview s' = kview s" "vview s' = vview s"
    "specific s' = specific s" "called s' = called s"
proof (rule unlink_key [OF lk t k], goal_cases)
  case (1 as bs key s1)
  note ks = 1(2) and key = 1(3) and k0 = 1(5) and list = 1(7) and v = 1(8-11) and vals = 1(13)
  have run: "FlsFree i rc s =
      Some (False, (set_knext k (fls_keys s1) s1)\<lparr>fls_keys := k, fls_error := ERROR_INVALID_PARAMETER\<rparr>)"
    using 1(6) [of rc] rc by simp
  let ?s = "(set_knext k (fls_keys s1) s1)\<lparr>fls_keys := k, fls_error := ERROR_INVALID_PARAMETER\<rparr>"
  have dist: "distinct ks" using lk slist_distinct by (auto simp: linked_def)
  have alive: "kheap s1 k' = None \<longleftrightarrow> kheap s k' = None" for k' using v(1) view_None(2) by metis
  have knx: "knx ?s = (knx s1)(k := Some (fls_keys s1))"
    using alive [of k] key by (auto simp: set_knext_def knx_def fun_eq_iff)
  have view: "kview ?s = kview s" "vview ?s = vview s" "specific ?s = specific s" "called ?s = called s" "vnx ?s = vnx s"
    using v by (auto simp: set_knext_def kview_def vview_def vnx_def fun_eq_iff option.map_comp comp_def)
  have "linked ?s (k # as @ bs) vs"
    unfolding linked_def
  proof (intro conjI allI impI)
    have "slist (knx ?s) (fls_keys s1) (as @ bs)"
      using list
    proof (rule slist_cong)
      show "knx ?s a = knx s1 a" if "a \<in> set (as @ bs)" for a using that dist ks unfolding knx by auto
    qed
    then show "slist (knx ?s) (fls_keys ?s) (k # as @ bs)"
      unfolding slist.simps knx using k0 by simp
    have "dom (kheap ?s) = dom (kheap s)" using view(1) view_None(2) by (metis domIff subsetI subset_antisym)
    then show "set (k # as @ bs) = dom (kheap ?s)" using lk ks by (auto simp: linked_def)
    fix k' key' assume k': "kheap ?s k' = Some key'"
    then have "map_option kvalues (kheap s1 k') = Some (kvalues key')"
      by (auto simp: set_knext_def split: if_splits)
    then obtain key0 where key0: "kheap s k' = Some key0" "kvalues key0 = kvalues key'" by (auto simp: vals)
    then have "slist (vnx s) (kvalues key0) (vs k')" "set (vs k') = {v. \<exists>d. vview s v = Some (k', d)}"
      using lk unfolding linked_def by blast+
    then show "slist (vnx ?s) (kvalues key') (vs k')" "set (vs k') = {v. \<exists>d. vview ?s v = Some (k', d)}"
      unfolding view key0(2) by blast+
  qed
  moreover have "tied ?s" using t tied_views [OF view(2,1,3)] by simp
  ultimately have "fls_ok ?s" unfolding fls_ok_def by blast
  with that run view show thesis by blast
qed

lemma free_granted:
  assumes lk: "linked s ks vs" and t: "tied s" and k: "kview s k = Some (i, c)"
  obtains s' where "FlsFree i 0 s = Some (True, s')" "fls_ok s'" "kview s' = (kview s)(k := None)"
    "vview s' = (\<lambda>v. if v \<in> set (vs k) then None else vview s v)" "specific s' = specific s"
    "called s' = called s @ (if c = 0 then [] else map (\<lambda>v. (c, snd (the (vview s v)))) (vs k))"
proof (rule unlink_key [OF lk t k], goal_cases)
  case (1 as bs key s1)
  note ks = 1(2) and key = 1(3) and list = 1(7) and v = 1(8-11) and vals = 1(13)
  have run: "FlsFree i 0 s = map_option (\<lambda>s. (True, s\<lparr>kheap := (kheap s)(k := None)\<rparr>)) (free_values c (kvalues key) s1)"
    using 1(6) [of 0] by simp
  have vk: "slist (vnx s) (kvalues key) (vs k)" "set (vs k) = {v. \<exists>d. vview s v = Some (k, d)}"
    using lk key by (auto simp: linked_def)
  have "vnx s1 = vnx s" by (simp add: vnx_def v fun_eq_iff)
  with free_values_list [of s1 "kvalues key" "vs k" c] vk(1)
  have fv: "free_values c (kvalues key) s1 = Some (s1\<lparr>vheap := (\<lambda>a. if a \<in> set (vs k) then None else vheap s a),
     called := called s @ concat (map (\<lambda>a. log_entry c (vdata (the (vheap s a)))) (vs k))\<rparr>)"
    by (simp add: v(4) v(2)) (simp only: v(2))
  define s' where "s' = s1\<lparr>vheap := (\<lambda>a. if a \<in> set (vs k) then None else vheap s a),
     called := called s @ concat (map (\<lambda>a. log_entry c (vdata (the (vheap s a)))) (vs k)),
     kheap := (kheap s1)(k := None)\<rparr>"
  have run': "FlsFree i 0 s = Some (True, s')" by (simp add: run fv s'_def)
  have view: "kview s' = (kview s)(k := None)" "vview s' = (\<lambda>v. if v \<in> set (vs k) then None else vview s v)"
    "specific s' = specific s" "vnx s' = (\<lambda>v. if v \<in> set (vs k) then None else vnx s v)"
    using v(1,3) by (auto simp: s'_def kview_def vview_def vnx_def fun_eq_iff)
  have knx: "knx s' = (knx s1)(k := None)" by (auto simp: s'_def knx_def fun_eq_iff)
  have datum: "vdata (the (vheap s a)) = snd (the (vview s a))" "snd (the (vview s a)) \<noteq> 0" if "a \<in> set (vs k)" for a
  proof -
    from that vk(2) obtain d where d: "vview s a = Some (k, d)" by auto
    then obtain x where "vheap s a = Some x" "vdata x = d" by (auto simp: vview_Some)
    moreover have "d \<noteq> 0" using tied_value [OF t d] by blast
    ultimately show "vdata (the (vheap s a)) = snd (the (vview s a))" "snd (the (vview s a)) \<noteq> 0"
      using d by simp_all
  qed
  have "concat (map (\<lambda>a. log_entry c (vdata (the (vheap s a)))) (vs k)) =
      concat (map (\<lambda>a. log_entry c (snd (the (vview s a)))) (vs k))"
    by (intro arg_cong [where f = concat] map_cong refl) (rule arg_cong [OF datum(1)])
  also have "\<dots> = (if c = 0 then [] else map (\<lambda>v. (c, snd (the (vview s v)))) (vs k))"
    by (rule concat_log) (rule datum(2))
  finally have log: "called s' = called s @ (if c = 0 then [] else map (\<lambda>v. (c, snd (the (vview s v)))) (vs k))"
    by (simp add: s'_def)
  have dist: "distinct ks" using lk slist_distinct by (auto simp: linked_def)
  have alive: "kheap s1 k' = None \<longleftrightarrow> kheap s k' = None" for k' using v(1) view_None(2) by metis
  have "linked s' (as @ bs) vs"
    unfolding linked_def
  proof (intro conjI allI impI)
    have "slist (knx s') (fls_keys s1) (as @ bs)"
      using list by (rule slist_cong) (use dist ks in \<open>auto simp: knx\<close>)
    then show "slist (knx s') (fls_keys s') (as @ bs)" by (simp add: s'_def)
    have "kheap s' a = None \<longleftrightarrow> a = k \<or> kheap s a = None" for a using alive by (simp add: s'_def)
    then have "a \<in> dom (kheap s') \<longleftrightarrow> a \<in> dom (kheap s) - {k}" for a by (auto simp: domIff)
    then have "dom (kheap s') = dom (kheap s) - {k}" by blast
    moreover have "set ks = dom (kheap s)" using lk by (simp add: linked_def)
    ultimately show "set (as @ bs) = dom (kheap s')" using ks dist by auto
    fix k' key' assume k': "kheap s' k' = Some key'"
    then have ne: "k' \<noteq> k" and "map_option kvalues (kheap s1 k') = Some (kvalues key')"
      by (auto simp: s'_def split: if_splits)
    then obtain key0 where key0: "kheap s k' = Some key0" "kvalues key0 = kvalues key'" by (auto simp: vals)
    have set: "set (vs k') = {v. \<exists>d. vview s v = Some (k', d)}" and sl: "slist (vnx s) (kvalues key') (vs k')"
      using lk key0(1) unfolding linked_def key0(2) [symmetric] by blast+
    have apart: "a \<notin> set (vs k)" if "a \<in> set (vs k')" for a using that ne set vk(2) by auto
    show "slist (vnx s') (kvalues key') (vs k')"
      using sl by (rule slist_cong) (use apart in \<open>auto simp: view\<close>)
    show "set (vs k') = {v. \<exists>d. vview s' v = Some (k', d)}" using set apart by (auto simp: view)
  qed
  moreover have "tied s'"
    unfolding tied_def view
  proof (intro conjI allI impI)
    fix k1 k2 j c1 c2 assume "((kview s)(k := None)) k1 = Some (j, c1)" "((kview s)(k := None)) k2 = Some (j, c2)"
    then show "k1 = k2" using same_index [OF t, of k1 j c1 k2 c2] by (auto split: if_splits)
  next
    fix v k' d assume "(if v \<in> set (vs k) then None else vview s v) = Some (k', d)"
    then have v: "vview s v = Some (k', d)" "k' \<noteq> k" using vk(2) by (auto split: if_splits)
    with tied_value [OF t v(1)]
    show "d \<noteq> 0" "\<exists>i c. ((kview s)(k := None)) k' = Some (i, c) \<and> (\<exists>!t. specific s t i = v)" by auto
  next
    fix u k' j c' assume "((kview s)(k := None)) k' = Some (j, c')"
    then have k': "kview s k' = Some (j, c')" "k' \<noteq> k" by (auto split: if_splits)
    with tied_slot [OF t k'(1), of u] vk(2)
    show "specific s u j = 0 \<or>
        (\<exists>d. (if specific s u j \<in> set (vs k) then None else vview s (specific s u j)) = Some (k', d))"
      by auto
  qed
  ultimately have "fls_ok s'" unfolding fls_ok_def by blast
  with that run' view log show thesis by blast
qed

lemma fls_free_lemma:
  assumes ok: "fls_ok s"
  shows "\<exists>r s'. FlsFree i rc s = Some (r, s') \<and> fls_ok s' \<and> (r \<longleftrightarrow> callback_of s i \<noteq> None \<and> rc = 0) \<and>
    (if r then
       callback_of s' = (callback_of s)(i := None) \<and>
       (\<forall>t j. data_of s' t j = (if j = i then None else data_of s t j)) \<and>
       (\<exists>ts. distinct ts \<and> set ts = {t. data_of s t i \<noteq> None} \<and>
          called s' = called s @ (if callback_of s i = Some 0 then []
            else map (\<lambda>t. (the (callback_of s i), the (data_of s t i))) ts))
     else callback_of s' = callback_of s \<and> data_of s' = data_of s \<and> called s' = called s)"
proof (cases "callback_of s i")
  case None
  obtain ks vs where lk: "linked s ks vs" using ok by (auto simp: fls_ok_def)
  have "\<nexists>k c. kview s k = Some (i, c)" using None ok_views(1) [OF ok, of i] by fastforce
  from seek_no_key [OF lk this] obtain c where "seek (knx s) (has_index s i) Root (fls_keys s) = Some (c, 0)" by blast
  with None ok show ?thesis by (intro exI [of _ False]) (simp add: FlsFree_def error_sees)
next
  case (Some c)
  then obtain k where k: "kview s k = Some (i, c)" using ok_views(1) [OF ok] by blast
  obtain ks vs where lk: "linked s ks vs" and t: "tied s" using ok by (auto simp: fls_ok_def)
  show ?thesis
  proof (cases "rc = 0")
    case False
    from free_refused [OF lk t k False] obtain s' where s': "FlsFree i rc s = Some (False, s')" "fls_ok s'"
      "kview s' = kview s" "vview s' = vview s" "specific s' = specific s" "called s' = called s" by metis
    then show ?thesis
      using False callbacks_same [OF ok s'(2,3)] data_same [OF ok s'(2-5)] by (intro exI [of _ False]) simp
  next
    case True
    obtain s' where s': "FlsFree i 0 s = Some (True, s')" "fls_ok s'"
      "kview s' = (kview s)(k := None)" "vview s' = (\<lambda>v. if v \<in> set (vs k) then None else vview s v)"
      "specific s' = specific s"
      "called s' = called s @ (if c = 0 then [] else map (\<lambda>v. (c, snd (the (vview s v)))) (vs k))"
      by (rule free_granted [OF lk t k])
    have vk: "set (vs k) = {v. \<exists>d. vview s v = Some (k, d)}" "distinct (vs k)"
      using lk k slist_distinct unfolding linked_def kview_Some by blast+
    have key: "kview s' k' = Some (j, c') \<longleftrightarrow> j \<noteq> i \<and> kview s k' = Some (j, c')" for k' j c'
      using same_index [OF t, of k' i c' k c] k s'(3) by auto
    have "callback_of s' j = ((callback_of s)(i := None)) j" for j
    proof -
      have "callback_of s' j = Some c' \<longleftrightarrow> ((callback_of s)(i := None)) j = Some c'" for c'
        by (simp add: ok_views(1) [OF s'(2)] ok_views(1) [OF ok] key)
      then show ?thesis by (rule option_eqI)
    qed
    moreover have "data_of s' u j = (if j = i then None else data_of s u j)" for u j
    proof (cases "\<exists>k' c'. kview s k' = Some (j, c') \<and> j \<noteq> i")
      case True
      then obtain k' c' where k': "kview s k' = Some (j, c')" "j \<noteq> i" by blast
      then have "k' \<noteq> k" using k by auto
      then have "specific s u j \<notin> set (vs k)" using tied_slot [OF t k'(1), of u] vk(1) ok_views(3) [OF ok] by auto
      with k' show ?thesis unfolding ok_views(2) [OF s'(2)] ok_views(2) [OF ok] key s'(4,5) by auto
    next
      case False
      then show ?thesis unfolding ok_views(2) [OF s'(2)] ok_views(2) [OF ok] key by auto
    qed
    moreover
    define holder where "holder = (\<lambda>v. SOME t. specific s t i = v)"
    have holder: "specific s (holder v) i = v" if "v \<in> set (vs k)" for v
    proof -
      from that vk(1) obtain d where "vview s v = Some (k, d)" by auto
      from tied_holder [OF t this] k obtain u where "specific s u i = v" by (metis option.inject prod.inject)
      then show ?thesis unfolding holder_def by (rule someI)
    qed
    have "distinct (map holder (vs k))"
      using vk(2) holder by (auto simp: distinct_map intro: inj_onI) (metis inj_onI)
    moreover have datum: "data_of s (holder v) i = Some (snd (the (vview s v)))" if "v \<in> set (vs k)" for v
      using that vk(1) k holder [OF that] by (auto simp: ok_views(2) [OF ok])
    moreover have "u \<in> holder ` set (vs k)" if "data_of s u i \<noteq> None" for u
    proof -
      from that have v: "vview s (specific s u i) \<noteq> None" by (auto simp: ok_views(2) [OF ok] split: if_splits)
      then have "specific s u i \<noteq> 0" using ok_views(3) [OF ok] by metis
      with tied_slot [OF t k, of u] obtain d where d: "vview s (specific s u i) = Some (k, d)" by blast
      then have "specific s u i \<in> set (vs k)" using vk(1) by blast
      moreover from tied_holder [OF t d] k have "holder (specific s u i) = u"
        using holder [OF calculation] by (metis option.inject prod.inject)
      ultimately show ?thesis by (metis imageI)
    qed
    then have "set (map holder (vs k)) = {u. data_of s u i \<noteq> None}" using datum by auto
    moreover have "map (\<lambda>v. (c, snd (the (vview s v)))) (vs k) =
        map (\<lambda>u. (c, the (data_of s u i))) (map holder (vs k))"
      by (simp add: datum)
    ultimately show ?thesis
      using s'(1,2,6) True Some by (intro exI [of _ True] exI [of _ s']) (auto intro!: exI [of _ "map holder (vs k)"])
  qed
qed

text \<open>
  C20: \<open>FlsFree\<close> of an index in use, where the pthread library deletes the key, forgets the index and
  runs its callback exactly once for each thread that has a datum for it, with that datum; the
  data of the other indexes stay. In all other cases it fails and changes nothing.
\<close>

theorem fls_free_runs_callbacks:
  assumes ok: "fls_ok s"
  shows "\<exists>r s'. FlsFree i rc s = Some (r, s') \<and> fls_ok s' \<and> (r \<longleftrightarrow> callback_of s i \<noteq> None \<and> rc = 0) \<and>
    (if r then
       callback_of s' = (callback_of s)(i := None) \<and>
       (\<forall>t j. data_of s' t j = (if j = i then None else data_of s t j)) \<and>
       (\<exists>ts. distinct ts \<and> set ts = {t. data_of s t i \<noteq> None} \<and>
          called s' = called s @ (if callback_of s i = Some 0 then []
            else map (\<lambda>t. (the (callback_of s i), the (data_of s t i))) ts))
     else callback_of s' = callback_of s \<and> data_of s' = data_of s \<and> called s' = called s)"
  using assms by (rule fls_free_lemma)

lemma exit_ok:
  assumes ok: "fls_ok s" and cb: "callback_of s i = Some c"
  shows "\<exists>s'. thread_exit t i s = Some s' \<and> fls_ok s' \<and> callback_of s' = callback_of s \<and>
    data_of s' = data_set t i None (data_of s) \<and>
    called s' = called s @ (case data_of s t i of None \<Rightarrow> [] | Some d \<Rightarrow> log_entry c d)"
proof -
  obtain k where k: "kview s k = Some (i, c)" using cb ok_views(1) [OF ok] by blast
  obtain ks vs where t: "tied s" using ok by (auto simp: fls_ok_def)
  show ?thesis
  proof (cases "specific s t i = 0")
    case True
    then have "data_of s t i = None" using ok_views(3) [OF ok] by (simp add: ok_views(2) [OF ok])
    moreover have "data_set t i None (data_of s) = data_of s" using calculation by (auto simp: data_set_def fun_eq_iff)
    moreover have "s\<lparr>specific := (specific s)(t := (specific s t)(i := 0))\<rparr> = s"
      using True by (metis fls.surjective fls.update_convs(4) fun_upd_triv)
    ultimately show ?thesis using True ok by (simp add: thread_exit_def fls_destroy_value_def)
  next
    case False
    obtain s' d where s': "fls_unlink_value (specific s t i) (set_specific t i 0 s) = Some s'"
      "vview s (specific s t i) = Some (k, d)" "fls_ok (free_value (specific s t i) s')" "kview s' = kview s"
      "vview s' = vview s" "called s' = called s" "callback_of (free_value (specific s t i) s') = callback_of s"
      "data_of (free_value (specific s t i) s') = data_set t i None (data_of s)"
      by (rule take_away [OF ok k refl False])
    obtain x where x: "vheap s' (specific s t i) = Some x" "owner x = k" "vdata x = d"
      using s'(2,5) by (metis vview_Some)
    obtain key where key: "kheap s' k = Some key" "callback key = c" using s'(4) k by (metis kview_Some)
    let ?f = "free_value (specific s t i) s'"
    have run: "thread_exit t i s = Some (?f\<lparr>called := called ?f @ log_entry c d\<rparr>)"
      using s'(1) False x key
      by (simp add: thread_exit_def fls_destroy_value_def set_specific_def run_callback_log)
    have "fls_ok (?f\<lparr>called := l\<rparr>) \<and> callback_of (?f\<lparr>called := l\<rparr>) = callback_of ?f \<and>
        data_of (?f\<lparr>called := l\<rparr>) = data_of ?f" for l
    proof -
      have v: "knx (?f\<lparr>called := l\<rparr>) = knx ?f" "vnx (?f\<lparr>called := l\<rparr>) = vnx ?f"
        "kview (?f\<lparr>called := l\<rparr>) = kview ?f" "vview (?f\<lparr>called := l\<rparr>) = vview ?f"
        by (simp_all add: kview_def vview_def knx_def vnx_def fun_eq_iff)
      have ok': "fls_ok (?f\<lparr>called := l\<rparr>)"
        using s'(3) by (simp add: fls_ok_def linked_def tied_def v)
      with callbacks_same [OF s'(3) ok' v(3)] data_same [OF s'(3) ok' v(3,4)] show ?thesis by simp
    qed
    moreover have "data_of s t i = Some d" using k s'(2) by (auto simp: ok_views(2) [OF ok])
    ultimately show ?thesis using run s' by (simp add: free_value_view)
  qed
qed

lemma alloc_ok:
  assumes ok: "fls_ok s" and fresh: "k \<noteq> 0" "kheap s k = None" "callback_of s i = None"
  shows "fst (FlsAlloc (Some k) (Inr i) cb s) = i"
    "fls_ok (snd (FlsAlloc (Some k) (Inr i) cb s))"
    "callback_of (snd (FlsAlloc (Some k) (Inr i) cb s)) = (callback_of s)(i \<mapsto> cb)"
    "data_of (snd (FlsAlloc (Some k) (Inr i) cb s)) = data_of s"
    "called (snd (FlsAlloc (Some k) (Inr i) cb s)) = called s"
proof -
  obtain ks vs where lk: "linked s ks vs" and t: "tied s" using ok by (auto simp: fls_ok_def)
  define s' where "s' = snd (FlsAlloc (Some k) (Inr i) cb s)"
  have s'_eq: "s' = s\<lparr>specific := (\<lambda>t. (specific s t)(i := 0)),
      kheap := (kheap s)(k \<mapsto> \<lparr>knext = fls_keys s, kvalues = 0, kkey = i, callback = cb\<rparr>), fls_keys := k\<rparr>"
    by (simp add: s'_def FlsAlloc_def)
  show "fst (FlsAlloc (Some k) (Inr i) cb s) = i" by (simp add: FlsAlloc_def)
  show "called (snd (FlsAlloc (Some k) (Inr i) cb s)) = called s" by (simp add: FlsAlloc_def)
  have unused: "kview s k' \<noteq> Some (i, c)" for k' c using fresh(3) ok_views(1) [OF ok, of i] by auto
  have view: "kview s' = (kview s)(k \<mapsto> (i, cb))" "vview s' = vview s" "vnx s' = vnx s"
    "knx s' = (knx s)(k := Some (fls_keys s))" "fls_keys s' = k"
    by (auto simp: s'_eq kview_def vview_def vnx_def knx_def fun_eq_iff)
  have none: "vview s v \<noteq> Some (k, d)" for v d
    using tied_value [OF t, of v k d] fresh(2) by (auto simp: kview_def)
  have "linked s' (k # ks) (vs(k := []))"
    unfolding linked_def
  proof (intro conjI allI impI)
    have notin: "k \<notin> set ks" using lk fresh(2) by (auto simp: linked_def)
    have "slist (knx s) (fls_keys s) ks" using lk by (simp add: linked_def)
    then have "slist (knx s') (fls_keys s) ks"
      by (rule slist_cong) (use notin view(4) in auto)
    then show "slist (knx s') (fls_keys s') (k # ks)" using fresh(1) view(4,5) by simp
    show "set (k # ks) = dom (kheap s')" using lk by (auto simp: linked_def s'_eq)
    fix k' key assume k': "kheap s' k' = Some key"
    show "slist (vnx s') (kvalues key) ((vs(k := [])) k')"
      using k' lk unfolding view by (cases "k' = k") (auto simp: s'_eq linked_def)
    show "set ((vs(k := [])) k') = {v. \<exists>d. vview s' v = Some (k', d)}"
      using k' lk none unfolding view by (cases "k' = k") (auto simp: s'_eq linked_def)
  qed
  moreover have "tied s'"
    unfolding tied_def
  proof (intro conjI allI impI)
    fix k1 k2 j c1 c2 assume "kview s' k1 = Some (j, c1)" "kview s' k2 = Some (j, c2)"
    then show "k1 = k2" using same_index [OF t, of k1 j c1 k2 c2] unused unfolding view by (auto split: if_splits)
  next
    fix v k' d assume "vview s' v = Some (k', d)"
    then have v: "vview s v = Some (k', d)" unfolding view .
    then show "d \<noteq> 0" using tied_value [OF t] by blast
    from tied_holder [OF t v] obtain j c u where
      j: "kview s k' = Some (j, c)" "specific s u j = v" "\<And>w. specific s w j = v \<Longrightarrow> w = u" by metis
    then have "j \<noteq> i" "k' \<noteq> k" using unused fresh(2) by (auto simp: kview_def)
    with j show "\<exists>i c. kview s' k' = Some (i, c) \<and> (\<exists>!t. specific s' t i = v)"
      unfolding view by (auto simp: s'_eq)
  next
    fix u k' j c assume k': "kview s' k' = Some (j, c)"
    show "specific s' u j = 0 \<or> (\<exists>d. vview s' (specific s' u j) = Some (k', d))"
    proof (cases "j = i")
      case False
      with k' have "kview s k' = Some (j, c)" unfolding view by (auto split: if_splits)
      from tied_slot [OF t this, of u] False show ?thesis unfolding view by (simp add: s'_eq)
    qed (simp add: s'_eq)
  qed
  ultimately have ok': "fls_ok s'" unfolding fls_ok_def by blast
  then show "fls_ok (snd (FlsAlloc (Some k) (Inr i) cb s))" by (simp add: s'_def)
  have "callback_of s' j = ((callback_of s)(i \<mapsto> cb)) j" for j
  proof (rule option_eqI)
    have "kview s' k' = Some (j, c) \<longleftrightarrow> (if j = i then k' = k \<and> c = cb else kview s k' = Some (j, c))" for k' c
      using fresh(2) unused unfolding view by (auto simp: kview_def)
    then show "callback_of s' j = Some c \<longleftrightarrow> ((callback_of s)(i \<mapsto> cb)) j = Some c" for c
      by (auto simp: ok_views(1) [OF ok'] ok_views(1) [OF ok])
  qed
  then show "callback_of (snd (FlsAlloc (Some k) (Inr i) cb s)) = (callback_of s)(i \<mapsto> cb)"
    by (auto simp: s'_def)
  have "data_of s' u j = data_of s u j" for u j
  proof (cases "j = i")
    case True
    then show ?thesis using unused ok_views(3) [OF ok]
      unfolding ok_views(2) [OF ok'] ok_views(2) [OF ok] view by (auto simp: s'_eq)
  next
    case False
    have "kview s' k' = Some (j, c) \<longleftrightarrow> kview s k' = Some (j, c)" for k' c
      using False fresh(2) unfolding view by (auto simp: kview_def)
    moreover have "specific s' u j = specific s u j" using False by (simp add: s'_eq)
    ultimately show ?thesis
      unfolding ok_views(2) [OF ok'] ok_views(2) [OF ok] view(2) by simp
  qed
  then show "data_of (snd (FlsAlloc (Some k) (Inr i) cb s)) = data_of s" by (auto simp: s'_def)
qed

section \<open>The life of the storage\<close>

text \<open>Any sequence of calls and thread ends; freed blocks may be handed out again.\<close>

definition fls_start :: "fls \<Rightarrow> bool" where
  "fls_start s \<longleftrightarrow> kheap s = (\<lambda>_. None) \<and> vheap s = (\<lambda>_. None) \<and> fls_keys s = 0 \<and> called s = []"

inductive fls_step :: "fls \<Rightarrow> fls \<Rightarrow> bool" where
  alloc: "k \<noteq> 0 \<Longrightarrow> kheap s k = None \<Longrightarrow> callback_of s i = None \<Longrightarrow>
    fls_step s (snd (FlsAlloc (Some k) (Inr i) cb s))"
| no_alloc: "block = None \<or> created = Inl rc \<Longrightarrow> fls_step s (snd (FlsAlloc block created cb s))"
| set_datum: "(\<And>b. block = Some b \<Longrightarrow> b \<noteq> 0 \<and> vheap s b = None) \<Longrightarrow>
    FlsSetValue t i d block rc s = Some (r, s') \<Longrightarrow> fls_step s s'"
| free_index: "FlsFree i rc s = Some (r, s') \<Longrightarrow> fls_step s s'"
| end_thread: "callback_of s i = Some c \<Longrightarrow> thread_exit t i s = Some s' \<Longrightarrow> fls_step s s'"

lemma fls_step_ok:
  assumes ok: "fls_ok s" and "fls_step s s'"
  shows "fls_ok s'"
  using assms(2)
proof (cases rule: fls_step.cases)
  case (alloc k i cb)
  with alloc_ok(2) [OF ok alloc(2-4)] show ?thesis by simp
next
  case (no_alloc block created rc cb)
  with ok show ?thesis by (auto simp: FlsAlloc_def split: option.splits sum.splits)
next
  case set_datum
  with fls_set_lemma [OF ok set_datum(1)] show ?thesis by (metis option.inject prod.inject)
next
  case (free_index i rc r)
  with fls_free_lemma [OF ok] show ?thesis by (metis option.inject prod.inject)
next
  case (end_thread i c t)
  with exit_ok [OF ok end_thread(1)] show ?thesis by (metis option.inject)
qed

interpretation fls: step_invariant fls_start fls_step fls_ok
proof unfold_locales
  show "fls_ok s" if "fls_start s" for s
    using that by (auto simp: fls_ok_def fls_start_def linked_def tied_def kview_def vview_def intro: exI [of _ "[]"])
  show "fls_ok s'" if "fls_ok s" "fls_step s s'" for s s'
    using that by (rule fls_step_ok)
qed

text \<open>
  C21: in every reachable state each value block alive is the value of exactly one thread for exactly
  one index in use, and the other way round, so that no block is lost or shared; no datum is null.
\<close>

theorem fls_blocks_match:
  assumes "reach fls_start fls_step s"
  shows "bij_betw (\<lambda>(t, i). specific s t i) {(t, i). data_of s t i \<noteq> None} (dom (vheap s)) \<and>
    (\<forall>t i. data_of s t i \<noteq> Some 0)"
proof -
  have ok: "fls_ok s" using assms by (rule fls.reach_inv)
  then obtain ks vs where t: "tied s" by (auto simp: fls_ok_def)
  have has: "\<exists>k c d. kview s k = Some (i, c) \<and> vview s (specific s u i) = Some (k, d) \<and> data_of s u i = Some d"
    if "data_of s u i \<noteq> None" for u i
  proof -
    from that obtain k c where k: "kview s k = Some (i, c)" and v: "vview s (specific s u i) \<noteq> None"
      by (auto simp: ok_views(2) [OF ok] split: if_splits)
    from v have "specific s u i \<noteq> 0" using ok_views(3) [OF ok] by metis
    with tied_slot [OF t k, of u] obtain d where d: "vview s (specific s u i) = Some (k, d)" by blast
    with k have "data_of s u i = Some d" by (auto simp: ok_views(2) [OF ok])
    with k d show ?thesis by blast
  qed
  have "inj_on (\<lambda>(t, i). specific s t i) {(t, i). data_of s t i \<noteq> None}"
  proof (rule inj_onI, clarify)
    fix u i w j d e assume "specific s u i = specific s w j" "data_of s u i = Some d" "data_of s w j = Some e"
    with has [of u i] has [of w j] obtain k c d' where
      k: "kview s k = Some (i, c)" "kview s k = Some (j, c)" "vview s (specific s u i) = Some (k, d')" by fastforce
    then have "i = j" by simp
    with tied_holder [OF t k(3)] k(1) \<open>specific s u i = specific s w j\<close> show "u = w \<and> i = j"
      by (metis option.inject prod.inject)
  qed
  moreover have "(\<lambda>(t, i). specific s t i) ` {(t, i). data_of s t i \<noteq> None} = dom (vheap s)"
  proof (intro equalityI subsetI)
    fix v assume "v \<in> (\<lambda>(t, i). specific s t i) ` {(t, i). data_of s t i \<noteq> None}"
    then obtain u i where "v = specific s u i" "data_of s u i \<noteq> None" by auto
    with has [of u i] show "v \<in> dom (vheap s)" by (auto simp: vview_Some)
  next
    fix v assume "v \<in> dom (vheap s)"
    then obtain x where "vheap s v = Some x" by blast
    then have x: "vview s v = Some (owner x, vdata x)" by (simp add: vview_def)
    from tied_holder [OF t x] obtain i c u where "kview s (owner x) = Some (i, c)" "specific s u i = v" by metis
    with x have "data_of s u i \<noteq> None" by (auto simp: ok_views(2) [OF ok])
    with \<open>specific s u i = v\<close> show "v \<in> (\<lambda>(t, i). specific s t i) ` {(t, i). data_of s t i \<noteq> None}" by force
  qed
  moreover have "data_of s u i \<noteq> Some 0" for u i
    using has [of u i] tied_value [OF t] by fastforce
  ultimately show ?thesis unfolding bij_betw_def by blast
qed

section \<open>An example\<close>

definition fls_zero :: fls where
  "fls_zero = \<lparr>vheap = (\<lambda>_. None), kheap = (\<lambda>_. None), fls_keys = 0, specific = (\<lambda>_ _. 0), called = [], fls_error = 0\<rparr>"

definition fls_one :: fls where
  "fls_one = snd (FlsAlloc (Some 1) (Inr 5) 9 fls_zero)"

definition fls_two :: fls where
  "fls_two = fls_one\<lparr>vheap := [2 \<mapsto> \<lparr>owner = 1, vnext = 0, vdata = 42\<rparr>],
     kheap := [1 \<mapsto> \<lparr>knext = 0, kvalues = 2, kkey = 5, callback = 9\<rparr>],
     specific := (\<lambda>_ _. 0)(7 := (\<lambda>_. 0)(5 := 2))\<rparr>"

lemma reach_one: "reach fls_start fls_step fls_one"
proof -
  have "reach fls_start fls_step fls_zero" by (rule reach_init) (simp add: fls_start_def fls_zero_def)
  then show ?thesis
    unfolding fls_one_def
    by (rule reach_step) (rule alloc, simp_all add: fls_zero_def callback_of_def fls_find_key_def seek.simps)
qed

lemma set_two: "FlsSetValue 7 5 42 (Some 2) 0 fls_one = Some (True, fls_two)"
  by (simp add: FlsSetValue_def fls_find_key_def seek.simps fls_one_def fls_two_def FlsAlloc_def fls_zero_def
      knx_def has_index_def new_value_def set_values_def set_specific_def Let_def fun_eq_iff)

lemma reach_two: "reach fls_start fls_step fls_two"
  by (rule reach_step [OF reach_one set_datum [OF _ set_two]])
    (simp add: fls_one_def FlsAlloc_def fls_zero_def)

lemma seen_two: "callback_of fls_two 5 = Some 9" "data_of fls_two 7 5 = Some 42" "called fls_two = []"
  by (simp_all add: data_of_def callback_of_def fls_find_key_def seek.simps fls_one_def fls_two_def FlsAlloc_def
      fls_zero_def knx_def has_index_def)

theorem fls_set_value_refines_witness:
  "\<exists>s'. FlsSetValue 7 5 43 None 12 fls_two = Some (False, s') \<and> data_of s' 7 5 = Some 43"
  using fls_set_value_refines [OF fls.reach_inv [OF reach_two], of None 7 5 43 12]
  by (auto simp: seen_two data_set_def)

theorem fls_free_runs_callbacks_witness:
  "\<exists>s'. FlsFree 5 0 fls_two = Some (True, s') \<and> set (called s') = {(9, 42)}"
proof -
  have "data_of fls_two u 5 \<noteq> None \<longleftrightarrow> u = 7" for u
    by (simp add: data_of_def callback_of_def fls_find_key_def seek.simps fls_one_def fls_two_def FlsAlloc_def
        fls_zero_def knx_def has_index_def)
  then have "{u. data_of fls_two u 5 \<noteq> None} = {7}" by blast
  with fls_free_runs_callbacks [OF fls.reach_inv [OF reach_two], of 5 0] seen_two show ?thesis
    by (auto simp: image_def)
qed

theorem fls_blocks_match_witness: "\<exists>t i. specific fls_two t i = 2 \<and> data_of fls_two t i \<noteq> None"
proof -
  have "2 \<in> dom (vheap fls_two)" by (simp add: fls_two_def)
  then have "2 \<in> (\<lambda>(t, i). specific fls_two t i) ` {(t, i). data_of fls_two t i \<noteq> None}"
    using fls_blocks_match [OF reach_two] by (simp add: bij_betw_def)
  then obtain t i where "specific fls_two t i = 2" "data_of fls_two t i \<noteq> None" by auto
  then show ?thesis by blast
qed

end
