(* ===== verification/FlsSteps.thy ===== *)
theory FlsSteps
  imports Fls
begin

text \<open>
  The calls of \<open>src/legacy/shared/fibersapi.c\<close> as steps that threads interleave. Every step of a
  thread is a critical section of the spin lock, a call of the pthread library, an allocation or
  release, or the accesses to the blocks between two of these; a step that reads or frees a block
  that is not alive is an error. Threads are numbers, and a thread runs one call at a time.
\<close>

section \<open>The steps of a thread\<close>

text \<open>
  Where a thread is in a call. The local variables of the code are the arguments: the index it was
  called with, the key, the datum, the value, the error to report.
  \<^item> \<open>FlsSetValue\<close>: \<open>Found\<close>, \<open>Got\<close>, then \<open>Inserting\<close> and \<open>Storing\<close>, or \<open>Unlinking\<close>. The flag of
    \<open>Storing\<close> is \<open>allocated\<close>.
  \<^item> The end of a thread: \<open>Destroying\<close>. This one and \<open>Unlinking\<close> go on with \<open>Freeing\<close> and \<open>Calling\<close>.
  \<^item> \<open>FlsAlloc\<close>: \<open>Linking\<close>.
  \<^item> \<open>FlsFree\<close>: \<open>Deleting\<close>, then \<open>Relinking\<close>, or \<open>Deleted\<close>, the loop of \<open>Draining\<close> and \<open>Reaping\<close>, and
    \<open>Dropping\<close>.
\<close>

datatype fls_pc =
    Out
  | Found addr nat nat
  | Got addr nat nat addr
  | Inserting addr nat nat addr
  | Storing addr nat addr bool
  | Unlinking nat addr nat
  | Destroying nat addr
  | Freeing addr nat nat nat
  | Calling nat nat
  | Linking addr
  | Deleting nat addr
  | Relinking nat addr
  | Deleted addr
  | Draining addr addr
  | Reaping addr addr addr
  | Dropping addr

text \<open>\<open>rc\<close> is what the pthread library answers, \<open>block\<close> the block allocated.\<close>

definition got_specific :: "nat \<Rightarrow> addr \<Rightarrow> nat \<Rightarrow> nat \<Rightarrow> fls \<Rightarrow> (fls_pc \<times> fls) option" where
  "got_specific t k i data s =
     (case kheap s k of None \<Rightarrow> None | Some key \<Rightarrow> Some (Got k i data (specific s t (kkey key)), s))"

definition got_clear :: "nat \<Rightarrow> nat \<Rightarrow> addr \<Rightarrow> nat \<Rightarrow> addr \<Rightarrow> fls \<Rightarrow> (fls_pc \<times> fls) option" where
  "got_clear t rc k i v s =
     (if v = 0 then Some (Out, s)
      else case kheap s k of
          None \<Rightarrow> None
        | Some key \<Rightarrow>
            if rc \<noteq> 0 then Some (Out, s\<lparr>fls_error := failure rc\<rparr>)
            else Some (Unlinking i v 0, set_specific t (kkey key) 0 s))"

definition got_value :: "addr option \<Rightarrow> addr \<Rightarrow> nat \<Rightarrow> nat \<Rightarrow> addr \<Rightarrow> fls \<Rightarrow> (fls_pc \<times> fls) option" where
  "got_value block k i data v s =
     (if v = 0 then
        (case block of
           None \<Rightarrow> Some (Out, s\<lparr>fls_error := ERROR_NOT_ENOUGH_MEMORY\<rparr>)
         | Some b \<Rightarrow>
             Some (Inserting k i data b, s\<lparr>vheap := (vheap s)(b \<mapsto> \<lparr>owner = k, vnext = 0, vdata = data\<rparr>)\<rparr>))
      else
        (case vheap s v of
           None \<Rightarrow> None
         | Some x \<Rightarrow> Some (Storing k i v False, s\<lparr>vheap := (vheap s)(v \<mapsto> x\<lparr>vdata := data\<rparr>)\<rparr>)))"

definition insert_value :: "addr \<Rightarrow> nat \<Rightarrow> addr \<Rightarrow> fls \<Rightarrow> (fls_pc \<times> fls) option" where
  "insert_value k i b s =
     (case kheap s k of
        None \<Rightarrow> None
      | Some key \<Rightarrow>
          if vheap s b = None then None
          else Some (Storing k i b True, set_values k b (set_vnext b (kvalues key) s)))"

definition store_specific :: "nat \<Rightarrow> nat \<Rightarrow> addr \<Rightarrow> nat \<Rightarrow> addr \<Rightarrow> bool \<Rightarrow> fls \<Rightarrow> (fls_pc \<times> fls) option" where
  "store_specific t rc k i v allocated s =
     (case kheap s k of
        None \<Rightarrow> None
      | Some key \<Rightarrow>
          if rc = 0 then Some (Out, set_specific t (kkey key) v s)
          else if allocated then Some (Unlinking i v rc, s)
          else Some (Out, s\<lparr>fls_error := failure rc\<rparr>))"

definition unlink_locked :: "addr \<Rightarrow> nat \<Rightarrow> fls \<Rightarrow> (fls_pc \<times> fls) option" where
  "unlink_locked v rc s = map_option (\<lambda>s. (Freeing v 0 0 rc, s)) (fls_unlink_value v s)"

definition destroy_locked :: "addr \<Rightarrow> fls \<Rightarrow> (fls_pc \<times> fls) option" where
  "destroy_locked v s =
     (case fls_unlink_value v s of
        None \<Rightarrow> None
      | Some s1 \<Rightarrow>
          (case vheap s1 v of
             None \<Rightarrow> None
           | Some x \<Rightarrow>
               (case kheap s1 (owner x) of
                  None \<Rightarrow> None
                | Some key \<Rightarrow> Some (Freeing v (callback key) (vdata x) 0, s1))))"

definition release_value :: "addr \<Rightarrow> nat \<Rightarrow> nat \<Rightarrow> nat \<Rightarrow> fls \<Rightarrow> (fls_pc \<times> fls) option" where
  "release_value v cb d rc s =
     (if vheap s v = None then None
      else Some (Calling cb d,
        if rc = 0 then free_value v s else (free_value v s)\<lparr>fls_error := failure rc\<rparr>))"

definition link_key :: "addr \<Rightarrow> fls \<Rightarrow> (fls_pc \<times> fls) option" where
  "link_key k s =
     (if kheap s k = None then None else Some (Out, (set_knext k (fls_keys s) s)\<lparr>fls_keys := k\<rparr>))"

definition take_key :: "nat \<Rightarrow> fls \<Rightarrow> (fls_pc \<times> fls) option" where
  "take_key i s =
     (case seek (knx s) (has_index s i) Root (fls_keys s) of
        None \<Rightarrow> None
      | Some (c, k) \<Rightarrow>
          if k = 0 then Some (Out, s\<lparr>fls_error := ERROR_INVALID_PARAMETER\<rparr>)
          else case kheap s k of
              None \<Rightarrow> None
            | Some key \<Rightarrow>
                Some (Deleting i k,
                  case c of Root \<Rightarrow> s\<lparr>fls_keys := knext key\<rparr> | After a \<Rightarrow> set_knext a (knext key) s))"

definition delete_key :: "nat \<Rightarrow> nat \<Rightarrow> addr \<Rightarrow> fls \<Rightarrow> (fls_pc \<times> fls) option" where
  "delete_key rc i k s =
     (if kheap s k = None then None
      else if rc \<noteq> 0 then Some (Relinking i k, s)
      else Some (Deleted k, s))"

definition read_values :: "addr \<Rightarrow> fls \<Rightarrow> (fls_pc \<times> fls) option" where
  "read_values k s = (case kheap s k of None \<Rightarrow> None | Some key \<Rightarrow> Some (Draining k (kvalues key), s))"

definition drain_value :: "addr \<Rightarrow> addr \<Rightarrow> fls \<Rightarrow> (fls_pc \<times> fls) option" where
  "drain_value k p s =
     (if p = 0 then Some (Dropping k, s)
      else case vheap s p of
          None \<Rightarrow> None
        | Some x \<Rightarrow>
            (case kheap s k of
               None \<Rightarrow> None
             | Some key \<Rightarrow> Some (Reaping k p (vnext x), run_callback (callback key) (vdata x) s)))"

definition reap_value :: "addr \<Rightarrow> addr \<Rightarrow> addr \<Rightarrow> fls \<Rightarrow> (fls_pc \<times> fls) option" where
  "reap_value k p q s = (if vheap s p = None then None else Some (Draining k q, free_value p s))"

definition drop_key :: "addr \<Rightarrow> fls \<Rightarrow> (fls_pc \<times> fls) option" where
  "drop_key k s = (if kheap s k = None then None else Some (Out, s\<lparr>kheap := (kheap s)(k := None)\<rparr>))"

fun fls_go :: "nat \<Rightarrow> addr option \<Rightarrow> nat \<Rightarrow> fls_pc \<Rightarrow> fls \<Rightarrow> (fls_pc \<times> fls) option" where
  "fls_go t block rc Out s = Some (Out, s)"
| "fls_go t block rc (Found k i data) s = got_specific t k i data s"
| "fls_go t block rc (Got k i data v) s =
     (if data = 0 then got_clear t rc k i v s else got_value block k i data v s)"
| "fls_go t block rc (Inserting k i data b) s = insert_value k i b s"
| "fls_go t block rc (Storing k i v allocated) s = store_specific t rc k i v allocated s"
| "fls_go t block rc (Unlinking i v err) s = unlink_locked v err s"
| "fls_go t block rc (Destroying i v) s = destroy_locked v s"
| "fls_go t block rc (Freeing v cb d err) s = release_value v cb d err s"
| "fls_go t block rc (Calling cb d) s = Some (Out, run_callback cb d s)"
| "fls_go t block rc (Linking k) s = link_key k s"
| "fls_go t block rc (Deleting i k) s = delete_key rc i k s"
| "fls_go t block rc (Relinking i k) s =
     map_option (\<lambda>(pc, s). (pc, s\<lparr>fls_error := ERROR_INVALID_PARAMETER\<rparr>)) (link_key k s)"
| "fls_go t block rc (Deleted k) s = read_values k s"
| "fls_go t block rc (Draining k p) s = drain_value k p s"
| "fls_go t block rc (Reaping k p q) s = reap_value k p q s"
| "fls_go t block rc (Dropping k) s = drop_key k s"

section \<open>The threads\<close>

text \<open>\<open>fls_live i\<close>: the pthread library has a key \<open>i\<close>. \<open>fls_broken\<close>: a block not alive was touched.\<close>

record fls_threads =
  fls_mem :: fls
  fls_at :: "nat \<Rightarrow> fls_pc"
  fls_live :: "nat \<Rightarrow> bool"
  fls_broken :: bool

datatype fls_act =
    AllocIndex addr nat nat
  | SetIndex nat nat
  | FreeIndex nat
  | ExitThread nat
  | Go "addr option" nat

definition find_locked :: "nat \<Rightarrow> nat \<Rightarrow> fls \<Rightarrow> (fls_pc \<times> fls) option" where
  "find_locked i data s =
     (case fls_find_key s i of
        None \<Rightarrow> None
      | Some k \<Rightarrow>
          if k = 0 then Some (Out, s\<lparr>fls_error := ERROR_INVALID_PARAMETER\<rparr>) else Some (Found k i data, s))"

text \<open>The first step of a call; what \<open>FlsAlloc\<close> does before it takes the lock.\<close>

fun fls_begin :: "nat \<Rightarrow> fls_act \<Rightarrow> fls \<Rightarrow> (fls_pc \<times> fls) option" where
  "fls_begin t (AllocIndex k i cb) s =
     Some (Linking k, s\<lparr>specific := (\<lambda>t. (specific s t)(i := 0)),
       kheap := (kheap s)(k \<mapsto> \<lparr>knext = 0, kvalues = 0, kkey = i, callback = cb\<rparr>)\<rparr>)"
| "fls_begin t (SetIndex i data) s = find_locked i data s"
| "fls_begin t (FreeIndex i) s = take_key i s"
| "fls_begin t (ExitThread i) s = Some (Destroying i (specific s t i), set_specific t i 0 s)"
| "fls_begin t (Go block rc) s = None"

text \<open>The keys the pthread library has.\<close>

definition live_after :: "fls_act \<Rightarrow> fls_pc \<Rightarrow> (nat \<Rightarrow> bool) \<Rightarrow> nat \<Rightarrow> bool" where
  "live_after a pc l =
     (case a of
        AllocIndex k i cb \<Rightarrow> l(i := True)
      | Go block rc \<Rightarrow> (case pc of Deleting i k \<Rightarrow> if rc = 0 then l(i := False) else l | _ \<Rightarrow> l)
      | _ \<Rightarrow> l)"

definition moved :: "nat \<Rightarrow> fls_pc \<Rightarrow> fls \<Rightarrow> (nat \<Rightarrow> bool) \<Rightarrow> fls_threads \<Rightarrow> fls_threads" where
  "moved t pc s l S = S\<lparr>fls_mem := s, fls_at := (fls_at S)(t := pc), fls_live := l\<rparr>"

definition fls_act :: "nat \<Rightarrow> fls_act \<Rightarrow> fls_threads \<Rightarrow> fls_threads" where
  "fls_act t a S =
     (case (case a of Go block rc \<Rightarrow> fls_go t block rc (fls_at S t) (fls_mem S) | _ \<Rightarrow> fls_begin t a (fls_mem S)) of
        None \<Rightarrow> S\<lparr>fls_broken := True\<rparr>
      | Some (pc, s) \<Rightarrow> moved t pc s (live_after a (fls_at S t) (fls_live S)) S)"

lemma moved_fields [simp]:
  "fls_mem (moved t pc s l S) = s" "fls_at (moved t pc s l S) = (fls_at S)(t := pc)"
  "fls_live (moved t pc s l S) = l" "fls_broken (moved t pc s l S) = fls_broken S"
  by (simp_all add: moved_def)

text \<open>
  What the threads and the libraries do: a thread begins a call outside of every call, a block
  allocated is fresh, a created key is not in use, and the library runs the destructor of a key
  for a value that is not null.
\<close>

fun allowed :: "nat \<Rightarrow> fls_act \<Rightarrow> fls_threads \<Rightarrow> bool" where
  "allowed t (AllocIndex k i cb) S \<longleftrightarrow>
     fls_at S t = Out \<and> k \<noteq> 0 \<and> kheap (fls_mem S) k = None \<and> \<not> fls_live S i"
| "allowed t (SetIndex i data) S \<longleftrightarrow> fls_at S t = Out"
| "allowed t (FreeIndex i) S \<longleftrightarrow> fls_at S t = Out"
| "allowed t (ExitThread i) S \<longleftrightarrow> fls_at S t = Out \<and> fls_live S i \<and> specific (fls_mem S) t i \<noteq> 0"
| "allowed t (Go block rc) S \<longleftrightarrow>
     fls_at S t \<noteq> Out \<and> (case block of None \<Rightarrow> True | Some b \<Rightarrow> b \<noteq> 0 \<and> vheap (fls_mem S) b = None)"

definition any_step :: "fls_threads \<Rightarrow> fls_threads \<Rightarrow> bool" where
  "any_step S S' \<longleftrightarrow> (\<exists>t a. \<not> fls_broken S \<and> allowed t a S \<and> S' = fls_act t a S)"

text \<open>
  The discipline that makes \<open>FlsFree\<close> safe: it begins when no thread is using the index, and no
  thread that has a value for the index ends while it unlinks and deletes the key.
\<close>

fun using_index :: "fls_pc \<Rightarrow> nat option" where
  "using_index (Found k i data) = Some i"
| "using_index (Got k i data v) = Some i"
| "using_index (Inserting k i data b) = Some i"
| "using_index (Storing k i v allocated) = Some i"
| "using_index (Unlinking i v err) = Some i"
| "using_index (Destroying i v) = Some i"
| "using_index pc = None"

fun freeing_index :: "fls_pc \<Rightarrow> nat option" where
  "freeing_index (Deleting i k) = Some i"
| "freeing_index (Relinking i k) = Some i"
| "freeing_index pc = None"

fun calm :: "fls_act \<Rightarrow> fls_threads \<Rightarrow> bool" where
  "calm (FreeIndex i) S \<longleftrightarrow> (\<forall>u. using_index (fls_at S u) \<noteq> Some i)"
| "calm (ExitThread i) S \<longleftrightarrow> (\<forall>u. freeing_index (fls_at S u) \<noteq> Some i)"
| "calm a S \<longleftrightarrow> True"

definition calm_step :: "fls_threads \<Rightarrow> fls_threads \<Rightarrow> bool" where
  "calm_step S S' \<longleftrightarrow> (\<exists>t a. \<not> fls_broken S \<and> allowed t a S \<and> calm a S \<and> S' = fls_act t a S)"

definition threads_start :: "fls_threads \<Rightarrow> bool" where
  "threads_start S \<longleftrightarrow> fls_start (fls_mem S) \<and> fls_at S = (\<lambda>_. Out) \<and> fls_live S = (\<lambda>_. False) \<and> \<not> fls_broken S"

section \<open>One call alone\<close>

text \<open>The steps of one thread, nobody else running, are the calls of the sequential model.\<close>

fun fls_alone :: "nat \<Rightarrow> nat \<Rightarrow> addr option \<Rightarrow> nat \<Rightarrow> fls_pc \<Rightarrow> fls \<Rightarrow> (fls_pc \<times> fls) option" where
  "fls_alone 0 t block rc pc s = Some (pc, s)"
| "fls_alone (Suc n) t block rc pc s =
     (case fls_go t block rc pc s of None \<Rightarrow> None | Some (pc, s) \<Rightarrow> fls_alone n t block rc pc s)"

lemma free_value_heap [simp]:
  "kheap (free_value v s) = kheap s" "fls_keys (free_value v s) = fls_keys s"
  "specific (free_value v s) = specific s" "vheap (free_value v s) = (vheap s)(v := None)"
  by (simp_all add: free_value_def)

lemma unlink_alive: "fls_unlink_value v s = Some s' \<Longrightarrow> \<exists>x. vheap s' v = Some x"
  by (auto simp: fls_unlink_value_def set_values_def set_vnext_def split: option.splits prod.splits cursor.splits if_splits)

lemma seek_hit:
  assumes "seek nx hit c p = Some (c', q)" "q \<noteq> 0"
  shows "hit q"
proof -
  have "snd r \<noteq> 0 \<longrightarrow> hit (snd r)" if "seek nx hit c p = Some r" for r
  proof (rule seek.raw_induct [where P = "\<lambda>nx hit c p r. snd r \<noteq> 0 \<longrightarrow> hit (snd r)", OF _ that])
    fix f nx c p r and hit :: "addr \<Rightarrow> bool"
    assume "\<And>nx hit c p r. f nx hit c p = Some r \<Longrightarrow> snd r \<noteq> 0 \<longrightarrow> hit (snd r)"
      and "(if p = 0 then Some (c, 0) else case nx p of None \<Rightarrow> None
        | Some q \<Rightarrow> if hit p then Some (c, p) else f nx hit (After p) q) = Some r"
    then show "snd r \<noteq> 0 \<longrightarrow> hit (snd r)" by (cases r) (fastforce split: if_splits option.splits)
  qed
  with assms show ?thesis by fastforce
qed

lemma find_index:
  assumes "fls_find_key s i = Some k" "k \<noteq> 0"
  obtains key where "kheap s k = Some key" "kkey key = i"
proof -
  from assms obtain c where "seek (knx s) (has_index s i) Root (fls_keys s) = Some (c, k)"
    by (auto simp: fls_find_key_def)
  from seek_hit [OF this assms(2)] that show thesis by (auto simp: has_index_def split: option.splits)
qed

lemma out_alone: "fls_alone n t block rc Out s = Some (Out, s)"
  by (induction n) simp_all

lemma set_alone:
  assumes run: "FlsSetValue t i data block rc s = Some (r, s')"
  shows "\<exists>pc s0. find_locked i data s = Some (pc, s0) \<and>
    (\<exists>n. fls_alone n t block rc pc s0 = Some (Out, s'))"
proof -
  let ?n = "Suc (Suc (Suc (Suc (Suc (Suc (Suc 0))))))"
  have "\<exists>pc s0. find_locked i data s = Some (pc, s0) \<and> fls_alone ?n t block rc pc s0 = Some (Out, s')"
  proof -
    obtain k where k: "fls_find_key s i = Some k" using run by (auto simp: FlsSetValue_def split: option.splits)
    show ?thesis
    proof (cases "k = 0")
      case True
      with run k show ?thesis by (auto simp: FlsSetValue_def find_locked_def out_alone simp del: fls_alone.simps(2))
    next
      case False
      then obtain key where key: "kheap s k = Some key" "kkey key = i" by (rule find_index [OF k])
      let ?v = "specific s t i"
      have found: "find_locked i data s = Some (Found k i data, s)" using k False by (simp add: find_locked_def)
      have none: "run_callback 0 0 s = s" for s by (simp add: run_callback_def)
      consider (clear) "data = 0" | (new) "data \<noteq> 0" "?v = 0" | (replace) "data \<noteq> 0" "?v \<noteq> 0" by blast
      then show ?thesis
      proof cases
        case clear
        then have "clear_value t i rc ?v s = Some (r, s')" using run k False by (simp add: FlsSetValue_def)
        with clear key show ?thesis
          unfolding found
          by (auto simp: got_specific_def got_clear_def clear_value_def unlink_locked_def release_value_def none
              dest: unlink_alive split: if_splits)
      next
        case new
        then have "new_value t i k data block rc s = Some (r, s')" using run k False by (simp add: FlsSetValue_def)
        with new key show ?thesis
          unfolding found
          by (auto simp: got_specific_def got_value_def new_value_def insert_value_def store_specific_def
              unlink_locked_def release_value_def none set_values_def set_vnext_def Let_def set_specific_def
              dest: unlink_alive split: if_splits option.splits)
      next
        case replace
        then have "replace_value t i ?v data rc s = Some (r, s')" using run k False by (simp add: FlsSetValue_def)
        with replace key show ?thesis
          unfolding found
          by (auto simp: got_specific_def got_value_def replace_value_def store_specific_def Let_def set_specific_def
              split: if_splits option.splits)
      qed
    qed
  qed
  then show ?thesis by blast
qed

lemma alone_step:
  "fls_go t block rc pc s = Some (pc', s') \<Longrightarrow> \<exists>n. fls_alone n t block rc pc' s' = r \<Longrightarrow> \<exists>n. fls_alone n t block rc pc s = r"
  by (erule exE) (rule_tac x = "Suc n" in exI, simp)

lemma drain_alone:
  assumes "free_values cb p s = Some s1" "kheap s k = Some key" "callback key = cb"
    and "\<exists>n. fls_alone n t block rc (Dropping k) s1 = r"
  shows "\<exists>n. fls_alone n t block rc (Draining k p) s = r"
proof -
  have "kheap s k = Some key \<longrightarrow> callback key = cb \<longrightarrow> (\<exists>n. fls_alone n t block rc (Dropping k) s1 = r) \<longrightarrow>
      (\<exists>n. fls_alone n t block rc (Draining k p) s = r)"
  proof (rule free_values.raw_induct [where P = "\<lambda>cb p s s1. kheap s k = Some key \<longrightarrow> callback key = cb \<longrightarrow>
      (\<exists>n. fls_alone n t block rc (Dropping k) s1 = r) \<longrightarrow> (\<exists>n. fls_alone n t block rc (Draining k p) s = r)",
      OF _ assms(1)], intro impI)
    fix f cb p s s1
    assume IH: "\<And>cb p s s1. f cb p s = Some s1 \<Longrightarrow> kheap s k = Some key \<longrightarrow> callback key = cb \<longrightarrow>
        (\<exists>n. fls_alone n t block rc (Dropping k) s1 = r) \<longrightarrow> (\<exists>n. fls_alone n t block rc (Draining k p) s = r)"
      and run: "(if p = 0 then Some s else case vheap s p of None \<Rightarrow> None
        | Some x \<Rightarrow> f cb (vnext x) (free_value p (run_callback cb (vdata x) s))) = Some s1"
      and k: "kheap s k = Some key" "callback key = cb" and rest: "\<exists>n. fls_alone n t block rc (Dropping k) s1 = r"
    show "\<exists>n. fls_alone n t block rc (Draining k p) s = r"
    proof (cases "p = 0")
      case True
      with run rest show ?thesis by - (rule alone_step [where pc' = "Dropping k" and s' = s], simp_all add: drain_value_def)
    next
      case False
      with run obtain x where x: "vheap s p = Some x"
          "f cb (vnext x) (free_value p (run_callback cb (vdata x) s)) = Some s1"
        by (auto split: option.splits)
      let ?s = "run_callback cb (vdata x) s"
      have heaps: "kheap ?s = kheap s" "vheap ?s = vheap s" by (simp_all add: run_callback_def)
      have "\<exists>n. fls_alone n t block rc (Draining k (vnext x)) (free_value p ?s) = r"
        using IH [OF x(2)] k rest by (simp add: heaps)
      then have "\<exists>n. fls_alone n t block rc (Reaping k p (vnext x)) ?s = r"
        by - (rule alone_step [where pc' = "Draining k (vnext x)" and s' = "free_value p ?s"],
          simp_all add: reap_value_def heaps x(1))
      then show ?thesis
        using False x(1) k
        by - (rule alone_step [where pc' = "Reaping k p (vnext x)" and s' = ?s], simp_all add: drain_value_def)
    qed
  qed
  with assms show ?thesis by blast
qed

lemma free_alone:
  assumes run: "FlsFree i rc s = Some (r, s')"
  shows "\<exists>pc s0. take_key i s = Some (pc, s0) \<and> (\<exists>n. fls_alone n t block rc pc s0 = Some (Out, s'))"
proof -
  obtain c k where seek: "seek (knx s) (has_index s i) Root (fls_keys s) = Some (c, k)"
    using run by (auto simp: FlsFree_def split: option.splits)
  show ?thesis
  proof (cases "k = 0")
    case True
    with run seek show ?thesis by (auto simp: FlsFree_def take_key_def out_alone)
  next
    case False
    with run seek obtain key where key: "kheap s k = Some key" by (auto simp: FlsFree_def split: option.splits)
    define s1 where "s1 = (case c of Root \<Rightarrow> s\<lparr>fls_keys := knext key\<rparr> | After a \<Rightarrow> set_knext a (knext key) s)"
    obtain key1 where key1: "kheap s1 k = Some key1" "callback key1 = callback key" "kvalues key1 = kvalues key"
      using key by (cases c) (fastforce simp: s1_def set_knext_def split: if_splits)+
    have taken: "take_key i s = Some (Deleting i k, s1)" using seek False key by (simp add: take_key_def s1_def)
    have "\<exists>n. fls_alone n t block rc (Deleting i k) s1 = Some (Out, s')"
    proof (cases "rc = 0")
      case True
      then obtain s2 where s2: "free_values (callback key) (kvalues key) s1 = Some s2"
          "s' = s2\<lparr>kheap := (kheap s2)(k := None)\<rparr>"
        using run seek False key by (auto simp: FlsFree_def s1_def [symmetric] Let_def)
      have kh: "kheap s2 = kheap s1"
      proof (rule free_values.raw_induct [where P = "\<lambda>cb p s s2. kheap s2 = kheap s", OF _ s2(1)])
        fix f cb p s s2
        assume "\<And>cb p s s2. f cb p s = Some s2 \<Longrightarrow> kheap s2 = kheap s"
          and "(if p = 0 then Some s else case vheap s p of None \<Rightarrow> None
            | Some x \<Rightarrow> f cb (vnext x) (free_value p (run_callback cb (vdata x) s))) = Some s2"
        then show "kheap s2 = kheap s" by (auto simp: run_callback_def split: if_splits option.splits)
      qed
      have "fls_alone (Suc 0) t block rc (Dropping k) s2 = Some (Out, s')"
        using key1(1) by (simp add: drop_key_def kh s2(2))
      then have "\<exists>n. fls_alone n t block rc (Draining k (kvalues key)) s1 = Some (Out, s')"
        using drain_alone [OF s2(1) key1(1,2)] by blast
      then have "\<exists>n. fls_alone n t block rc (Deleted k) s1 = Some (Out, s')"
        using key1 by - (rule alone_step [where pc' = "Draining k (kvalues key)" and s' = s1], simp_all add: read_values_def)
      with True show ?thesis
        using key1 by - (rule alone_step [where pc' = "Deleted k" and s' = s1], simp_all add: delete_key_def)
    next
      case False
      then have s': "s' = (set_knext k (fls_keys s1) s1)\<lparr>fls_keys := k, fls_error := ERROR_INVALID_PARAMETER\<rparr>"
        using run seek \<open>k \<noteq> 0\<close> key by (simp add: FlsFree_def s1_def [symmetric] Let_def)
      have "fls_alone (Suc 0) t block rc (Relinking i k) s1 = Some (Out, s')"
        using key1 by (simp add: link_key_def s')
      then have "\<exists>n. fls_alone n t block rc (Relinking i k) s1 = Some (Out, s')" by blast
      with False show ?thesis
        using key1 by - (rule alone_step [where pc' = "Relinking i k" and s' = s1], simp_all add: delete_key_def)
    qed
    with taken show ?thesis by blast
  qed
qed

lemma exit_alone:
  assumes run: "thread_exit t i s = Some s'" and v: "specific s t i \<noteq> 0"
  shows "\<exists>pc s0. fls_begin t (ExitThread i) s = Some (pc, s0) \<and>
    (\<exists>n. fls_alone n t block rc pc s0 = Some (Out, s'))"
proof -
  let ?v = "specific s t i" and ?s = "set_specific t i 0 s"
  obtain s1 where s1: "fls_unlink_value ?v ?s = Some s1"
    using run v by (auto simp: thread_exit_def fls_destroy_value_def set_specific_def split: option.splits)
  then obtain x key where x: "vheap s1 ?v = Some x" "kheap s1 (owner x) = Some key"
      "s' = run_callback (callback key) (vdata x) (free_value ?v s1)"
    using run v by (auto simp: thread_exit_def fls_destroy_value_def set_specific_def split: option.splits)
  have "fls_alone (Suc (Suc (Suc 0))) t block rc (Destroying i ?v) ?s = Some (Out, s')"
    using s1 x by (simp add: destroy_locked_def release_value_def)
  then show ?thesis by (simp del: fls_alone.simps) blast
qed

lemma alloc_alone:
  "\<exists>pc s0. fls_begin t (AllocIndex k i cb) s = Some (pc, s0) \<and>
    fls_alone (Suc 0) t block rc pc s0 = Some (Out, snd (FlsAlloc (Some k) (Inr i) cb s))"
  by (simp add: FlsAlloc_def link_key_def set_knext_def)

text \<open>The call \<open>a\<close> of thread \<open>t\<close>, alone and to its end.\<close>

definition completes :: "nat \<Rightarrow> fls_act \<Rightarrow> addr option \<Rightarrow> nat \<Rightarrow> fls \<Rightarrow> fls \<Rightarrow> bool" where
  "completes t a block rc s s' \<longleftrightarrow>
     (\<exists>pc s0 n. fls_begin t a s = Some (pc, s0) \<and> fls_alone n t block rc pc s0 = Some (Out, s'))"



end
