(* ===== verification/FlsRaces.thy ===== *)
theory FlsRaces
  imports FlsSteps
begin

text \<open>
  What the interleavings of \<open>FlsSteps\<close> keep: an invariant of the memory that all threads share and
  of what each thread has taken out of it. While \<open>FlsFree\<close> does not overlap another use of its index
  the invariant holds in every run, so that no released block is touched, and every call acts in
  one step. Two runs show what happens where it does overlap.
\<close>

section \<open>The invariant\<close>

text \<open>
  The keys a thread has out of the list of keys, those it is dismantling, and the value it has out
  of every list. \<open>slots\<close> restores what the thread has stored, or not yet stored, for the value it
  works on.
\<close>

fun owned_key :: "fls_pc \<Rightarrow> addr option" where
  "owned_key (Linking k) = Some k"
| "owned_key (Deleting i k) = Some k"
| "owned_key (Relinking i k) = Some k"
| "owned_key (Deleted k) = Some k"
| "owned_key (Draining k p) = Some k"
| "owned_key (Reaping k p q) = Some k"
| "owned_key (Dropping k) = Some k"
| "owned_key pc = None"

fun dying_key :: "fls_pc \<Rightarrow> addr option" where
  "dying_key (Deleted k) = Some k"
| "dying_key (Draining k p) = Some k"
| "dying_key (Reaping k p q) = Some k"
| "dying_key (Dropping k) = Some k"
| "dying_key pc = None"

fun held_value :: "fls_pc \<Rightarrow> addr option" where
  "held_value (Inserting k i data b) = Some b"
| "held_value (Freeing v cb d err) = Some v"
| "held_value pc = None"

fun slots :: "fls_pc \<Rightarrow> (nat \<Rightarrow> addr) \<Rightarrow> nat \<Rightarrow> addr" where
  "slots (Storing k i v allocated) f = (if allocated then f(i := v) else f)"
| "slots (Unlinking i v err) f = f(i := v)"
| "slots (Destroying i v) f = f(i := v)"
| "slots pc f = f"

definition owned :: "fls_threads \<Rightarrow> addr set" where
  "owned S = {k. \<exists>t. owned_key (fls_at S t) = Some k}"

definition gone :: "fls_threads \<Rightarrow> addr set" where
  "gone S = {k. \<exists>t. dying_key (fls_at S t) = Some k}"

definition taken :: "fls_threads \<Rightarrow> addr set" where
  "taken S = {v. \<exists>t. held_value (fls_at S t) = Some v}"

text \<open>
  The memory as if every insertion under way had been stored and no removal under way had begun,
  without what belongs to one thread alone.
\<close>

definition vis :: "fls_threads \<Rightarrow> fls" where
  "vis S = (fls_mem S)\<lparr>
     kheap := (\<lambda>k. if k \<in> gone S then None else kheap (fls_mem S) k),
     vheap := (\<lambda>v. case vheap (fls_mem S) v of None \<Rightarrow> None
                 | Some x \<Rightarrow> if v \<in> taken S \<or> owner x \<in> gone S then None else Some x),
     specific := (\<lambda>t. slots (fls_at S t) (specific (fls_mem S) t))\<rparr>"

definition usable :: "fls_threads \<Rightarrow> addr \<Rightarrow> nat \<Rightarrow> bool" where
  "usable S k i \<longleftrightarrow> (\<exists>c. kview (vis S) k = Some (i, c)) \<and> k \<notin> owned S"

text \<open>The values of a key that is being dismantled are those of a list, and the one in hand.\<close>

definition drains :: "fls_threads \<Rightarrow> addr \<Rightarrow> addr \<Rightarrow> addr list \<Rightarrow> bool" where
  "drains S k p ps \<longleftrightarrow> (\<exists>vl. slist (vnx (fls_mem S)) p vl \<and> distinct (ps @ vl) \<and>
     set (ps @ vl) = {v. \<exists>x. vheap (fls_mem S) v = Some x \<and> owner x = k \<and> v \<notin> taken S})"

fun pc_ok :: "fls_threads \<Rightarrow> nat \<Rightarrow> fls_pc \<Rightarrow> bool" where
  "pc_ok S t (Found k i data) \<longleftrightarrow> usable S k i"
| "pc_ok S t (Got k i data v) \<longleftrightarrow> usable S k i \<and> v = specific (fls_mem S) t i"
| "pc_ok S t (Inserting k i data b) \<longleftrightarrow> usable S k i \<and> specific (fls_mem S) t i = 0 \<and> b \<noteq> 0 \<and>
     (\<exists>x. vheap (fls_mem S) b = Some x \<and> owner x = k \<and> vdata x = data) \<and> data \<noteq> 0"
| "pc_ok S t (Storing k i v allocated) \<longleftrightarrow> usable S k i \<and> v \<noteq> 0 \<and>
     specific (fls_mem S) t i = (if allocated then 0 else v)"
| "pc_ok S t (Unlinking i v err) \<longleftrightarrow> (\<exists>k. usable S k i) \<and> v \<noteq> 0 \<and> specific (fls_mem S) t i = 0"
| "pc_ok S t (Destroying i v) \<longleftrightarrow> (\<exists>k. usable S k i) \<and> v \<noteq> 0 \<and> specific (fls_mem S) t i = 0"
| "pc_ok S t (Freeing v cb d err) \<longleftrightarrow> vheap (fls_mem S) v \<noteq> None"
| "pc_ok S t (Linking k) \<longleftrightarrow> (\<exists>key. kheap (fls_mem S) k = Some key \<and> kvalues key = 0)"
| "pc_ok S t (Deleting i k) \<longleftrightarrow> (\<exists>c. kview (fls_mem S) k = Some (i, c))"
| "pc_ok S t (Relinking i k) \<longleftrightarrow> (\<exists>c. kview (fls_mem S) k = Some (i, c))"
| "pc_ok S t (Deleted k) \<longleftrightarrow> (\<exists>key. kheap (fls_mem S) k = Some key \<and> drains S k (kvalues key) [])"
| "pc_ok S t (Draining k p) \<longleftrightarrow> kheap (fls_mem S) k \<noteq> None \<and> drains S k p []"
| "pc_ok S t (Reaping k p q) \<longleftrightarrow> kheap (fls_mem S) k \<noteq> None \<and> drains S k q [p]"
| "pc_ok S t (Dropping k) \<longleftrightarrow> kheap (fls_mem S) k \<noteq> None \<and> drains S k 0 []"
| "pc_ok S t pc \<longleftrightarrow> True"

definition keys_listed :: "fls_threads \<Rightarrow> bool" where
  "keys_listed S \<longleftrightarrow> (\<exists>ks. slist (knx (fls_mem S)) (fls_keys (fls_mem S)) ks \<and>
     set ks = dom (kheap (fls_mem S)) - owned S)"

definition shape :: "fls \<Rightarrow> bool" where
  "shape s \<longleftrightarrow> (\<exists>vs. value_lists s vs) \<and> tied s"

definition races_ok :: "fls_threads \<Rightarrow> bool" where
  "races_ok S \<longleftrightarrow> \<not> fls_broken S \<and> keys_listed S \<and> shape (vis S) \<and>
     (\<forall>i. fls_live S i \<longleftrightarrow> (\<exists>k c. kview (vis S) k = Some (i, c))) \<and>
     (\<forall>t u k. owned_key (fls_at S t) = Some k \<longrightarrow> owned_key (fls_at S u) = Some k \<longrightarrow> t = u) \<and>
     (\<forall>t u v. held_value (fls_at S t) = Some v \<longrightarrow> held_value (fls_at S u) = Some v \<longrightarrow> t = u) \<and>
     (\<forall>t. pc_ok S t (fls_at S t)) \<and>
     kheap (fls_mem S) 0 = None \<and> vheap (fls_mem S) 0 = None"

lemma races_okD:
  assumes "races_ok S"
  shows "\<not> fls_broken S" "keys_listed S" "shape (vis S)" "tied (vis S)" "pc_ok S t (fls_at S t)"
    "fls_live S i \<longleftrightarrow> (\<exists>k c. kview (vis S) k = Some (i, c))"
    "owned_key (fls_at S t) = Some k \<Longrightarrow> owned_key (fls_at S u) = Some k \<Longrightarrow> t = u"
    "held_value (fls_at S t) = Some v \<Longrightarrow> held_value (fls_at S u) = Some v \<Longrightarrow> t = u"
    "kheap (fls_mem S) 0 = None" "vheap (fls_mem S) 0 = None"
  using assms unfolding races_ok_def shape_def by blast+

text \<open>What a step of \<open>t\<close> has to leave alone for thread \<open>u\<close>.\<close>

definition leaves :: "fls_threads \<Rightarrow> fls_threads \<Rightarrow> nat \<Rightarrow> bool" where
  "leaves S S' u \<longleftrightarrow>
     (\<forall>i k. using_index (fls_at S u) = Some i \<longrightarrow> usable S k i \<longrightarrow>
        usable S' k i \<and> specific (fls_mem S') u i = specific (fls_mem S) u i) \<and>
     (\<forall>v. held_value (fls_at S u) = Some v \<longrightarrow> vheap (fls_mem S') v = vheap (fls_mem S) v) \<and>
     (\<forall>k. owned_key (fls_at S u) = Some k \<longrightarrow> kheap (fls_mem S') k = kheap (fls_mem S) k) \<and>
     (\<forall>k v x. dying_key (fls_at S u) = Some k \<longrightarrow> owner x = k \<longrightarrow>
        (vheap (fls_mem S') v = Some x \<and> v \<notin> taken S' \<longleftrightarrow> vheap (fls_mem S) v = Some x \<and> v \<notin> taken S))"

lemma drains_frame:
  assumes "drains S k p ps"
    and same: "\<And>v x. owner x = k \<Longrightarrow>
      vheap (fls_mem S') v = Some x \<and> v \<notin> taken S' \<longleftrightarrow> vheap (fls_mem S) v = Some x \<and> v \<notin> taken S"
  shows "drains S' k p ps"
proof -
  from assms(1) obtain vl where vl: "slist (vnx (fls_mem S)) p vl" "distinct (ps @ vl)"
    "set (ps @ vl) = {v. \<exists>x. vheap (fls_mem S) v = Some x \<and> owner x = k \<and> v \<notin> taken S}"
    unfolding drains_def by blast
  have "slist (vnx (fls_mem S')) p vl"
  proof (rule slist_cong [OF vl(1)])
    fix a assume "a \<in> set vl"
    with vl(3) obtain x where "vheap (fls_mem S) a = Some x" "owner x = k" "a \<notin> taken S" by auto
    with same [of x a] show "vnx (fls_mem S') a = vnx (fls_mem S) a" by (simp add: vnx_def)
  qed
  moreover have "{v. \<exists>x. vheap (fls_mem S) v = Some x \<and> owner x = k \<and> v \<notin> taken S} =
      {v. \<exists>x. vheap (fls_mem S') v = Some x \<and> owner x = k \<and> v \<notin> taken S'}"
    using same by blast
  ultimately show ?thesis using vl unfolding drains_def by auto
qed

lemma pc_ok_frame:
  assumes "pc_ok S u (fls_at S u)" "leaves S S' u"
  shows "pc_ok S' u (fls_at S u)"
proof -
  have d: "drains S' k p ps" if "drains S k p ps" "dying_key (fls_at S u) = Some k" for k p ps
    by (rule drains_frame [OF that(1)]) (use assms(2) that(2) in \<open>auto simp: leaves_def\<close>)
  show ?thesis
  proof (cases "fls_at S u")
    case (Unlinking i v err)
    with assms show ?thesis unfolding leaves_def by auto
  next
    case (Destroying i v)
    with assms show ?thesis unfolding leaves_def by auto
  qed (use assms d in \<open>auto simp: leaves_def kview_def\<close>)
qed

lemma one_owner:
  assumes "\<And>t u k. f (g t) = Some k \<Longrightarrow> f (g u) = Some k \<Longrightarrow> t = u"
    and "\<And>k. f pc = Some k \<Longrightarrow> f (g t) = Some k \<or> k \<notin> {k. \<exists>t. f (g t) = Some k}"
    and "f ((g(t := pc)) u) = Some k" "f ((g(t := pc)) w) = Some k"
  shows "u = w"
  using assms(1) [of u k w] assms(1) [of u k t] assms(1) [of t k w] assms(2) [of k] assms(3,4)
  by (auto split: if_splits)

text \<open>A step of \<open>t\<close> keeps the invariant if the shared part and the other threads allow it.\<close>

lemma races_step:
  assumes ok: "races_ok S"
    and S': "fls_at S' = (fls_at S)(t := pc)" "\<not> fls_broken S'"
    and keys: "keys_listed S'" and shape: "shape (vis S')"
    and live: "\<And>i. fls_live S' i \<longleftrightarrow> (\<exists>k c. kview (vis S') k = Some (i, c))"
    and own: "\<And>k. owned_key pc = Some k \<Longrightarrow> owned_key (fls_at S t) = Some k \<or> k \<notin> owned S"
    and held: "\<And>v. held_value pc = Some v \<Longrightarrow> held_value (fls_at S t) = Some v \<or> v \<notin> taken S"
    and pc: "pc_ok S' t pc"
    and rest: "\<And>u. u \<noteq> t \<Longrightarrow> leaves S S' u"
    and null: "kheap (fls_mem S') 0 = None" "vheap (fls_mem S') 0 = None"
  shows "races_ok S'"
  unfolding races_ok_def
proof (intro conjI allI impI)
  show "u = w" if "owned_key (fls_at S' u) = Some k" "owned_key (fls_at S' w) = Some k" for u w k
    using that unfolding S'(1) by (rule one_owner [where f = owned_key, rotated 2]) (use races_okD(7) [OF ok] own in \<open>auto simp: owned_def\<close>)
  show "u = w" if "held_value (fls_at S' u) = Some v" "held_value (fls_at S' w) = Some v" for u w v
    using that unfolding S'(1) by (rule one_owner [where f = held_value, rotated 2]) (use races_okD(8) [OF ok] held in \<open>auto simp: taken_def\<close>)
  show "pc_ok S' u (fls_at S' u)" for u
  proof (cases "u = t")
    case False
    with pc_ok_frame [OF races_okD(5) [OF ok] rest] S'(1) show ?thesis by simp
  qed (use pc S'(1) in simp)
qed (use assms in auto)

lemma heap_vview: "vheap s' = vheap s \<Longrightarrow> vview s' = vview s"
  by (simp add: vview_def fun_eq_iff)

text \<open>
  What the threads can see: the datum of a thread and index. An insertion counts once it is in the
  list, a removal once it is out. \<open>becomes\<close>: a good state in which the threads see this.
\<close>

definition fls_seen :: "fls_threads \<Rightarrow> nat \<Rightarrow> nat \<Rightarrow> nat option" where
  "fls_seen S t i = (if fls_live S i then map_option snd (vview (vis S) (specific (vis S) t i)) else None)"

definition becomes :: "fls_threads \<Rightarrow> (nat \<Rightarrow> nat \<Rightarrow> nat option) \<Rightarrow> bool" where
  "becomes S f \<longleftrightarrow> races_ok S \<and> fls_seen S = f"

lemma seen_same:
  assumes "fls_live S' = fls_live S" "vheap (vis S') = vheap (vis S)" "\<And>u. specific (vis S') u = specific (vis S) u"
  shows "fls_seen S' = fls_seen S"
  using assms(1,3) heap_vview [OF assms(2)] by (simp only: fls_seen_def fun_eq_iff) simp

section \<open>Steps that the shared part does not see\<close>

text \<open>The shape does not depend on the links of the keys, nor on the slots of other indexes.\<close>

definition kvals :: "fls \<Rightarrow> addr \<Rightarrow> addr option" where
  "kvals s k = map_option kvalues (kheap s k)"

lemma value_lists_kvals: "value_lists s vs \<longleftrightarrow> (\<forall>k p. kvals s k = Some p \<longrightarrow>
     slist (vnx s) p (vs k) \<and> set (vs k) = {v. \<exists>d. vview s v = Some (k, d)})"
  by (auto simp: value_lists_def kvals_def)

lemma shape_keys_cong:
  assumes "shape s" "kview s' = kview s" "kvals s' = kvals s" "vheap s' = vheap s"
    and "\<And>k i c t. kview s k = Some (i, c) \<Longrightarrow> specific s' t i = specific s t i"
  shows "shape s'"
proof -
  have eq: "vview s' = vview s" "vnx s' = vnx s"
    using assms(4) by (auto simp: vview_def vnx_def fun_eq_iff)
  note eq = eq assms(2)
  from assms(1) obtain vs where "value_lists s vs" and t: "tied s" by (auto simp: shape_def)
  then have "value_lists s' vs" by (simp add: value_lists_kvals assms(3) eq)
  moreover have "tied s'"
    unfolding tied_def eq
  proof (intro conjI allI impI)
    show "k = k'" if "kview s k = Some (i, c)" "kview s k' = Some (i, c')" for k k' i c c'
      using same_index [OF t that] .
    fix v k d assume v: "vview s v = Some (k, d)"
    show "d \<noteq> 0" using tied_value [OF t v] by simp
    from tied_value [OF t v] obtain i c where "kview s k = Some (i, c)" "\<exists>!t. specific s t i = v" by blast
    then show "\<exists>i c. kview s k = Some (i, c) \<and> (\<exists>!t. specific s' t i = v)" using assms(5) by auto
  next
    fix t k i c assume k: "kview s k = Some (i, c)"
    then show "specific s' t i = 0 \<or> (\<exists>d. vview s (specific s' t i) = Some (k, d))"
      using tied_slot [OF \<open>tied s\<close> k, of t] assms(5) [OF k, of t] by simp
  qed
  ultimately show ?thesis by (auto simp: shape_def)
qed

lemma shape_cong:
  assumes "shape s" "kheap s' = kheap s" "vheap s' = vheap s"
    and "\<And>k i c t. kview s k = Some (i, c) \<Longrightarrow> specific s' t i = specific s t i"
  shows "shape s'"
  by (rule shape_keys_cong [OF assms(1)]) (use assms in \<open>auto simp: kview_def kvals_def fun_eq_iff\<close>)

lemma knx_heap: "kheap s' = kheap s \<Longrightarrow> knx s' = knx s"
  and vnx_heap: "vheap s' = vheap s \<Longrightarrow> vnx s' = vnx s"
  by (simp_all add: knx_def vnx_def fun_eq_iff)

lemma sets_upd:
  assumes "fls_at S' = (fls_at S)(t := pc)"
  shows "owned_key pc = owned_key (fls_at S t) \<Longrightarrow> owned S' = owned S"
    "dying_key pc = dying_key (fls_at S t) \<Longrightarrow> gone S' = gone S"
    "held_value pc = held_value (fls_at S t) \<Longrightarrow> taken S' = taken S"
  using assms by (auto simp: owned_def gone_def taken_def)

lemma vis_fields [simp]:
  "kheap (vis S) k = (if k \<in> gone S then None else kheap (fls_mem S) k)"
  "vheap (vis S) v = (case vheap (fls_mem S) v of None \<Rightarrow> None
     | Some x \<Rightarrow> if v \<in> taken S \<or> owner x \<in> gone S then None else Some x)"
  "specific (vis S) t = slots (fls_at S t) (specific (fls_mem S) t)"
  "fls_keys (vis S) = fls_keys (fls_mem S)"
  by (simp_all add: vis_def)

lemma gone_owned: "gone S \<subseteq> owned S"
proof -
  have "dying_key pc = Some k \<Longrightarrow> owned_key pc = Some k" for pc k by (cases pc) auto
  then show ?thesis by (auto simp: gone_def owned_def)
qed

lemma at_sets:
  "owned_key (fls_at S t) = Some k \<Longrightarrow> k \<in> owned S" "dying_key (fls_at S t) = Some k \<Longrightarrow> k \<in> gone S"
  "held_value (fls_at S t) = Some v \<Longrightarrow> v \<in> taken S"
  by (auto simp: owned_def gone_def taken_def)

lemma usable_key:
  assumes "usable S k i"
  obtains key where "kheap (fls_mem S) k = Some key" "kkey key = i" "k \<notin> owned S" "k \<notin> gone S"
    "kview (vis S) k = Some (i, callback key)"
  using assms gone_owned [of S] by (auto simp: usable_def kview_def split: if_splits)

text \<open>A step that keeps the keys and their list.\<close>

lemma value_step:
  assumes ok: "races_ok S"
    and S': "fls_at S' = (fls_at S)(t := pc)" "fls_broken S' = fls_broken S" "fls_live S' = fls_live S"
    and own: "owned_key pc = owned_key (fls_at S t)" "dying_key pc = dying_key (fls_at S t)"
    and held: "\<And>v. held_value pc = Some v \<Longrightarrow> held_value (fls_at S t) = Some v \<or> v \<notin> taken S"
    and keys: "kview (fls_mem S') = kview (fls_mem S)" "knx (fls_mem S') = knx (fls_mem S)"
      "fls_keys (fls_mem S') = fls_keys (fls_mem S)"
      "\<And>k. k \<in> owned S \<Longrightarrow> kheap (fls_mem S') k = kheap (fls_mem S) k"
    and shape: "shape (vis S')"
    and slot: "\<And>u. u \<noteq> t \<Longrightarrow> specific (fls_mem S') u = specific (fls_mem S) u"
    and theirs: "\<And>u v. u \<noteq> t \<Longrightarrow> held_value (fls_at S u) = Some v \<Longrightarrow> vheap (fls_mem S') v = vheap (fls_mem S) v"
    and drain: "\<And>u v x. u \<noteq> t \<Longrightarrow> dying_key (fls_at S u) = Some (owner x) \<Longrightarrow>
      vheap (fls_mem S') v = Some x \<and> v \<notin> taken S' \<longleftrightarrow> vheap (fls_mem S) v = Some x \<and> v \<notin> taken S"
    and null: "vheap (fls_mem S') 0 = None"
    and pc: "usable S' = usable S \<Longrightarrow> pc_ok S' t pc"
  shows "races_ok S'"
proof -
  note sets = sets_upd(1) [OF S'(1) own(1)] sets_upd(2) [OF S'(1) own(2)]
  have none: "kheap (fls_mem S') k = None \<longleftrightarrow> kheap (fls_mem S) k = None" for k
    using keys(1) view_None(2) by metis
  then have dom: "dom (kheap (fls_mem S')) = dom (kheap (fls_mem S))" by (simp add: dom_def)
  have kview: "kview (vis S') = kview (vis S)"
    using keys(1) sets by (simp add: kview_def fun_eq_iff)
  have us: "usable S' = usable S" by (simp add: usable_def kview sets fun_eq_iff)
  show ?thesis
  proof (rule races_step [OF ok S'(1)])
    show "\<not> fls_broken S'" using S'(2) races_okD(1) [OF ok] by simp
    show "keys_listed S'"
      using races_okD(2) [OF ok] keys sets by (simp add: keys_listed_def dom)
    show "fls_live S' i \<longleftrightarrow> (\<exists>k c. kview (vis S') k = Some (i, c))" for i
      using races_okD(6) [OF ok] kview S'(3) by simp
    show "owned_key (fls_at S t) = Some k \<or> k \<notin> owned S" if "owned_key pc = Some k" for k
      using that own by simp
    show "leaves S S' u" if "u \<noteq> t" for u
      unfolding leaves_def using us slot [OF that] theirs [OF that] keys(4) at_sets(1) drain [OF that] by auto
    show "kheap (fls_mem S') 0 = None" using races_okD(9) [OF ok] none by simp
  qed (use held pc us null shape in auto)
qed

text \<open>A step that the shared part does not see: blocks of one thread may come and go.\<close>

lemma quiet_step:
  assumes ok: "races_ok S"
    and S': "fls_at S' = (fls_at S)(t := pc)" "fls_broken S' = fls_broken S" "fls_live S' = fls_live S"
    and own: "owned_key pc = owned_key (fls_at S t)" "dying_key pc = dying_key (fls_at S t)"
    and held: "\<And>v. held_value pc = Some v \<Longrightarrow> held_value (fls_at S t) = Some v \<or> v \<notin> taken S"
    and keys: "kheap (fls_mem S') = kheap (fls_mem S)" "fls_keys (fls_mem S') = fls_keys (fls_mem S)"
    and vals: "vheap (vis S') = vheap (vis S)"
    and slot: "slots pc (specific (fls_mem S') t) = slots (fls_at S t) (specific (fls_mem S) t)"
      "\<And>u. u \<noteq> t \<Longrightarrow> specific (fls_mem S') u = specific (fls_mem S) u"
    and theirs: "\<And>u v. u \<noteq> t \<Longrightarrow> held_value (fls_at S u) = Some v \<Longrightarrow> vheap (fls_mem S') v = vheap (fls_mem S) v"
    and drain: "\<And>u v x. u \<noteq> t \<Longrightarrow> dying_key (fls_at S u) = Some (owner x) \<Longrightarrow>
      vheap (fls_mem S') v = Some x \<and> v \<notin> taken S' \<longleftrightarrow> vheap (fls_mem S) v = Some x \<and> v \<notin> taken S"
    and null: "vheap (fls_mem S') 0 = None"
    and pc: "usable S' = usable S \<Longrightarrow> pc_ok S' t pc"
  shows "becomes S' (fls_seen S)"
proof -
  have kv: "kheap (vis S') = kheap (vis S)"
    using keys sets_upd(2) [OF S'(1) own(2)] by (simp add: fun_eq_iff)
  have spec: "specific (vis S') u = specific (vis S) u" for u using slot S'(1) by simp
  have "races_ok S'"
  proof (rule value_step [OF ok S' own])
    show "shape (vis S')"
      by (rule shape_cong [OF races_okD(3) [OF ok] kv vals]) (simp only: spec)
    show "kview (fls_mem S') = kview (fls_mem S)" using keys(1) by (simp add: kview_def fun_eq_iff)
    show "knx (fls_mem S') = knx (fls_mem S)" by (rule knx_heap [OF keys(1)])
    show "kheap (fls_mem S') k = kheap (fls_mem S) k" for k by (simp only: keys(1))
  qed (fact held keys(2) slot(2) theirs drain null pc)+
  then show ?thesis using seen_same [OF S'(3) vals spec] by (simp add: becomes_def)
qed

text \<open>A step that changes no block.\<close>

lemma idle_step:
  assumes ok: "races_ok S"
    and S': "fls_at S' = (fls_at S)(t := pc)" "fls_broken S' = fls_broken S" "fls_live S' = fls_live S"
    and own: "owned_key pc = owned_key (fls_at S t)" "dying_key pc = dying_key (fls_at S t)"
      "held_value pc = held_value (fls_at S t)"
    and same: "kheap (fls_mem S') = kheap (fls_mem S)" "fls_keys (fls_mem S') = fls_keys (fls_mem S)"
      "vheap (fls_mem S') = vheap (fls_mem S)"
    and slot: "slots pc (specific (fls_mem S') t) = slots (fls_at S t) (specific (fls_mem S) t)"
      "\<And>u. u \<noteq> t \<Longrightarrow> specific (fls_mem S') u = specific (fls_mem S) u"
    and pc: "usable S' = usable S \<Longrightarrow> drains S' = drains S \<Longrightarrow> pc_ok S' t pc"
  shows "becomes S' (fls_seen S)"
proof -
  note sets = sets_upd(1) [OF S'(1) own(1)] sets_upd(2) [OF S'(1) own(2)] sets_upd(3) [OF S'(1) own(3)]
  have "drains S' = drains S" by (simp add: drains_def vnx_heap [OF same(3)] sets same fun_eq_iff)
  moreover have "vheap (vis S') = vheap (vis S)"
    by (auto simp: fun_eq_iff sets same split: option.splits)
  ultimately show ?thesis
    using pc by (intro quiet_step [OF ok S' own(1,2)]) (use own same sets slot races_okD(10) [OF ok] in simp_all)
qed

section \<open>The calls begin\<close>

lemma seek_index:
  assumes "slist (knx s) (fls_keys s) ks"
  obtains c where "seek (knx s) (has_index s i) Root (fls_keys s) = Some (c, 0)"
  | as k bs where "ks = as @ k # bs" "has_index s i k" "k \<noteq> 0"
      "seek (knx s) (has_index s i) Root (fls_keys s) = Some (place Root as, k)"
proof (cases "\<exists>k\<in>set ks. has_index s i k")
  case True
  then obtain as k bs where ks: "ks = as @ k # bs" "has_index s i k" "\<forall>a\<in>set as. \<not> has_index s i a"
    using split_list_first_prop [OF True] by blast
  have "k \<noteq> 0" using slist_nonnull [OF assms] ks(1) by auto
  then show thesis
    using ks assms by (intro that(2) [of as k bs]) (simp_all add: seek_found)
next
  case False
  then show thesis using seek_missing [OF assms, of "has_index s i" Root] by (intro that(1)) blast
qed

lemma listed_usable:
  assumes "has_index (fls_mem S) i k" "k \<notin> owned S"
  shows "usable S k i"
  using assms gone_owned [of S] by (auto simp: usable_def has_index_def kview_def split: option.splits)

lemma find_ok:
  assumes ok: "races_ok S" and "fls_at S t = Out"
  shows "\<exists>pc s. find_locked i data (fls_mem S) = Some (pc, s) \<and> becomes (moved t pc s (fls_live S) S) (fls_seen S)"
proof -
  let ?s = "fls_mem S"
  obtain ks where ks: "slist (knx ?s) (fls_keys ?s) ks" "set ks = dom (kheap ?s) - owned S"
    using races_okD(2) [OF ok] by (auto simp: keys_listed_def)
  show ?thesis
  proof (cases rule: seek_index [OF ks(1), of i])
    case (1 c)
    then show ?thesis
      by (auto simp: find_locked_def fls_find_key_def assms(2) intro!: idle_step [OF ok, where t = t and pc = Out])
  next
    case (2 as k bs)
    then have "k \<notin> owned S" using ks(2) by auto
    then have "usable S k i" using 2(2) by (rule listed_usable [rotated])
    with 2 show ?thesis
      by (auto simp: find_locked_def fls_find_key_def assms(2)
          intro!: idle_step [OF ok, where t = t and pc = "Found k i data"])
  qed
qed

lemma exit_begin_ok:
  assumes ok: "races_ok S" and out: "fls_at S t = Out" and live: "fls_live S i"
    and v: "specific (fls_mem S) t i \<noteq> 0" and calm: "\<forall>u. freeing_index (fls_at S u) \<noteq> Some i"
  shows "becomes (moved t (Destroying i (specific (fls_mem S) t i)) (set_specific t i 0 (fls_mem S)) (fls_live S) S) (fls_seen S)"
proof -
  from live races_okD(6) [OF ok] obtain k c where k: "kview (vis S) k = Some (i, c)" by blast
  then obtain key where key: "kheap (fls_mem S) k = Some key" "kkey key = i" "k \<notin> gone S"
    by (auto simp: kview_Some split: if_splits)
  have "k \<notin> owned S"
  proof
    assume "k \<in> owned S"
    then obtain u where u: "owned_key (fls_at S u) = Some k" by (auto simp: owned_def)
    with key(3) have "dying_key (fls_at S u) \<noteq> Some k" by (auto simp: gone_def)
    with u races_okD(5) [OF ok, of u] spec [OF calm, of u] key(1,2) consider "fls_at S u = Linking k" "kvalues key = 0"
      by (cases "fls_at S u") (auto simp: kview_Some)
    then show False
    proof cases
      case 1
      have "shape (vis S)" by (rule races_okD(3) [OF ok])
      then obtain vs where vs: "value_lists (vis S) vs" by (auto simp: shape_def)
      have "kheap (vis S) k = Some key" using key by simp
      note vs = value_lists_at [OF vs this]
      with 1(2) have "vs k = []" by (cases "vs k") auto
      with vs(2) have "vview (vis S) v \<noteq> Some (k, d)" for v d by auto
      with tied_slot [OF races_okD(4) [OF ok] k, of t] out v show False by simp
    qed
  qed
  with k have "usable S k i" by (auto simp: usable_def)
  then show ?thesis
    by (intro idle_step [OF ok, where t = t]) (use assms in \<open>auto simp: set_specific_def\<close>)
qed

section \<open>Steps between critical sections\<close>

lemma found_ok:
  assumes ok: "races_ok S" and pc: "fls_at S t = Found k i data"
  shows "\<exists>pc s. got_specific t k i data (fls_mem S) = Some (pc, s) \<and> becomes (moved t pc s (fls_live S) S) (fls_seen S)"
proof -
  have us: "usable S k i" using races_okD(5) [OF ok, of t] pc by simp
  then obtain key where key: "kheap (fls_mem S) k = Some key" "kkey key = i" by (rule usable_key)
  have "becomes (moved t (Got k i data (specific (fls_mem S) t i)) (fls_mem S) (fls_live S) S) (fls_seen S)"
    by (rule idle_step [OF ok, where t = t]) (use us pc in auto)
  with key show ?thesis by (simp add: got_specific_def)
qed

lemma to_out:
  assumes "races_ok S" "owned_key (fls_at S t) = None" "held_value (fls_at S t) = None"
    and "slots (fls_at S t) (specific (fls_mem S) t) = specific s t" "\<And>u. u \<noteq> t \<Longrightarrow> specific s u = specific (fls_mem S) u"
    and "kheap s = kheap (fls_mem S)" "vheap s = vheap (fls_mem S)" "fls_keys s = fls_keys (fls_mem S)"
  shows "becomes (moved t Out s (fls_live S) S) (fls_seen S)"
proof (rule idle_step [OF assms(1), where t = t])
  show "dying_key Out = dying_key (fls_at S t)" using assms(2) by (cases "fls_at S t") auto
qed (use assms in auto)

lemma got_clear_ok:
  assumes ok: "races_ok S" and pc: "fls_at S t = Got k i data v"
  shows "\<exists>pc s. got_clear t rc k i v (fls_mem S) = Some (pc, s) \<and> becomes (moved t pc s (fls_live S) S) (fls_seen S)"
proof -
  have us: "usable S k i" "v = specific (fls_mem S) t i" using races_okD(5) [OF ok, of t] pc by simp_all
  from us(1) obtain key where key: "kheap (fls_mem S) k = Some key" "kkey key = i" by (rule usable_key)
  have "becomes (moved t (Unlinking i v 0) (set_specific t i 0 (fls_mem S)) (fls_live S) S) (fls_seen S)" if "v \<noteq> 0"
    by (rule idle_step [OF ok, where t = t]) (use us pc that in \<open>auto simp: set_specific_def\<close>)
  moreover have "becomes (moved t Out (fls_mem S) (fls_live S) S) (fls_seen S)"
    "becomes (moved t Out (fls_mem S\<lparr>fls_error := failure rc\<rparr>) (fls_live S) S) (fls_seen S)"
    using pc by (auto intro!: to_out [OF ok])
  ultimately show ?thesis using key by (auto simp: got_clear_def)
qed

lemma store_ok:
  assumes ok: "races_ok S" and pc: "fls_at S t = Storing k i v allocated"
  shows "\<exists>pc s. store_specific t rc k i v allocated (fls_mem S) = Some (pc, s) \<and>
    becomes (moved t pc s (fls_live S) S) (fls_seen S)"
proof -
  have us: "usable S k i" "v \<noteq> 0" "specific (fls_mem S) t i = (if allocated then 0 else v)"
    using races_okD(5) [OF ok, of t] pc by simp_all
  from us(1) obtain key where key: "kheap (fls_mem S) k = Some key" "kkey key = i" by (rule usable_key)
  have "becomes (moved t Out (set_specific t i v (fls_mem S)) (fls_live S) S) (fls_seen S)"
    by (rule to_out [OF ok]) (use pc us in \<open>auto simp: set_specific_def\<close>)
  moreover have "becomes (moved t (Unlinking i v rc) (fls_mem S) (fls_live S) S) (fls_seen S)" if allocated
    by (rule idle_step [OF ok, where t = t]) (use us pc that in auto)
  moreover have "becomes (moved t Out (fls_mem S\<lparr>fls_error := failure rc\<rparr>) (fls_live S) S) (fls_seen S)" if "\<not> allocated"
    by (rule to_out [OF ok]) (use pc that in auto)
  ultimately show ?thesis using key by (auto simp: store_specific_def)
qed

lemma call_ok:
  assumes ok: "races_ok S" and pc: "fls_at S t = Calling cb d"
  shows "becomes (moved t Out (run_callback cb d (fls_mem S)) (fls_live S) S) (fls_seen S)"
  by (rule to_out [OF ok]) (use pc in \<open>auto simp: run_callback_def\<close>)

lemma read_values_ok:
  assumes ok: "races_ok S" and pc: "fls_at S t = Deleted k"
  shows "\<exists>pc s. read_values k (fls_mem S) = Some (pc, s) \<and> becomes (moved t pc s (fls_live S) S) (fls_seen S)"
proof -
  from races_okD(5) [OF ok, of t] pc obtain key where
    key: "kheap (fls_mem S) k = Some key" "drains S k (kvalues key) []" by auto
  have "becomes (moved t (Draining k (kvalues key)) (fls_mem S) (fls_live S) S) (fls_seen S)"
    by (rule idle_step [OF ok, where t = t]) (use key pc in auto)
  with key show ?thesis by (simp add: read_values_def)
qed

lemma refused_ok:
  assumes ok: "races_ok S" and pc: "fls_at S t = Deleting i k"
  shows "kheap (fls_mem S) k \<noteq> None" "becomes (moved t (Relinking i k) (fls_mem S) (fls_live S) S) (fls_seen S)"
proof -
  from races_okD(5) [OF ok, of t] pc show "kheap (fls_mem S) k \<noteq> None" by (auto simp: kview_def)
  show "becomes (moved t (Relinking i k) (fls_mem S) (fls_live S) S) (fls_seen S)"
    by (rule idle_step [OF ok, where t = t]) (use races_okD(5) [OF ok, of t] pc in auto)
qed

lemma taken_upd: "fls_at S' = (fls_at S)(t := pc) \<Longrightarrow>
   v \<in> taken S' \<longleftrightarrow> held_value pc = Some v \<or> (\<exists>u. u \<noteq> t \<and> held_value (fls_at S u) = Some v)"
  by (auto simp: taken_def)

lemma taken_at: "v \<in> taken S \<longleftrightarrow> held_value (fls_at S t) = Some v \<or> (\<exists>u. u \<noteq> t \<and> held_value (fls_at S u) = Some v)"
  by (auto simp: taken_def)

lemma release_ok:
  assumes ok: "races_ok S" and pc: "fls_at S t = Freeing v cb d err"
  shows "\<exists>pc s. release_value v cb d err (fls_mem S) = Some (pc, s) \<and> becomes (moved t pc s (fls_live S) S) (fls_seen S)"
proof -
  have v: "vheap (fls_mem S) v \<noteq> None" using races_okD(5) [OF ok, of t] pc by simp
  have other: "held_value (fls_at S u) \<noteq> Some v" if "u \<noteq> t" for u
    using races_okD(8) [OF ok, of t v u] pc that by auto
  have step: "becomes (moved t (Calling cb d) s (fls_live S) S) (fls_seen S)"
    if s: "kheap s = kheap (fls_mem S)" "fls_keys s = fls_keys (fls_mem S)"
      "specific s = specific (fls_mem S)" "vheap s = (vheap (fls_mem S))(v := None)" for s
  proof -
    let ?S = "moved t (Calling cb d) s (fls_live S) S"
    have tk: "a \<in> taken ?S \<longleftrightarrow> a \<in> taken S \<and> a \<noteq> v" for a
      using other pc by (auto simp: taken_upd [of ?S S t] taken_at [of a S t])
    have gn: "gone ?S = gone S" by (rule sets_upd(2) [of ?S S t]) (simp, simp add: pc)
    have "v \<in> taken S" using at_sets(3) [of S t v] pc by simp
    show ?thesis
    proof (rule quiet_step [OF ok, where t = t])
      show "vheap (vis ?S) = vheap (vis S)"
        using \<open>v \<in> taken S\<close> by (auto simp: fun_eq_iff tk gn s split: option.splits)
      show "vheap (fls_mem ?S) a = Some x \<and> a \<notin> taken ?S \<longleftrightarrow> vheap (fls_mem S) a = Some x \<and> a \<notin> taken S" for a x
        using \<open>v \<in> taken S\<close> by (auto simp: tk s)
    qed (use pc other s races_okD(10) [OF ok] in auto)
  qed
  show ?thesis using v step by (auto simp: release_value_def)
qed

lemma got_block_ok:
  assumes ok: "races_ok S" and pc: "fls_at S t = Got k i data 0" and d: "data \<noteq> 0"
    and b: "b \<noteq> 0" "vheap (fls_mem S) b = None"
  shows "becomes (moved t (Inserting k i data b)
    ((fls_mem S)\<lparr>vheap := (vheap (fls_mem S))(b \<mapsto> \<lparr>owner = k, vnext = 0, vdata = data\<rparr>)\<rparr>) (fls_live S) S) (fls_seen S)"
    (is "becomes ?S _")
proof -
  have us: "usable S k i" "specific (fls_mem S) t i = 0" using races_okD(5) [OF ok, of t] pc by simp_all
  have "pc_ok S u (fls_at S u)" for u by (rule races_okD(5) [OF ok])
  then have fresh: "held_value (fls_at S u) \<noteq> Some b" for u
    using b(2) by (cases "fls_at S u") (metis held_value.simps pc_ok.simps option.distinct(1) option.inject)+
  then have tk: "a \<in> taken ?S \<longleftrightarrow> a \<in> taken S \<or> a = b" for a
    using pc by (auto simp: taken_upd [of ?S S t] taken_at [of a S t])
  have gn: "gone ?S = gone S" by (rule sets_upd(2) [of ?S S t]) (simp, simp add: pc)
  have "b \<notin> taken S" using fresh by (auto simp: taken_def)
  have "k \<notin> gone S" using us(1) by (rule usable_key)
  show ?thesis
  proof (rule quiet_step [OF ok, where t = t])
    show "vheap (vis ?S) = vheap (vis S)"
      using b by (auto simp: fun_eq_iff tk gn split: option.splits)
    show "vheap (fls_mem ?S) a = Some x \<and> a \<notin> taken ?S \<longleftrightarrow> vheap (fls_mem S) a = Some x \<and> a \<notin> taken S" for a x
      using b by (auto simp: tk)
  qed (use pc us fresh \<open>b \<notin> taken S\<close> b d races_okD(10) [OF ok] in auto)
qed

lemma drain_ok:
  assumes ok: "races_ok S" and pc: "fls_at S t = Draining k p"
  shows "\<exists>pc s. drain_value k p (fls_mem S) = Some (pc, s) \<and> becomes (moved t pc s (fls_live S) S) (fls_seen S)"
proof -
  have k: "kheap (fls_mem S) k \<noteq> None" "drains S k p []" using races_okD(5) [OF ok, of t] pc by simp_all
  show ?thesis
  proof (cases "p = 0")
    case True
    have "becomes (moved t (Dropping k) (fls_mem S) (fls_live S) S) (fls_seen S)"
      by (rule idle_step [OF ok, where t = t]) (use k pc True in auto)
    with True show ?thesis by (simp add: drain_value_def)
  next
    case False
    from k(2) obtain vl where vl: "slist (vnx (fls_mem S)) p vl" "distinct vl"
      "set vl = {v. \<exists>x. vheap (fls_mem S) v = Some x \<and> owner x = k \<and> v \<notin> taken S}"
      by (auto simp: drains_def)
    with False obtain ws q where ws: "vl = p # ws" "vnx (fls_mem S) p = Some q" "slist (vnx (fls_mem S)) q ws"
      by (cases vl) auto
    then obtain x where x: "vheap (fls_mem S) p = Some x" "vnext x = q" by (auto simp: vnx_def)
    have "drains S k q [p]" unfolding drains_def using vl ws by (intro exI [of _ ws]) auto
    then have "becomes (moved t (Reaping k p q) (run_callback cb d (fls_mem S)) (fls_live S) S) (fls_seen S)" for cb d
      by (intro idle_step [OF ok, where t = t]) (use k pc in \<open>auto simp: run_callback_def\<close>)
    with False k x show ?thesis by (auto simp: drain_value_def)
  qed
qed

lemma reap_ok:
  assumes ok: "races_ok S" and pc: "fls_at S t = Reaping k p q"
  shows "\<exists>pc s. reap_value k p q (fls_mem S) = Some (pc, s) \<and> becomes (moved t pc s (fls_live S) S) (fls_seen S)"
proof -
  let ?S = "moved t (Draining k q) (free_value p (fls_mem S)) (fls_live S) S"
  have k: "kheap (fls_mem S) k \<noteq> None" "drains S k q [p]" using races_okD(5) [OF ok, of t] pc by simp_all
  from k(2) obtain vl where vl: "slist (vnx (fls_mem S)) q vl" "p \<notin> set vl" "distinct vl"
      "insert p (set vl) = {v. \<exists>x. vheap (fls_mem S) v = Some x \<and> owner x = k \<and> v \<notin> taken S}"
    by (auto simp: drains_def)
  then obtain x where x: "vheap (fls_mem S) p = Some x" "owner x = k" "p \<notin> taken S" by blast
  have gn: "gone ?S = gone S" by (rule sets_upd(2) [of ?S S t]) (simp, simp add: pc)
  have tk: "taken ?S = taken S" by (rule sets_upd(3) [of ?S S t]) (simp, simp add: pc)
  have "k \<in> gone S" using at_sets(2) [of S t k] pc by simp
  have "slist (vnx (fls_mem ?S)) q vl"
    by (rule slist_cong [OF vl(1)]) (use vl(2) in \<open>auto simp: vnx_def\<close>)
  moreover have "set vl = insert p (set vl) - {p}" using vl(2) by auto
  then have "set vl = {v. \<exists>x. vheap (fls_mem ?S) v = Some x \<and> owner x = k \<and> v \<notin> taken ?S}"
    unfolding vl(4) by (auto simp: tk)
  ultimately have dr: "drains ?S k q []" unfolding drains_def using vl(3) by (intro exI [of _ vl]) auto
  have "becomes ?S (fls_seen S)"
  proof (rule quiet_step [OF ok, where t = t])
    show "vheap (vis ?S) = vheap (vis S)"
      using x \<open>k \<in> gone S\<close> by (auto simp: fun_eq_iff tk gn split: option.splits)
    show "vheap (fls_mem ?S) a = Some y \<and> a \<notin> taken ?S \<longleftrightarrow> vheap (fls_mem S) a = Some y \<and> a \<notin> taken S"
      if "u \<noteq> t" "dying_key (fls_at S u) = Some (owner y)" for u a y
    proof -
      have "owned_key (fls_at S u) = Some (owner y)" using that(2) by (cases "fls_at S u") auto
      then have "owner y \<noteq> k" using races_okD(7) [OF ok, of u k t] pc that(1) by auto
      with x show ?thesis by (auto simp: tk)
    qed
    show "vheap (fls_mem ?S) v = vheap (fls_mem S) v" if "held_value (fls_at S u) = Some v" for u v
      using that x(3) by (auto simp: taken_def)
  qed (use pc k dr races_okD(10) [OF ok] in auto)
  with x show ?thesis by (simp add: reap_value_def)
qed

section \<open>Steps on the values\<close>

lemma value_lists_fields [simp]:
  "value_lists (s\<lparr>specific := f\<rparr>) vs = value_lists s vs" "value_lists (set_specific t i v s) vs = value_lists s vs"
  by (simp_all add: value_lists_def set_specific_def)

lemma set_specific_slot: "specific (set_specific t i v s) = (specific s)(t := (specific s t)(i := v))"
  by (simp add: set_specific_def)

text \<open>The value in the slot of a thread, seen from the shared part.\<close>

lemma slot_value:
  assumes ok: "races_ok S" and us: "usable S k i" and v: "specific (vis S) t i = v" "v \<noteq> 0"
  obtains x key c where "vheap (fls_mem S) v = Some x" "owner x = k" "v \<notin> taken S" "vview (vis S) v = Some (k, vdata x)"
    "kheap (fls_mem S) k = Some key" "kkey key = i" "k \<notin> owned S" "k \<notin> gone S" "kview (vis S) k = Some (i, c)"
proof -
  from us obtain key where key: "kheap (fls_mem S) k = Some key" "kkey key = i" "k \<notin> owned S" "k \<notin> gone S"
    "kview (vis S) k = Some (i, callback key)" by (rule usable_key)
  obtain d where d: "vview (vis S) v = Some (k, d)"
    using tied_slot [OF races_okD(4) [OF ok] key(5), of t] v by auto
  then obtain x where x: "vheap (vis S) v = Some x" "owner x = k" "vdata x = d" by (auto simp: vview_Some)
  then have "vheap (fls_mem S) v = Some x" "v \<notin> taken S" by (auto split: option.splits if_splits)
  with x d key that show thesis by blast
qed

text \<open>What the threads see when the slot of one thread and index changes.\<close>

lemma slot_unique:
  assumes ok: "races_ok S" and k: "kview (vis S) k = Some (i, c)" and v: "specific (vis S) t i = v" "v \<noteq> 0"
    and u: "fls_live S j" "specific (vis S) u j = v"
  shows "u = t \<and> j = i"
proof -
  note tied = races_okD(4) [OF ok]
  from u(1) races_okD(6) [OF ok] obtain k' c' where k': "kview (vis S) k' = Some (j, c')" by blast
  from tied_slot [OF tied k, of t] v obtain d where d: "vview (vis S) v = Some (k, d)" by (simp only: v(1)) auto
  from tied_slot [OF tied k', of u] u(2) v(2) d have "k' = k" by (simp only: u(2)) auto
  with k k' have "j = i" by simp
  moreover obtain i' c0 w where "kview (vis S) k = Some (i', c0)" "\<And>u. specific (vis S) u i' = v \<Longrightarrow> u = w"
    by (rule tied_holder [OF tied d]) blast
  moreover from calculation(2) k have "i' = i" by simp
  ultimately show ?thesis using u(2) v(1) by metis
qed

lemma key_live: "races_ok S \<Longrightarrow> kview (vis S) k = Some (i, c) \<Longrightarrow> fls_live S i"
  using races_okD(6) by blast

lemma seen_replace:
  assumes ok: "races_ok S" and k: "kview (vis S) k = Some (i, c)" and v: "specific (vis S) t i = v" "v \<noteq> 0"
    and S': "fls_live S' = fls_live S" "specific (vis S') = specific (vis S)"
      "vview (vis S') = (vview (vis S))(v \<mapsto> (k, d))"
  shows "fls_seen S' = data_set t i (Some d) (fls_seen S)"
proof (intro ext)
  fix u j
  show "fls_seen S' u j = data_set t i (Some d) (fls_seen S) u j"
  proof (cases "u = t \<and> j = i")
    case True
    with v(1) key_live [OF ok k] show ?thesis unfolding fls_seen_def data_set_def S' by (simp del: vis_fields)
  next
    case False
    then have "fls_live S j \<Longrightarrow> specific (vis S) u j \<noteq> v" using slot_unique [OF ok k v] by blast
    with False show ?thesis unfolding fls_seen_def data_set_def S' by (auto simp del: vis_fields)
  qed
qed

lemma seen_insert:
  assumes ok: "races_ok S" and k: "kview (vis S) k = Some (i, c)" and b: "vview (vis S) b = None" "b \<noteq> 0"
    and S': "fls_live S' = fls_live S" "specific (vis S') = (specific (vis S))(t := (specific (vis S) t)(i := b))"
      "vview (vis S') = (vview (vis S))(b \<mapsto> (k, d))"
  shows "fls_seen S' = data_set t i (Some d) (fls_seen S)"
proof (intro ext)
  fix u j
  have "specific (vis S) u j \<noteq> b" if "fls_live S j"
  proof -
    from that races_okD(6) [OF ok] obtain k' c' where "kview (vis S) k' = Some (j, c')" by blast
    from tied_slot [OF races_okD(4) [OF ok] this, of u] b show ?thesis by (auto simp del: vis_fields)
  qed
  then show "fls_seen S' u j = data_set t i (Some d) (fls_seen S) u j"
    unfolding fls_seen_def data_set_def S' using key_live [OF ok k] by (auto simp del: vis_fields)
qed

lemma seen_clear:
  assumes ok: "races_ok S" and k: "kview (vis S) k = Some (i, c)" and v: "specific (vis S) t i = v" "v \<noteq> 0"
    and S': "fls_live S' = fls_live S" "specific (vis S') = (specific (vis S))(t := (specific (vis S) t)(i := 0))"
      "vview (vis S') = (vview (vis S))(v := None)"
  shows "fls_seen S' = data_set t i None (fls_seen S)"
proof (intro ext)
  fix u j
  have null: "vview (vis S) 0 = None" using races_okD(10) [OF ok] by (simp add: vview_def)
  show "fls_seen S' u j = data_set t i None (fls_seen S) u j"
  proof (cases "u = t \<and> j = i")
    case True
    with null show ?thesis unfolding fls_seen_def data_set_def S' by (simp del: vis_fields)
  next
    case False
    then have "fls_live S j \<Longrightarrow> specific (vis S) u j \<noteq> v" using slot_unique [OF ok k v] by blast
    with False show ?thesis unfolding fls_seen_def data_set_def S' by (auto simp del: vis_fields)
  qed
qed

lemma got_replace_ok:
  assumes ok: "races_ok S" and pc: "fls_at S t = Got k i data v" and d: "data \<noteq> 0" and v: "v \<noteq> 0"
  shows "\<exists>pc s. got_value block k i data v (fls_mem S) = Some (pc, s) \<and> becomes (moved t pc s (fls_live S) S) (data_set t i (Some data) (fls_seen S))"
proof -
  have us: "usable S k i" "specific (fls_mem S) t i = v" using races_okD(5) [OF ok, of t] pc by simp_all
  have slot: "specific (vis S) t i = v" using pc us(2) by simp
  then obtain x key c where x: "vheap (fls_mem S) v = Some x" "owner x = k" "v \<notin> taken S"
      "vview (vis S) v = Some (k, vdata x)" and k: "k \<notin> gone S" and kc: "kview (vis S) k = Some (i, c)"
    using v by (rule slot_value [OF ok us(1)])
  let ?s = "fls_mem S\<lparr>vheap := (vheap (fls_mem S))(v \<mapsto> x\<lparr>vdata := data\<rparr>)\<rparr>"
  let ?S = "moved t (Storing k i v False) ?s (fls_live S) S"
  have gn: "gone ?S = gone S" by (rule sets_upd(2) [of ?S S t]) (simp, simp add: pc)
  have tk: "taken ?S = taken S" by (rule sets_upd(3) [of ?S S t]) (simp, simp add: pc)
  have kh: "kheap (vis ?S) = kheap (vis S)" by (simp add: fun_eq_iff gn)
  have vh: "vheap (vis ?S) = (vheap (vis S))(v \<mapsto> x\<lparr>vdata := data\<rparr>)"
    using x k by (auto simp: fun_eq_iff gn tk split: option.splits)
  have vv: "vview (vis ?S) = (vview (vis S))(v \<mapsto> (k, data))"
    unfolding vview_def vh using x by (auto simp: fun_eq_iff)
  have nx: "vnx (vis ?S) = vnx (vis S)"
    unfolding vnx_def vh using x k by (auto simp: fun_eq_iff)
  have kv: "kview (vis ?S) = kview (vis S)" by (simp add: kview_def kh fun_eq_iff gn)
  from races_okD(3) [OF ok] obtain vs where vs: "value_lists (vis S) vs" by (auto simp: shape_def)
  have "value_lists (vis ?S) vs"
    using vs x(4) unfolding value_lists_def kh nx vv by auto
  moreover have spec: "specific (vis ?S) = specific (vis S)" using pc by (auto simp: fun_eq_iff)
  moreover have "tied (vis ?S)"
  proof (rule tied_replace [OF races_okD(4) [OF ok] x(4) d vv kv])
    show "specific (vis ?S) = specific (vis S)" by (rule spec)
  qed
  ultimately have shape: "shape (vis ?S)" by (auto simp: shape_def)
  have "races_ok ?S"
  proof (rule value_step [OF ok, where t = t and pc = "Storing k i v False"])
    show "vheap (fls_mem ?S) a = vheap (fls_mem S) a" if "held_value (fls_at S u) = Some a" for u a
      using that x(3) at_sets(3) by auto
    show "vheap (fls_mem ?S) a = Some y \<and> a \<notin> taken ?S \<longleftrightarrow> vheap (fls_mem S) a = Some y \<and> a \<notin> taken S"
      if "dying_key (fls_at S u) = Some (owner y)" for u a y
      using that x k at_sets(2) by (auto simp: tk)
    show "kview (fls_mem ?S) = kview (fls_mem S)" "knx (fls_mem ?S) = knx (fls_mem S)"
      by (simp_all add: kview_def knx_def fun_eq_iff)
  qed (use pc us v shape races_okD(10) [OF ok] in simp_all)
  moreover have "fls_seen ?S = data_set t i (Some data) (fls_seen S)"
    by (rule seen_replace [OF ok kc slot v _ spec vv]) simp
  ultimately show ?thesis using x v by (simp add: got_value_def becomes_def)
qed

text \<open>What an insertion and a removal do to the shape.\<close>

lemma insert_shape:
  assumes sh: "shape s" and key: "kheap s k = Some key" "kview s k = Some (i, c)"
    and b: "b \<noteq> 0" "vheap s b = None" "d \<noteq> 0" and slot: "specific s t i = 0" and null: "vview s 0 = None"
    and s': "s' = set_specific t i b
      (set_values k b (s\<lparr>vheap := (vheap s)(b \<mapsto> \<lparr>owner = k, vnext = kvalues key, vdata = d\<rparr>)\<rparr>))"
  shows "shape s'" "vview s' = (vview s)(b \<mapsto> (k, d))"
    "specific s' = (specific s)(t := (specific s t)(i := b))"
proof -
  note link = link_value [where d = d, OF key(1) b(1,2) refl]
  from sh obtain vs where "value_lists s vs" and tied: "tied s" by (auto simp: shape_def)
  then have "value_lists s' (vs(k := b # vs k))" unfolding s' using link(1) by simp
  moreover show view: "vview s' = (vview s)(b \<mapsto> (k, d))"
    and spec: "specific s' = (specific s)(t := (specific s t)(i := b))"
    unfolding s' using link by (simp_all add: set_specific_def)
  have "tied s'"
    by (rule tied_new [OF tied key(2) _ b(1,3) slot view _ spec null])
      (use b(2) link in \<open>simp_all add: s' set_specific_def vview_def\<close>)
  ultimately show "shape s'" by (auto simp: shape_def)
qed

lemma cut_shape:
  assumes vs: "value_lists s vs" and tied: "tied s" and x: "vheap s v = Some x" "owner x = k"
    and key: "kheap s k = Some key" "kview s k = Some (i, c)" and sp: "vs k = as @ v # bs"
    and v: "specific s t i = v" "v \<noteq> 0" and null: "vview s 0 = None"
    and s': "s' = set_specific t i 0 (free_value v (cut_value as k (vnext x) s))"
  shows "shape s'" "vview s' = (vview s)(v := None)" "specific s' = (specific s)(t := (specific s t)(i := 0))"
proof -
  have c: "same_view s (cut_value as k (vnext x) s)" by (rule cut_same)
  show view: "vview s' = (vview s)(v := None)" and spec: "specific s' = (specific s)(t := (specific s t)(i := 0))"
    using c by (simp_all add: s' set_specific_def free_value_view same_view_def)
  have "kview s' = kview s" using c by (simp add: s' set_specific_def free_value_view same_view_def)
  then have "tied s'" by (rule tied_clear [OF tied key(2) v view _ spec null])
  moreover have "value_lists s' (vs(k := as @ bs))"
    using cut_lists [OF vs x(1), of key as bs] key(1) x(2) sp by (simp add: s')
  ultimately show "shape s'" by (auto simp: shape_def)
qed

text \<open>The list of a key nobody is dismantling is a list in the memory, of values nobody holds.\<close>

lemma shared_list:
  assumes vs: "value_lists (vis S) vs" and key: "kheap (fls_mem S) k = Some key" and k: "k \<notin> gone S"
  shows "slist (vnx (fls_mem S)) (kvalues key) (vs k)"
    "set (vs k) = {v. \<exists>x. vheap (fls_mem S) v = Some x \<and> owner x = k \<and> v \<notin> taken S}"
proof -
  have kV: "kheap (vis S) k = Some key" using key k by simp
  note list = value_lists_at [OF vs kV]
  show eq: "set (vs k) = {v. \<exists>x. vheap (fls_mem S) v = Some x \<and> owner x = k \<and> v \<notin> taken S}"
    unfolding list(2) using k by (auto simp: vview_Some split: option.splits if_splits)
  show "slist (vnx (fls_mem S)) (kvalues key) (vs k)"
  proof (rule slist_cong [OF list(1)])
    fix a assume "a \<in> set (vs k)"
    then obtain x where "vheap (fls_mem S) a = Some x \<and> owner x = k \<and> a \<notin> taken S" using eq by auto
    with k show "vnx (fls_mem S) a = vnx (vis S) a" by (simp add: vnx_def)
  qed
qed

lemma insert_ok:
  assumes ok: "races_ok S" and pc: "fls_at S t = Inserting k i data b"
  shows "\<exists>pc s. insert_value k i b (fls_mem S) = Some (pc, s) \<and> becomes (moved t pc s (fls_live S) S) (data_set t i (Some data) (fls_seen S))"
proof -
  from races_okD(5) [OF ok, of t] pc obtain x where us: "usable S k i" "specific (fls_mem S) t i = 0" "b \<noteq> 0"
    "vheap (fls_mem S) b = Some x" "owner x = k" "vdata x \<noteq> 0" "vdata x = data" by auto
  from us(1) obtain key where key: "kheap (fls_mem S) k = Some key" "kkey key = i" "k \<notin> owned S" "k \<notin> gone S"
    "kview (vis S) k = Some (i, callback key)" by (rule usable_key)
  define S1 where "S1 = moved t (Storing k i b True) (set_values k b (set_vnext b (kvalues key) (fls_mem S))) (fls_live S) S"
  have at: "fls_at S1 = (fls_at S)(t := Storing k i b True)" "fls_broken S1 = fls_broken S" "fls_live S1 = fls_live S"
    "specific (fls_mem S1) = specific (fls_mem S)" "fls_keys (fls_mem S1) = fls_keys (fls_mem S)"
    by (simp_all add: S1_def set_values_def set_vnext_def)
  have heaps: "kheap (fls_mem S1) = (kheap (fls_mem S))(k \<mapsto> key\<lparr>kvalues := b\<rparr>)"
    "vheap (fls_mem S1) = (vheap (fls_mem S))(b \<mapsto> x\<lparr>vnext := kvalues key\<rparr>)"
    using key(1) us(4) by (simp_all add: S1_def set_values_def set_vnext_def)
  let ?V = "set_specific t i b (set_values k b ((vis S)\<lparr>vheap := (vheap (vis S))(b \<mapsto> \<lparr>owner = k, vnext = kvalues key, vdata = data\<rparr>)\<rparr>))"
  have b: "b \<in> taken S" using at_sets(3) [of S t b] pc by simp
  have other: "held_value (fls_at S u) \<noteq> Some b" if "u \<noteq> t" for u
    using races_okD(8) [OF ok, of t b u] pc that by auto
  have gn: "gone S1 = gone S" by (rule sets_upd(2) [OF at(1)]) (simp add: pc)
  have tk: "a \<in> taken S1 \<longleftrightarrow> a \<in> taken S \<and> a \<noteq> b" for a
    using other pc by (auto simp: taken_upd [OF at(1)] taken_at [of a S t])
  have kV: "kheap (vis S) k = Some key" "vheap (vis S) b = None"
    using key us(4) b by simp_all
  have V: "shape ?V" "vview ?V = (vview (vis S))(b \<mapsto> (k, data))"
    "specific ?V = (specific (vis S))(t := (specific (vis S) t)(i := b))"
    by (rule insert_shape [OF races_okD(3) [OF ok] kV(1) key(5) us(3) kV(2) _ _ _ refl];
      use us pc races_okD(10) [OF ok] in \<open>simp add: vview_def\<close>)+
  have kh: "kheap (vis S1) = kheap ?V"
    using key by (auto simp: fun_eq_iff gn heaps set_values_def set_specific_def)
  have "vheap (vis S1) a = vheap ?V a" for a
    using us(4,5,7) key(4) b
    by (cases x) (auto simp: gn tk heaps set_values_def set_specific_def split: option.splits)
  then have vh: "vheap (vis S1) = vheap ?V" by blast
  have spec: "specific (vis S1) u = specific ?V u" for u
    using pc by (simp add: at set_values_def set_specific_def)
  have shape: "shape (vis S1)" by (rule shape_cong [OF V(1) kh vh]) (simp only: spec)
  have vv: "vview (vis S1) = (vview (vis S))(b \<mapsto> (k, data))" using heap_vview [OF vh] V(2) by simp
  have "specific (vis S1) = specific ?V" using spec by (rule ext)
  then have sp: "specific (vis S1) = (specific (vis S))(t := (specific (vis S) t)(i := b))"
    by (simp only: V(3))
  have "races_ok S1"
  proof (rule value_step [OF ok, where t = t and pc = "Storing k i b True"])
    show "vheap (fls_mem S1) a = vheap (fls_mem S) a" if "u \<noteq> t" "held_value (fls_at S u) = Some a" for u a
      using other that by (auto simp: heaps)
    show "vheap (fls_mem S1) a = Some y \<and> a \<notin> taken S1 \<longleftrightarrow> vheap (fls_mem S) a = Some y \<and> a \<notin> taken S"
      if "dying_key (fls_at S u) = Some (owner y)" for u a y
      using that us(4,5) key(4) b at_sets(2) by (auto simp: tk heaps)
    show "kview (fls_mem S1) = kview (fls_mem S)" "knx (fls_mem S1) = knx (fls_mem S)"
      using key(1) by (auto simp: kview_def knx_def fun_eq_iff heaps)
    show "kheap (fls_mem S1) k' = kheap (fls_mem S) k'" if "k' \<in> owned S" for k'
      using that key by (auto simp: heaps)
  qed (use pc us shape races_okD(10) [OF ok] in \<open>simp_all add: at heaps\<close>)
  moreover have "fls_seen S1 = data_set t i (Some data) (fls_seen S)"
    by (rule seen_insert [OF ok key(5) _ us(3) at(3) sp vv]) (use kV(2) in \<open>simp add: vview_def\<close>)
  ultimately show ?thesis using key us(4) by (auto simp: insert_value_def S1_def becomes_def)
qed

text \<open>A value is taken out of its list, by \<open>FlsSetValue\<close> or at the end of a thread.\<close>

lemma unlink_ok:
  assumes ok: "races_ok S" and pc: "fls_at S t = Unlinking i v err \<or> fls_at S t = Destroying i v"
  obtains s x key where "fls_unlink_value v (fls_mem S) = Some s" "vheap s v = Some x" "kheap s (owner x) = Some key"
    "\<And>cb d rc. becomes (moved t (Freeing v cb d rc) s (fls_live S) S) (data_set t i None (fls_seen S))"
proof -
  obtain k where us: "usable S k i" "v \<noteq> 0" "specific (fls_mem S) t i = 0"
    using races_okD(5) [OF ok, of t] pc by auto
  have slot: "specific (vis S) t = (specific (fls_mem S) t)(i := v)" using pc by auto
  have none: "owned_key (fls_at S t) = None" "dying_key (fls_at S t) = None" "held_value (fls_at S t) = None"
    using pc by auto
  have "specific (vis S) t i = v" by (simp only: slot fun_upd_same)
  then obtain x key c where x: "vheap (fls_mem S) v = Some x" "owner x = k" "v \<notin> taken S"
      "vview (vis S) v = Some (k, vdata x)"
    and key: "kheap (fls_mem S) k = Some key" "kkey key = i" "k \<notin> owned S" "k \<notin> gone S" "kview (vis S) k = Some (i, c)"
    using us(2) by (rule slot_value [OF ok us(1)])
  have V: "vheap (vis S) v = Some x" "kheap (vis S) k = Some key" using x key by simp_all
  from races_okD(3) [OF ok] obtain vs where vs: "value_lists (vis S) vs" by (auto simp: shape_def)
  note list = shared_list [OF vs key(1,4)]
  have "v \<in> set (vs k)" using list(2) x by auto
  then obtain as bs where sp: "vs k = as @ v # bs" by (meson split_list)
  have "slist (vnx (fls_mem S)) (kvalues key) (as @ v # bs)" using list(1) sp by simp
  from unlink_run [OF x(1) _ this] x(2) key(1)
  have run: "fls_unlink_value v (fls_mem S) = Some (cut_value as k (vnext x) (fls_mem S))" by simp
  define s1 where "s1 = cut_value as k (vnext x) (fls_mem S)"
  have vh: "vheap s1 = (if as = [] then vheap (fls_mem S)
      else (vheap (fls_mem S))(last as := map_option (vnext_update (\<lambda>_. vnext x)) (vheap (fls_mem S) (last as))))"
    and kh: "kheap s1 = (if as = [] then (kheap (fls_mem S))(k \<mapsto> key\<lparr>kvalues := vnext x\<rparr>) else kheap (fls_mem S))"
    and sp1: "specific s1 = specific (fls_mem S)"
    using key(1) by (simp_all add: s1_def cut_value_def set_values_def set_vnext_def)
  have same: "same_view (fls_mem S) s1" unfolding s1_def by (rule cut_same)
  have "v \<notin> set as" using slist_distinct [OF list(1)] sp by auto
  then have vx: "vheap s1 v = Some x" using x(1) vh by auto
  have kx: "\<exists>key. kheap s1 (owner x) = Some key" using key(1) x(2) kh by auto
  have "becomes (moved t (Freeing v cb d rc) s1 (fls_live S) S) (data_set t i None (fls_seen S))" for cb d rc
  proof -
    define S1 where "S1 = moved t (Freeing v cb d rc) s1 (fls_live S) S"
    have at: "fls_at S1 = (fls_at S)(t := Freeing v cb d rc)" "fls_broken S1 = fls_broken S"
      "fls_live S1 = fls_live S" "fls_mem S1 = s1"
      by (simp_all add: S1_def)
    have gn: "gone S1 = gone S" by (rule sets_upd(2) [OF at(1)]) (simp add: none)
    have tk: "a \<in> taken S1 \<longleftrightarrow> a \<in> taken S \<or> a = v" for a
      using none by (auto simp: taken_upd [OF at(1)] taken_at [of a S t])
    let ?V = "set_specific t i 0 (free_value v (cut_value as k (vnext x) (vis S)))"
    have last: "\<exists>y. vheap (fls_mem S) (last as) = Some y \<and> owner y = k \<and> last as \<notin> taken S" if "as \<noteq> []"
      using list(2) sp last_in_set [OF that] by auto
    have "specific (vis S) t i = v" by (simp only: slot fun_upd_same)
    moreover have "vview (vis S) 0 = None" using races_okD(10) [OF ok] by (simp add: vview_def)
    ultimately have sV: "shape ?V" "vview ?V = (vview (vis S))(v := None)"
      "specific ?V = (specific (vis S))(t := (specific (vis S) t)(i := 0))"
      using cut_shape [OF vs races_okD(4) [OF ok] V(1) x(2) V(2) key(5) sp _ us(2) _ refl] by blast+
    have kv: "kheap (vis S1) = kheap ?V"
      using key V by (auto simp: fun_eq_iff gn at(4) kh set_specific_def cut_value_def set_values_def set_vnext_def)
    have "vheap (vis S1) a = vheap ?V a" for a
      using last key(4) \<open>v \<notin> set as\<close>
      by (auto simp: gn tk at(4) vh set_specific_def cut_value_def set_values_def set_vnext_def split: option.splits)
    then have vv: "vheap (vis S1) = vheap ?V" by blast
    have spec: "specific (vis S1) u = specific ?V u" for u
      using us(3) slot by (auto simp: fun_eq_iff at sp1 set_specific_def cut_value_def set_values_def set_vnext_def)
    have shape: "shape (vis S1)" by (rule shape_cong [OF sV(1) kv vv]) (simp only: spec)
    have "vview (vis S1) = vview ?V" by (rule heap_vview [OF vv])
    moreover have "specific (vis S1) = specific ?V" using spec by (rule ext)
    ultimately have seen: "fls_seen S1 = data_set t i None (fls_seen S)"
      using at(3) sV by (intro seen_clear [OF ok key(5) _ us(2)]) (simp_all only: slot fun_upd_same)
    have "races_ok S1"
    proof (rule value_step [OF ok at(1-3)])
      show "vheap (fls_mem S1) a = vheap (fls_mem S) a" if "held_value (fls_at S u) = Some a" for u a
        using at_sets(3) [OF that] last by (auto simp: at(4) vh)
      show "vheap (fls_mem S1) a = Some y \<and> a \<notin> taken S1 \<longleftrightarrow> vheap (fls_mem S) a = Some y \<and> a \<notin> taken S"
        if "dying_key (fls_at S u) = Some (owner y)" for u a y
        using at_sets(2) [OF that] key(4) x last by (auto simp: tk at(4) vh split: if_splits)
      show "kview (fls_mem S1) = kview (fls_mem S)" "knx (fls_mem S1) = knx (fls_mem S)"
        "fls_keys (fls_mem S1) = fls_keys (fls_mem S)"
        using same by (simp_all add: at(4) same_view_def)
      show "kheap (fls_mem S1) k' = kheap (fls_mem S) k'" if "k' \<in> owned S" for k'
        using that key(3) by (auto simp: at(4) kh)
    qed (use none x us shape vx races_okD(10) [OF ok] in \<open>simp_all add: at(4) vh sp1\<close>)
    then show ?thesis using seen by (simp add: S1_def becomes_def)
  qed
  with run vx kx that show thesis unfolding s1_def by blast
qed

section \<open>Steps on the keys\<close>

lemma owned_alive:
  assumes ok: "races_ok S" and "owned_key (fls_at S u) = Some k"
  shows "kheap (fls_mem S) k \<noteq> None"
  using races_okD(5) [OF ok, of u] assms(2) by (cases "fls_at S u") (auto simp: kview_def)

lemma using_live:
  assumes ok: "races_ok S" and "using_index (fls_at S u) = Some i"
  shows "fls_live S i"
  using races_okD(5) [OF ok, of u] assms(2) races_okD(6) [OF ok, of i]
  by (cases "fls_at S u") (auto simp: usable_def)

lemma owned_upd: "fls_at S' = (fls_at S)(t := pc) \<Longrightarrow>
   k \<in> owned S' \<longleftrightarrow> owned_key pc = Some k \<or> (\<exists>u. u \<noteq> t \<and> owned_key (fls_at S u) = Some k)"
  by (auto simp: owned_def)

lemma owned_at: "k \<in> owned S \<longleftrightarrow> owned_key (fls_at S t) = Some k \<or> (\<exists>u. u \<noteq> t \<and> owned_key (fls_at S u) = Some k)"
  by (auto simp: owned_def)

lemma gone_upd: "fls_at S' = (fls_at S)(t := pc) \<Longrightarrow>
   k \<in> gone S' \<longleftrightarrow> dying_key pc = Some k \<or> (\<exists>u. u \<noteq> t \<and> dying_key (fls_at S u) = Some k)"
  by (auto simp: gone_def)

lemma gone_at: "k \<in> gone S \<longleftrightarrow> dying_key (fls_at S t) = Some k \<or> (\<exists>u. u \<noteq> t \<and> dying_key (fls_at S u) = Some k)"
  by (auto simp: gone_def)

text \<open>A step that relinks the keys: the values, the indexes and the callbacks stay.\<close>

lemma relink_step:
  assumes ok: "races_ok S"
    and S': "fls_at S' = (fls_at S)(t := pc)" "fls_broken S' = fls_broken S" "fls_live S' = fls_live S"
    and pcs: "dying_key pc = dying_key (fls_at S t)" "held_value pc = held_value (fls_at S t)"
      "slots pc = slots (fls_at S t)"
    and own: "\<And>k. owned_key pc = Some k \<Longrightarrow> owned_key (fls_at S t) = Some k \<or> k \<notin> owned S"
    and same: "vheap (fls_mem S') = vheap (fls_mem S)" "specific (fls_mem S') = specific (fls_mem S)"
      "kview (fls_mem S') = kview (fls_mem S)" "kvals (fls_mem S') = kvals (fls_mem S)"
    and keys: "keys_listed S'"
    and users: "\<And>u i k. u \<noteq> t \<Longrightarrow> using_index (fls_at S u) = Some i \<Longrightarrow> usable S k i \<Longrightarrow> k \<notin> owned S'"
    and owners: "\<And>u k. u \<noteq> t \<Longrightarrow> owned_key (fls_at S u) = Some k \<Longrightarrow> kheap (fls_mem S') k = kheap (fls_mem S) k"
    and pc: "pc_ok S' t pc"
  shows "becomes S' (fls_seen S)"
proof -
  note sets = sets_upd(2) [OF S'(1) pcs(1)] sets_upd(3) [OF S'(1) pcs(2)]
  have kv: "kview (vis S') = kview (vis S)" using same(3) sets by (simp add: kview_def fun_eq_iff)
  have vals: "kvals (vis S') = kvals (vis S)" using same(4) sets by (simp add: kvals_def fun_eq_iff)
  have vh: "vheap (vis S') = vheap (vis S)"
    by (auto simp: fun_eq_iff sets same split: option.splits)
  have spec: "specific (vis S') u = specific (vis S) u" for u by (simp add: S'(1) same(2) pcs(3))
  have "races_ok S'"
  proof (rule races_step [OF ok S'(1)])
    show "shape (vis S')"
      by (rule shape_keys_cong [OF races_okD(3) [OF ok] kv vals vh]) (simp only: spec)
    show "fls_live S' i \<longleftrightarrow> (\<exists>k c. kview (vis S') k = Some (i, c))" for i
      using races_okD(6) [OF ok] kv S'(3) by simp
    show "leaves S S' u" if "u \<noteq> t" for u
      unfolding leaves_def using users [OF that] owners [OF that] same sets kv by (auto simp: usable_def)
    show "kheap (fls_mem S') 0 = None"
      using races_okD(9) [OF ok] same(3) view_None(2) by metis
  qed (use keys own pcs pc races_okD(1,10) [OF ok] S'(2) same(1) in auto)
  then show ?thesis using seen_same [OF S'(3) vh spec] by (simp add: becomes_def)
qed

text \<open>\<open>FlsAlloc\<close> puts its key into the list, or \<open>FlsFree\<close> puts it back.\<close>

lemma set_knext_same:
  "kview (set_knext a q s) = kview s" "kvals (set_knext a q s) = kvals s" "vheap (set_knext a q s) = vheap s"
  "specific (set_knext a q s) = specific s" "fls_keys (set_knext a q s) = fls_keys s"
  "kheap s a \<noteq> None \<Longrightarrow> knx (set_knext a q s) = (knx s)(a := Some q)" "dom (kheap (set_knext a q s)) = dom (kheap s)"
  "b \<noteq> a \<Longrightarrow> kheap (set_knext a q s) b = kheap s b"
  by (auto simp: set_knext_def kview_def kvals_def knx_def fun_eq_iff option.map_comp comp_def)

lemma heap_views: "kheap s' = kheap s \<Longrightarrow> kview s' = kview s \<and> kvals s' = kvals s \<and> knx s' = knx s"
  by (simp add: kview_def kvals_def knx_def fun_eq_iff)

lemma link_ok:
  assumes ok: "races_ok S" and pc: "fls_at S t = Linking k \<or> fls_at S t = Relinking i k"
    and s: "s = (set_knext k (fls_keys (fls_mem S)) (fls_mem S))\<lparr>fls_keys := k\<rparr> \<or>
      s = (set_knext k (fls_keys (fls_mem S)) (fls_mem S))\<lparr>fls_keys := k, fls_error := e\<rparr>"
  shows "kheap (fls_mem S) k \<noteq> None" "becomes (moved t Out s (fls_live S) S) (fls_seen S)"
proof -
  have ow: "owned_key (fls_at S t) = Some k" using pc by auto
  show alive: "kheap (fls_mem S) k \<noteq> None" by (rule owned_alive [OF ok ow])
  define S1 where "S1 = moved t Out s (fls_live S) S"
  have at: "fls_at S1 = (fls_at S)(t := Out)" "fls_broken S1 = fls_broken S"
    "fls_live S1 = fls_live S" "fls_mem S1 = s" by (simp_all add: S1_def)
  have heap: "kheap s = kheap (set_knext k (fls_keys (fls_mem S)) (fls_mem S))" "fls_keys s = k"
    "vheap s = vheap (fls_mem S)" "specific s = specific (fls_mem S)"
    using s by (auto simp: set_knext_same)
  then have views: "kview s = kview (fls_mem S)" "kvals s = kvals (fls_mem S)" "dom (kheap s) = dom (kheap (fls_mem S))"
    "knx s = (knx (fls_mem S))(k := Some (fls_keys (fls_mem S)))" "\<And>b. b \<noteq> k \<Longrightarrow> kheap s b = kheap (fls_mem S) b"
    using heap_views [OF heap(1)] alive by (simp_all add: heap(1) set_knext_same)
  have other: "k' \<noteq> k" if "u \<noteq> t" "owned_key (fls_at S u) = Some k'" for u k'
    using races_okD(7) [OF ok, of u k t] ow that by auto
  have ow1: "a \<in> owned S1 \<longleftrightarrow> a \<in> owned S \<and> a \<noteq> k" for a
    using other ow by (auto simp: owned_upd [OF at(1)] owned_at [of a S t])
  have "k \<in> owned S" by (rule at_sets(1) [OF ow])
  have "becomes S1 (fls_seen S)"
  proof (rule relink_step [OF ok at(1-3)])
    obtain ks where ks: "slist (knx (fls_mem S)) (fls_keys (fls_mem S)) ks" "set ks = dom (kheap (fls_mem S)) - owned S"
      using races_okD(2) [OF ok] by (auto simp: keys_listed_def)
    then have "k \<notin> set ks" using \<open>k \<in> owned S\<close> by auto
    moreover have "slist (knx s) (fls_keys (fls_mem S)) ks"
      by (rule slist_cong [OF ks(1)]) (use \<open>k \<notin> set ks\<close> in \<open>auto simp: views\<close>)
    moreover have "k \<noteq> 0" using alive races_okD(9) [OF ok] by (cases "k = 0") auto
    ultimately have "slist (knx s) (fls_keys s) (k # ks)" by (simp add: views heap)
    moreover have "set (k # ks) = dom (kheap s) - owned S1"
      using ks(2) alive by (auto simp: views ow1)
    ultimately show "keys_listed S1" unfolding keys_listed_def at by blast
    show "k' \<notin> owned S1" if "usable S k' j" for j k'
      using that by (auto simp: ow1 usable_def)
    show "kheap (fls_mem S1) k' = kheap (fls_mem S) k'" if "u \<noteq> t" "owned_key (fls_at S u) = Some k'" for u k'
      using other [OF that] by (simp add: at views)
  qed (use pc heap views in \<open>auto simp: at fun_eq_iff\<close>)
  then show "becomes (moved t Out s (fls_live S) S) (fls_seen S)" by (simp add: S1_def)
qed

lemma slist_null: "slist nx 0 as \<longleftrightarrow> as = []"
  by (cases as) auto

lemma take_ok:
  assumes ok: "races_ok S" and pc: "fls_at S t = Out"
    and calm: "\<forall>u. using_index (fls_at S u) \<noteq> Some i"
  shows "\<exists>pc s. take_key i (fls_mem S) = Some (pc, s) \<and> becomes (moved t pc s (fls_live S) S) (fls_seen S)"
proof -
  let ?s = "fls_mem S"
  obtain ks where ks: "slist (knx ?s) (fls_keys ?s) ks" "set ks = dom (kheap ?s) - owned S"
    using races_okD(2) [OF ok] by (auto simp: keys_listed_def)
  show ?thesis
  proof (cases rule: seek_index [OF ks(1), of i])
    case (1 c)
    then show ?thesis using pc by (auto simp: take_key_def intro!: to_out [OF ok])
  next
    case (2 as k bs)
    have own: "k \<notin> owned S" using ks(2) 2(1) by auto
    obtain key where key: "kheap ?s k = Some key" "kkey key = i"
      using 2(2) by (auto simp: has_index_def split: option.splits)
    have us: "usable S k i" by (rule listed_usable [OF 2(2) own])
    define s1 where "s1 = (if as = [] then ?s\<lparr>fls_keys := knext key\<rparr> else set_knext (last as) (knext key) ?s)"
    have run: "take_key i ?s = Some (Deleting i k, s1)"
      using 2(3,4) key by (simp add: take_key_def place_def s1_def)
    have last: "as \<noteq> [] \<Longrightarrow> kheap ?s (last as) \<noteq> None \<and> last as \<notin> owned S"
      using ks(2) 2(1) last_in_set [of as] by (metis Diff_iff UnCI domIff set_append)
    have view: "kview s1 = kview ?s" "kvals s1 = kvals ?s" "vheap s1 = vheap ?s" "specific s1 = specific ?s"
      "dom (kheap s1) = dom (kheap ?s)"
      "knx s1 = (if as = [] then knx ?s else (knx ?s)(last as := Some (knext key)))"
      "fls_keys s1 = (if as = [] then knext key else fls_keys ?s)"
      using last heap_views [of "?s\<lparr>fls_keys := knext key\<rparr>" ?s] by (simp_all add: s1_def set_knext_same)
    have kh: "kheap s1 a = kheap ?s a" if "a \<in> owned S" for a
      using that last by (auto simp: s1_def intro!: set_knext_same(8))
    define S1 where "S1 = moved t (Deleting i k) s1 (fls_live S) S"
    have at: "fls_at S1 = (fls_at S)(t := Deleting i k)" "fls_broken S1 = fls_broken S"
      "fls_live S1 = fls_live S" "fls_mem S1 = s1" by (simp_all add: S1_def)
    have ow1: "a \<in> owned S1 \<longleftrightarrow> a \<in> owned S \<or> a = k" for a
      using pc by (auto simp: owned_upd [OF at(1)] owned_at [of a S t])
    have "becomes S1 (fls_seen S)"
    proof (rule relink_step [OF ok at(1-3)])
      have "slist (knx s1) (fls_keys s1) (as @ bs)"
        using slist_unlink [of "knx ?s" "fls_keys ?s" as k bs "knext key"] ks(1) key(1)
        by (simp add: view 2(1) knx_def)
      moreover have "set (as @ bs) = dom (kheap s1) - owned S1"
      proof -
        have "set (as @ bs) = set ks - {k}" using slist_distinct [OF ks(1)] by (auto simp: 2(1))
        also have "\<dots> = dom (kheap s1) - owned S1" unfolding ks(2) view(5) using ow1 by blast
        finally show ?thesis .
      qed
      ultimately show "keys_listed S1" unfolding keys_listed_def at by blast
      show "k' \<notin> owned S1" if "using_index (fls_at S u) = Some j" "usable S k' j" for u j k'
      proof -
        have "j \<noteq> i" using that(1) calm by blast
        with that(2) us have "k' \<noteq> k" by (auto simp: usable_def)
        with that(2) show ?thesis by (simp add: ow1 usable_def)
      qed
      show "kheap (fls_mem S1) k' = kheap ?s k'" if "owned_key (fls_at S u) = Some k'" for u k'
        using kh [OF at_sets(1) [OF that]] by (simp add: at)
      show "pc_ok S1 t (Deleting i k)" using key by (simp add: at view kview_Some)
    qed (use pc own in \<open>simp_all add: at view fun_eq_iff\<close>)
    with run show ?thesis by (simp add: S1_def)
  qed
qed

text \<open>What is left of the shape when a key and its values go.\<close>

definition without_key :: "addr \<Rightarrow> fls \<Rightarrow> fls \<Rightarrow> bool" where
  "without_key k s s' \<longleftrightarrow> kheap s' = (kheap s)(k := None) \<and> specific s' = specific s \<and>
     vheap s' = (\<lambda>v. case vheap s v of None \<Rightarrow> None | Some x \<Rightarrow> if owner x = k then None else Some x)"

lemma without_views:
  assumes "without_key k s s'"
  shows "kview s' = (kview s)(k := None)" "specific s' = specific s"
    "vview s' v = Some (k', d) \<longleftrightarrow> vview s v = Some (k', d) \<and> k' \<noteq> k"
proof -
  have kh: "kheap s' = (kheap s)(k := None)" and sp: "specific s' = specific s"
    and vh: "vheap s' v = (case vheap s v of None \<Rightarrow> None | Some x \<Rightarrow> if owner x = k then None else Some x)"
    using assms by (simp_all add: without_key_def)
  show "kview s' = (kview s)(k := None)" by (simp add: kview_def kh fun_eq_iff)
  show "specific s' = specific s" by (rule sp)
  show "vview s' v = Some (k', d) \<longleftrightarrow> vview s v = Some (k', d) \<and> k' \<noteq> k"
    unfolding vview_Some vh by (auto split: option.splits if_splits)
qed

lemma without_lists:
  assumes w: "without_key k s s'" and vs: "value_lists s vs"
  shows "value_lists s' vs"
  unfolding value_lists_def
proof (intro allI impI conjI)
  fix k' key assume "kheap s' k' = Some key"
  then have k': "kheap s k' = Some key" "k' \<noteq> k" using w by (auto simp: without_key_def split: if_splits)
  note list = value_lists_at [OF vs k'(1)]
  have "vnx s' a = vnx s a" if "a \<in> set (vs k')" for a
  proof -
    from that list(2) obtain x where "vheap s a = Some x" "owner x = k'" by (auto simp: vview_Some)
    with k'(2) w have "vheap s' a = vheap s a" by (simp add: without_key_def)
    then show ?thesis by (simp add: vnx_def)
  qed
  then show "slist (vnx s') (kvalues key) (vs k')" by (rule slist_cong [OF list(1)])
  show "set (vs k') = {v. \<exists>d. vview s' v = Some (k', d)}"
    using list(2) k'(2) by (simp add: without_views(3) [OF w])
qed

lemma without_tied:
  assumes w: "without_key k s s'" and tied: "tied s"
  shows "tied s'"
  unfolding tied_def without_views(2) [OF w]
proof (intro conjI allI impI)
  note kv = without_views(1) [OF w] and vv = without_views(3) [OF w]
  show "a = b" if "kview s' a = Some (j, x)" "kview s' b = Some (j, y)" for a b j x y
    using same_index [OF tied, of a j x b y] that by (auto simp: kv split: if_splits)
  fix v k' d assume "vview s' v = Some (k', d)"
  then have v: "vview s v = Some (k', d)" "k' \<noteq> k" by (simp_all add: vv)
  show "d \<noteq> 0" "\<exists>i c. kview s' k' = Some (i, c) \<and> (\<exists>!t. specific s t i = v)"
    using tied_value [OF tied v(1)] v(2) unfolding kv fun_upd_apply by auto
next
  fix u k' j c' assume "kview s' k' = Some (j, c')"
  then have k': "kview s k' = Some (j, c')" "k' \<noteq> k" by (auto simp: without_views(1) [OF w] split: if_splits)
  show "specific s u j = 0 \<or> (\<exists>d. vview s' (specific s u j) = Some (k', d))"
    using tied_slot [OF tied k'(1), of u] k'(2) by (simp only: without_views(3) [OF w]) simp
qed

lemma without_shape: "without_key k s s' \<Longrightarrow> shape s \<Longrightarrow> shape s'"
  unfolding shape_def using without_lists without_tied by blast

text \<open>A datum of another index is seen as before.\<close>

lemma without_seen:
  assumes w: "without_key k (vis S) (vis S')" and ok: "races_ok S" and kk: "kview (vis S) k = Some (i, c)"
    and live: "fls_live S' = (fls_live S)(i := False)"
  shows "fls_seen S' u j = (if j = i then None else fls_seen S u j)"
proof (cases "j \<noteq> i \<and> fls_live S j")
  case True
  then obtain k' c' where k': "kview (vis S) k' = Some (j, c')" using races_okD(6) [OF ok] by blast
  with kk True have "k' \<noteq> k" by auto
  moreover have "vview (vis S) 0 = None" using races_okD(10) [OF ok] by (simp add: vview_def)
  ultimately have "vview (vis S') (specific (vis S) u j) = vview (vis S) (specific (vis S) u j)"
    using tied_slot [OF races_okD(4) [OF ok] k', of u] without_views(3) [OF w, of 0]
      without_views(3) [OF w, of "specific (vis S) u j" k']
    by (metis option.exhaust surj_pair)
  with True show ?thesis unfolding fls_seen_def without_views(2) [OF w] by (simp add: live)
next
  case False
  then show ?thesis unfolding fls_seen_def by (auto simp: live)
qed

text \<open>The values of a key that nobody is dismantling are a list in the memory.\<close>

lemma drains_start:
  assumes ok: "races_ok S" and key: "kheap (fls_mem S) k = Some key" and k: "k \<notin> gone S"
  shows "drains S k (kvalues key) []"
proof -
  from races_okD(3) [OF ok] obtain vs where vs: "value_lists (vis S) vs" by (auto simp: shape_def)
  note list = shared_list [OF vs key k]
  then show ?thesis
    unfolding drains_def using slist_distinct list by (intro exI [of _ "vs k"]) simp
qed

lemma owned_not_gone:
  assumes ok: "races_ok S" and "owned_key (fls_at S t) = Some k" "dying_key (fls_at S t) = None"
  shows "k \<notin> gone S"
proof
  assume "k \<in> gone S"
  then obtain u where u: "dying_key (fls_at S u) = Some k" by (auto simp: gone_def)
  then have "owned_key (fls_at S u) = Some k" by (cases "fls_at S u") auto
  with races_okD(7) [OF ok this assms(2)] u assms(3) show False by simp
qed

text \<open>The pthread library has deleted the key: the key and its values belong to the thread alone.\<close>

lemma delete_ok:
  assumes ok: "races_ok S" and pc: "fls_at S t = Deleting i k"
  shows "becomes (moved t (Deleted k) (fls_mem S) ((fls_live S)(i := False)) S)
    (\<lambda>u j. if j = i then None else fls_seen S u j)"
proof -
  define S1 where "S1 = moved t (Deleted k) (fls_mem S) ((fls_live S)(i := False)) S"
  have at: "fls_at S1 = (fls_at S)(t := Deleted k)" "fls_broken S1 = fls_broken S"
    "fls_live S1 = (fls_live S)(i := False)" "fls_mem S1 = fls_mem S" by (simp_all add: S1_def)
  obtain c where c: "kview (fls_mem S) k = Some (i, c)" using races_okD(5) [OF ok, of t] pc by auto
  then obtain key where key: "kheap (fls_mem S) k = Some key" by (auto simp: kview_Some)
  have ow: "k \<in> owned S" using at_sets(1) [of S t k] pc by simp
  have ngone: "k \<notin> gone S" by (rule owned_not_gone [OF ok, of t]) (simp_all add: pc)
  have ow1: "owned S1 = owned S" by (rule sets_upd(1) [OF at(1)]) (simp add: pc)
  have tk: "taken S1 = taken S" by (rule sets_upd(3) [OF at(1)]) (simp add: pc)
  have gn: "a \<in> gone S1 \<longleftrightarrow> a \<in> gone S \<or> a = k" for a
    using pc by (auto simp: gone_upd [OF at(1)] gone_at [of a S t])
  have kk: "kview (vis S) k = Some (i, c)" using c ngone by (simp add: kview_def)
  have w: "without_key k (vis S) (vis S1)"
    unfolding without_key_def using pc by (auto simp: fun_eq_iff gn tk at split: option.splits)
  note kv = without_views(1) [OF w]
  have drains: "drains S1 k (kvalues key) []"
    by (rule drains_frame [OF drains_start [OF ok key ngone]]) (simp add: at tk)
  have "races_ok S1"
  proof (rule races_step [OF ok at(1)])
    show "keys_listed S1" using races_okD(2) [OF ok] by (simp add: keys_listed_def at ow1)
    show "fls_live S1 j \<longleftrightarrow> (\<exists>k' c. kview (vis S1) k' = Some (j, c))" for j
    proof (cases "j = i")
      case True
      have "k' = k" if "kview (vis S) k' = Some (i, c')" for k' c' by (rule same_index [OF races_okD(4) [OF ok] that kk])
      with True show ?thesis by (auto simp: at kv)
    next
      case False
      with kk have "kview (vis S1) k' = Some (j, c') \<longleftrightarrow> kview (vis S) k' = Some (j, c')" for k' c'
        by (auto simp: kv)
      with False races_okD(6) [OF ok, of j] show ?thesis by (simp add: at)
    qed
    show "leaves S S1 u" if "u \<noteq> t" for u
      unfolding leaves_def using ow by (auto simp: usable_def at ow1 tk kv)
    show "pc_ok S1 t (Deleted k)" using key drains by (simp add: at)
  qed (use pc at races_okD(1,9,10) [OF ok] without_shape [OF w races_okD(3) [OF ok]] in auto)
  moreover have "fls_seen S1 u j = (if j = i then None else fls_seen S u j)" for u j
    by (rule without_seen [OF w ok kk at(3)])
  ultimately show ?thesis unfolding becomes_def S1_def by blast
qed

lemma drop_ok:
  assumes ok: "races_ok S" and pc: "fls_at S t = Dropping k"
  shows "\<exists>pc s. drop_key k (fls_mem S) = Some (pc, s) \<and> becomes (moved t pc s (fls_live S) S) (fls_seen S)"
proof -
  define S1 where "S1 = moved t Out (fls_mem S\<lparr>kheap := (kheap (fls_mem S))(k := None)\<rparr>) (fls_live S) S"
  have at: "fls_at S1 = (fls_at S)(t := Out)" "fls_broken S1 = fls_broken S" "fls_live S1 = fls_live S"
    "kheap (fls_mem S1) = (kheap (fls_mem S))(k := None)" "vheap (fls_mem S1) = vheap (fls_mem S)"
    "specific (fls_mem S1) = specific (fls_mem S)" "fls_keys (fls_mem S1) = fls_keys (fls_mem S)"
    by (simp_all add: S1_def)
  have k: "kheap (fls_mem S) k \<noteq> None" "drains S k 0 []" using races_okD(5) [OF ok, of t] pc by simp_all
  then have empty: "vheap (fls_mem S) v = Some x \<Longrightarrow> owner x = k \<Longrightarrow> v \<in> taken S" for v x
    by (auto simp: drains_def slist_null)
  have ow: "owned_key (fls_at S t) = Some k" and dy: "dying_key (fls_at S t) = Some k" using pc by simp_all
  have other: "owned_key (fls_at S u) \<noteq> Some k" if "u \<noteq> t" for u
    using races_okD(7) [OF ok _ ow] that by blast
  then have other': "dying_key (fls_at S u) \<noteq> Some k" if "u \<noteq> t" for u
    using that by (cases "fls_at S u") force+
  have tk: "taken S1 = taken S" by (rule sets_upd(3) [OF at(1)]) (simp add: pc)
  have ow1: "a \<in> owned S1 \<longleftrightarrow> a \<in> owned S \<and> a \<noteq> k" for a
    using other ow by (auto simp: owned_upd [OF at(1)] owned_at [of a S t])
  have gn: "a \<in> gone S1 \<longleftrightarrow> a \<in> gone S \<and> a \<noteq> k" for a
    using other' dy by (auto simp: gone_upd [OF at(1)] gone_at [of a S t])
  have kh: "kheap (vis S1) = kheap (vis S)"
    using at_sets(2) [OF dy] by (auto simp: fun_eq_iff gn at)
  have vh: "vheap (vis S1) = vheap (vis S)"
    using at_sets(2) [OF dy] empty by (auto simp: fun_eq_iff gn tk at split: option.splits)
  have kv: "kview (vis S1) = kview (vis S)" by (rule heap_views [OF kh, THEN conjunct1])
  obtain ks where ks: "slist (knx (fls_mem S)) (fls_keys (fls_mem S)) ks" "set ks = dom (kheap (fls_mem S)) - owned S"
    using races_okD(2) [OF ok] by (auto simp: keys_listed_def)
  have kks: "k \<notin> set ks" using ks(2) at_sets(1) [OF ow] by simp
  have spec: "specific (vis S1) u = specific (vis S) u" for u by (simp add: at pc)
  have "races_ok S1"
  proof (rule races_step [OF ok at(1)])
    have "slist (knx (fls_mem S1)) (fls_keys (fls_mem S1)) ks"
      unfolding at(7) by (rule slist_cong [OF ks(1)]) (use kks in \<open>auto simp: knx_def at\<close>)
    moreover have "set ks = dom (kheap (fls_mem S1)) - owned S1"
      unfolding ks(2) using at_sets(1) [OF ow] by (auto simp: at ow1)
    ultimately show "keys_listed S1" unfolding keys_listed_def by blast
    show "shape (vis S1)"
      by (rule shape_cong [OF races_okD(3) [OF ok] kh vh]) (simp only: spec)
    show "fls_live S1 i \<longleftrightarrow> (\<exists>k c. kview (vis S1) k = Some (i, c))" for i
      using races_okD(6) [OF ok, of i] by (simp add: at kv)
    show "leaves S S1 u" if "u \<noteq> t" for u
      unfolding leaves_def using other [OF that] by (auto simp: usable_def at ow1 tk kv)
  qed (use at races_okD(1,9,10) [OF ok] in auto)
  with k(1) seen_same [OF at(3) vh spec] show ?thesis
    by (auto simp: drop_key_def S1_def becomes_def)
qed

lemma slots_upd: "using_index pc \<noteq> Some i \<Longrightarrow> slots pc (f(i := v)) = (slots pc f)(i := v)"
  by (cases pc) (auto simp: fun_upd_twist)

text \<open>A new key, of an index not in use; the slots of the index are cleared.\<close>

lemma new_key_shape:
  assumes sh: "shape s" and new: "kheap s k = None" "\<And>k' c. kview s k' \<noteq> Some (i, c)"
    and s': "kheap s' = (kheap s)(k \<mapsto> key)" "kkey key = i" "kvalues key = 0" "vheap s' = vheap s"
      "\<And>u. specific s' u = (specific s u)(i := 0)"
  shows "shape s'"
proof -
  from sh obtain vs where vs: "value_lists s vs" and tied: "tied s" by (auto simp: shape_def)
  have vv: "vview s' = vview s" "vnx s' = vnx s" using s'(4) by (simp_all add: vview_def vnx_def fun_eq_iff)
  have kv: "kview s' = (kview s)(k \<mapsto> (i, callback key))" using s'(2) by (simp add: kview_def s'(1) fun_eq_iff)
  have kn: "kview s k = None" using new(1) by (simp add: kview_def)
  have nov: "vview s v \<noteq> Some (k, d)" for v d using tied_value [OF tied, of v k d] kn by auto
  then have "value_lists s' (vs(k := []))" using vs s'(3) unfolding value_lists_def vv s'(1) by auto
  moreover have "tied s'"
    unfolding tied_def vv
  proof (intro conjI allI impI)
    show "a = b" if "kview s' a = Some (j, x)" "kview s' b = Some (j, y)" for a b j x y
      using same_index [OF tied, of a j x b y] that new(2) by (auto simp: kv split: if_splits)
    fix v k' d assume v: "vview s v = Some (k', d)"
    show "d \<noteq> 0" using tied_value [OF tied v] by simp
    from tied_value [OF tied v] obtain j c where j: "kview s k' = Some (j, c)" "\<exists>!t. specific s t j = v" by blast
    have "j \<noteq> i" "k' \<noteq> k" using j(1) new(2) kn by auto
    with j show "\<exists>j c. kview s' k' = Some (j, c) \<and> (\<exists>!t. specific s' t j = v)" unfolding kv s'(5) by auto
  next
    fix u k' j c' assume k': "kview s' k' = Some (j, c')"
    show "specific s' u j = 0 \<or> (\<exists>d. vview s (specific s' u j) = Some (k', d))"
    proof (cases "j = i")
      case False
      with k' have "kview s k' = Some (j, c')" by (auto simp: kv split: if_splits)
      with tied_slot [OF tied this, of u] False show ?thesis unfolding s'(5) by simp
    qed (simp only: s'(5) fun_upd_same simp_thms)
  qed
  ultimately show ?thesis by (auto simp: shape_def)
qed

lemma alloc_begin_ok:
  assumes ok: "races_ok S" and pc: "fls_at S t = Out"
    and k: "k \<noteq> 0" "kheap (fls_mem S) k = None" and i: "\<not> fls_live S i"
  shows "\<exists>pc s. fls_begin t (AllocIndex k i cb) (fls_mem S) = Some (pc, s) \<and>
    becomes (moved t pc s ((fls_live S)(i := True)) S) (fls_seen S)"
proof -
  define s where "s = fls_mem S\<lparr>specific := (\<lambda>t. (specific (fls_mem S) t)(i := 0)),
       kheap := (kheap (fls_mem S))(k \<mapsto> \<lparr>knext = 0, kvalues = 0, kkey = i, callback = cb\<rparr>)\<rparr>"
  define S1 where "S1 = moved t (Linking k) s ((fls_live S)(i := True)) S"
  have at: "fls_at S1 = (fls_at S)(t := Linking k)" "fls_broken S1 = fls_broken S"
    "fls_live S1 = (fls_live S)(i := True)" "fls_mem S1 = s" by (simp_all add: S1_def)
  have s: "kheap s = (kheap (fls_mem S))(k \<mapsto> \<lparr>knext = 0, kvalues = 0, kkey = i, callback = cb\<rparr>)"
    "vheap s = vheap (fls_mem S)" "fls_keys s = fls_keys (fls_mem S)"
    "specific s u = (specific (fls_mem S) u)(i := 0)" for u
    by (simp_all add: s_def)
  have unused: "using_index (fls_at S u) \<noteq> Some i" for u using using_live [OF ok] i by blast
  have notown: "owned_key (fls_at S u) \<noteq> Some k" for u using owned_alive [OF ok] k(2) by blast
  have nk: "k \<notin> owned S" using notown by (auto simp: owned_def)
  then have ng: "k \<notin> gone S" using gone_owned by blast
  have gn: "gone S1 = gone S" by (rule sets_upd(2) [OF at(1)]) (simp add: pc)
  have tk: "taken S1 = taken S" by (rule sets_upd(3) [OF at(1)]) (simp add: pc)
  have ow1: "a \<in> owned S1 \<longleftrightarrow> a \<in> owned S \<or> a = k" for a
    using pc by (auto simp: owned_upd [OF at(1)] owned_at [of a S t])
  have vh: "vheap (vis S1) = vheap (vis S)" by (auto simp: fun_eq_iff gn tk at s(2) split: option.splits)
  have vv: "vview (vis S1) = vview (vis S)" by (rule heap_vview [OF vh])
  have kh: "kheap (vis S1) = (kheap (vis S))(k \<mapsto> \<lparr>knext = 0, kvalues = 0, kkey = i, callback = cb\<rparr>)"
    using ng by (auto simp: fun_eq_iff gn at s(1))
  have kv: "kview (vis S1) = (kview (vis S))(k \<mapsto> (i, cb))" by (simp add: kview_def kh fun_eq_iff)
  have new: "kview (vis S) k = None" using k(2) by (simp add: kview_def)
  have noi: "kview (vis S) k' \<noteq> Some (i, c)" for k' c using races_okD(6) [OF ok, of i] i by auto
  have spec: "specific (vis S1) u = (specific (vis S) u)(i := 0)" for u
    using unused [of u] pc by (simp add: at s(4) slots_upd)
  have shape: "shape (vis S1)"
    by (rule new_key_shape [OF races_okD(3) [OF ok] _ noi kh _ _ vh spec]) (use k(2) in simp_all)
  obtain ks where ks: "slist (knx (fls_mem S)) (fls_keys (fls_mem S)) ks" "set ks = dom (kheap (fls_mem S)) - owned S"
    using races_okD(2) [OF ok] by (auto simp: keys_listed_def)
  have "races_ok S1"
  proof (rule races_step [OF ok at(1)])
    have "k \<notin> set ks" using ks(2) k(2) by auto
    then have "slist (knx s) (fls_keys s) ks"
      unfolding s(3) by (intro slist_cong [OF ks(1)]) (auto simp: knx_def s(1))
    moreover have "set ks = dom (kheap s) - owned S1" unfolding ks(2) using k(2) by (auto simp: s(1) ow1)
    ultimately show "keys_listed S1" unfolding keys_listed_def at by blast
    show "fls_live S1 j \<longleftrightarrow> (\<exists>k' c. kview (vis S1) k' = Some (j, c))" for j
    proof (cases "j = i")
      case True
      with kv show ?thesis by (auto simp: at)
    next
      case False
      have "(\<exists>k' c. kview (vis S1) k' = Some (j, c)) \<longleftrightarrow> (\<exists>k' c. kview (vis S) k' = Some (j, c))"
        using False new unfolding kv by (auto split: if_splits) (metis option.distinct(1))
      with False races_okD(6) [OF ok, of j] show ?thesis by (simp add: at)
    qed
    show "leaves S S1 u" if "u \<noteq> t" for u
      unfolding leaves_def
    proof (intro conjI allI impI)
      fix j k' assume "using_index (fls_at S u) = Some j" "usable S k' j"
      moreover from this(1) have "j \<noteq> i" using unused by auto
      moreover from \<open>usable S k' j\<close> have "k' \<noteq> k" using new by (auto simp: usable_def)
      ultimately show "usable S1 k' j" "specific (fls_mem S1) u j = specific (fls_mem S) u j"
        by (simp_all add: usable_def kv ow1 at s(4))
    next
      show "kheap (fls_mem S1) k' = kheap (fls_mem S) k'" if "owned_key (fls_at S u) = Some k'" for k'
        using that notown by (auto simp: at s(1))
    qed (simp_all add: at s(2) tk)
    show "owned_key (fls_at S t) = Some k' \<or> k' \<notin> owned S" if "owned_key (Linking k) = Some k'" for k'
      using that nk by simp
    show "pc_ok S1 t (Linking k)" by (simp add: at s(1))
    show "kheap (fls_mem S1) 0 = None" using races_okD(9) [OF ok] k(1) by (simp add: at s(1))
  qed (use at races_okD(1,10) [OF ok] shape s(2) in auto)
  moreover have "fls_seen S1 u j = fls_seen S u j" for u j
  proof (cases "j = i")
    case True
    have "vview (vis S) 0 = None" using races_okD(10) [OF ok] by (simp add: vview_def)
    with True i show ?thesis unfolding fls_seen_def vv spec by (simp add: at)
  next
    case False
    then show ?thesis unfolding fls_seen_def vv spec by (simp add: at)
  qed
  ultimately show ?thesis unfolding becomes_def S1_def s_def by (simp add: fun_eq_iff)
qed

section \<open>Every run\<close>

text \<open>
  The atomic specification: what a step does to the data the threads see. \<open>FlsSetValue\<close> acts when it
  overwrites its value, links a new one or unlinks the old one, the end of a thread when it
  unlinks, and \<open>FlsFree\<close> when the library deletes the key; all other steps act on nothing.
\<close>

fun fls_effect :: "nat \<Rightarrow> nat \<Rightarrow> fls_pc \<Rightarrow> (nat \<Rightarrow> nat \<Rightarrow> nat option) \<Rightarrow> nat \<Rightarrow> nat \<Rightarrow> nat option" where
  "fls_effect t rc (Got k i data v) f = (if data \<noteq> 0 \<and> v \<noteq> 0 then data_set t i (Some data) f else f)"
| "fls_effect t rc (Inserting k i data b) f = data_set t i (Some data) f"
| "fls_effect t rc (Unlinking i v err) f = data_set t i None f"
| "fls_effect t rc (Destroying i v) f = data_set t i None f"
| "fls_effect t rc (Deleting i k) f = (if rc = 0 then \<lambda>u j. if j = i then None else f u j else f)"
| "fls_effect t rc pc f = f"

definition fls_commit :: "nat \<Rightarrow> fls_act \<Rightarrow> fls_pc \<Rightarrow> (nat \<Rightarrow> nat \<Rightarrow> nat option) \<Rightarrow> nat \<Rightarrow> nat \<Rightarrow> nat option" where
  "fls_commit t a pc f = (case a of Go block rc \<Rightarrow> fls_effect t rc pc f | _ \<Rightarrow> f)"

lemma go_ok:
  assumes ok: "races_ok S" and fresh: "\<And>b. block = Some b \<Longrightarrow> b \<noteq> 0 \<and> vheap (fls_mem S) b = None"
  shows "\<exists>pc s. fls_go t block rc (fls_at S t) (fls_mem S) = Some (pc, s) \<and>
    becomes (moved t pc s (live_after (Go block rc) (fls_at S t) (fls_live S)) S) (fls_effect t rc (fls_at S t) (fls_seen S))"
proof (cases "fls_at S t")
  case Out
  then show ?thesis by (auto simp: live_after_def intro!: to_out [OF ok])
next
  case (Found k i data)
  then show ?thesis using found_ok [OF ok Found] by (simp add: live_after_def)
next
  case (Got k i data v)
  consider "data = 0" | "data \<noteq> 0" "v \<noteq> 0" | "data \<noteq> 0" "v = 0" by blast
  then show ?thesis
  proof cases
    case 1
    then show ?thesis using got_clear_ok [OF ok Got] Got by (simp add: live_after_def)
  next
    case 2
    then show ?thesis using got_replace_ok [OF ok Got 2] Got by (simp add: live_after_def)
  next
    case 3
    show ?thesis
    proof (cases block)
      case None
      then show ?thesis using 3 Got by (auto simp: live_after_def got_value_def intro!: to_out [OF ok])
    next
      case (Some b)
      with got_block_ok [OF ok _ 3(1), of t k i b] fresh [OF Some] 3 Got show ?thesis
        by (simp add: live_after_def got_value_def)
    qed
  qed
next
  case (Inserting k i data b)
  then show ?thesis using insert_ok [OF ok Inserting] by (simp add: live_after_def)
next
  case (Storing k i v allocated)
  then show ?thesis using store_ok [OF ok Storing] by (simp add: live_after_def)
next
  case (Unlinking i v err)
  then show ?thesis
    by (rule_tac unlink_ok [OF ok, of t i v err]) (auto simp: live_after_def unlink_locked_def)
next
  case (Destroying i v)
  then show ?thesis
    by (rule_tac unlink_ok [OF ok, of t i v 0]) (auto simp: live_after_def destroy_locked_def)
next
  case (Freeing v cb d err)
  then show ?thesis using release_ok [OF ok Freeing] by (simp add: live_after_def)
next
  case (Calling cb d)
  then show ?thesis using call_ok [OF ok Calling] by (simp add: live_after_def)
next
  case (Linking k)
  then show ?thesis using link_ok [OF ok disjI1 disjI1, OF Linking refl] by (simp add: live_after_def link_key_def)
next
  case (Deleting i k)
  then show ?thesis using refused_ok [OF ok Deleting] delete_ok [OF ok Deleting]
    by (cases "rc = 0") (auto simp: live_after_def delete_key_def)
next
  case (Relinking i k)
  then show ?thesis using link_ok [OF ok disjI2 disjI2, OF Relinking refl] by (simp add: live_after_def link_key_def)
next
  case (Deleted k)
  then show ?thesis using read_values_ok [OF ok Deleted] by (simp add: live_after_def)
next
  case (Draining k p)
  then show ?thesis using drain_ok [OF ok Draining] by (simp add: live_after_def)
next
  case (Reaping k p q)
  then show ?thesis using reap_ok [OF ok Reaping] by (simp add: live_after_def)
next
  case (Dropping k)
  then show ?thesis using drop_ok [OF ok Dropping] by (simp add: live_after_def)
qed

lemma act_ok:
  assumes ok: "races_ok S" and al: "allowed t a S" "calm a S"
  shows "becomes (fls_act t a S) (fls_commit t a (fls_at S t) (fls_seen S))"
proof (cases a)
  case (AllocIndex k i cb)
  with al alloc_begin_ok [OF ok, of t k i cb] show ?thesis by (auto simp: fls_act_def live_after_def fls_commit_def)
next
  case (SetIndex i data)
  with al find_ok [OF ok, of t i data] show ?thesis by (auto simp: fls_act_def live_after_def fls_commit_def)
next
  case (FreeIndex i)
  with al take_ok [OF ok, of t i] show ?thesis by (auto simp: fls_act_def live_after_def fls_commit_def)
next
  case (ExitThread i)
  with al exit_begin_ok [OF ok, of t i] show ?thesis by (auto simp: fls_act_def live_after_def fls_commit_def)
next
  case (Go block rc)
  with al have "b \<noteq> 0 \<and> vheap (fls_mem S) b = None" if "block = Some b" for b using that by simp
  from go_ok [OF ok this, of block t rc] Go show ?thesis by (auto simp: fls_act_def fls_commit_def)
qed

lemma start_ok: "threads_start S \<Longrightarrow> races_ok S"
  by (auto simp: threads_start_def fls_start_def races_ok_def keys_listed_def shape_def tied_def value_lists_def
      owned_def gone_def kview_def vview_def intro!: exI [of _ "[]"])

interpretation calm: step_invariant threads_start calm_step races_ok
  by unfold_locales (auto simp: calm_step_def start_ok dest: act_ok [unfolded becomes_def])

section \<open>What holds in every run\<close>

lemma quiet_view:
  assumes ok: "races_ok S" and out: "\<And>t. fls_at S t = Out"
  shows "fls_ok (fls_mem S)" "fls_seen S = data_of (fls_mem S)"
proof -
  have sets: "owned S = {}" "gone S = {}" "taken S = {}" by (simp_all add: owned_def gone_def taken_def out)
  have eq: "kheap (fls_mem S) = kheap (vis S)" "vheap (fls_mem S) = vheap (vis S)"
    "specific (fls_mem S) = specific (vis S)"
    by (auto simp: fun_eq_iff sets out split: option.splits)
  have "shape (fls_mem S)"
    by (rule shape_cong [OF races_okD(3) [OF ok] eq(1,2)]) (simp only: eq(3))
  moreover obtain ks where "slist (knx (fls_mem S)) (fls_keys (fls_mem S)) ks" "set ks = dom (kheap (fls_mem S))"
    using races_okD(2) [OF ok] by (auto simp: keys_listed_def sets)
  ultimately show fok: "fls_ok (fls_mem S)" unfolding fls_ok_def shape_def linked_iff by blast
  have kv: "kview (fls_mem S) = kview (vis S)" and vv: "vview (fls_mem S) = vview (vis S)"
    using heap_views [OF eq(1)] heap_vview [OF eq(2)] by simp_all
  show "fls_seen S = data_of (fls_mem S)"
    using races_okD(6) [OF ok] by (intro ext) (simp only: fls_seen_def ok_views(2) [OF fok] kv vv eq(3))
qed

text \<open>
  C3: while \<open>FlsFree\<close> of an index does not overlap another use of that index, no interleaving of the
  calls of any number of threads touches or frees a block that is not alive; and whenever no call
  is under way the lists are whole again and every value alive belongs to one thread and index.
\<close>

theorem fls_calm_runs_safe:
  assumes "reach threads_start calm_step S"
  shows "\<not> fls_broken S \<and> ((\<forall>t. fls_at S t = Out) \<longrightarrow> fls_ok (fls_mem S))"
  using calm.reach_inv [OF assms] races_okD(1) quiet_view(1) by blast


section \<open>Runs\<close>

fun fls_run :: "(nat \<times> fls_act) list \<Rightarrow> fls_threads \<Rightarrow> fls_threads" where
  "fls_run [] S = S"
| "fls_run ((t, a) # as) S = fls_run as (fls_act t a S)"

fun runnable :: "(nat \<Rightarrow> fls_act \<Rightarrow> fls_threads \<Rightarrow> bool) \<Rightarrow> (nat \<times> fls_act) list \<Rightarrow> fls_threads \<Rightarrow> bool" where
  "runnable P [] S = True"
| "runnable P ((t, a) # as) S = (\<not> fls_broken S \<and> allowed t a S \<and> P t a S \<and> runnable P as (fls_act t a S))"

lemma run_reaches:
  "reach threads_start any_step S \<Longrightarrow> runnable P as S \<Longrightarrow> reach threads_start any_step (fls_run as S)"
  "reach threads_start calm_step S \<Longrightarrow> runnable (\<lambda>t. calm) as S \<Longrightarrow> reach threads_start calm_step (fls_run as S)"
proof (induction as S rule: fls_run.induct)
  case (2 t a as S)
  {
    case 1
    then have "any_step S (fls_act t a S)" by (auto simp: any_step_def)
    with 1 2(1) show ?case by (auto intro: reach_step)
  next
    case 2
    then have "calm_step S (fls_act t a S)" by (auto simp: calm_step_def)
    with 2 "2.IH"(2) show ?case by (auto intro: reach_step)
  }
qed auto

definition fls_idle :: fls_threads where
  "fls_idle = \<lparr>fls_mem = \<lparr>vheap = \<lambda>_. None, kheap = \<lambda>_. None, fls_keys = 0, specific = \<lambda>_ _. 0, called = [],
     fls_error = 0\<rparr>, fls_at = \<lambda>_. Out, fls_live = \<lambda>_. False, fls_broken = False\<rparr>"

text \<open>Thread 1 creates index 5 with the callback 9, and thread 7 sets its datum to 42.\<close>

definition set_up :: "(nat \<times> fls_act) list" where
  "set_up = [(1, AllocIndex 1 5 9), (1, Go None 0), (7, SetIndex 5 42), (7, Go None 0), (7, Go (Some 2) 0),
     (7, Go None 0), (7, Go None 0)]"

text \<open>Thread 7 ends while thread 1 frees the index; or sets again, between the search and the use of the key.\<close>

definition exit_race :: "(nat \<times> fls_act) list" where
  "exit_race = set_up @ [(7, ExitThread 5), (1, FreeIndex 5), (1, Go None 0), (1, Go None 0), (1, Go None 0),
     (7, Go None 0), (7, Go None 0), (7, Go None 0)]"

definition set_race :: "(nat \<times> fls_act) list" where
  "set_race = set_up @ [(7, SetIndex 5 43), (1, FreeIndex 5), (1, Go None 0), (1, Go None 0), (1, Go None 0),
     (1, Go None 0), (1, Go None 0), (1, Go None 0), (7, Go None 0)]"

lemmas run_defs = fls_act_def live_after_def moved_def find_locked_def fls_find_key_def take_key_def
  seek.simps knx_def vnx_def has_index_def got_specific_def got_clear_def got_value_def insert_value_def
  store_specific_def unlink_locked_def destroy_locked_def release_value_def link_key_def delete_key_def
  read_values_def drain_value_def reap_value_def drop_key_def set_specific_def set_values_def set_vnext_def
  set_knext_def free_value_def run_callback_def fls_unlink_value_def


text \<open>Thread 8 sets a datum while thread 7 ends.\<close>

definition set_and_exit :: "(nat \<times> fls_act) list" where
  "set_and_exit = set_up @ [(8, SetIndex 5 43), (7, ExitThread 5), (8, Go None 0), (8, Go (Some 3) 0), (7, Go None 0),
     (8, Go None 0), (7, Go None 0), (8, Go None 0), (7, Go None 0)]"

lemma run_set_and_exit:
  "runnable (\<lambda>t. calm) set_and_exit fls_idle" "fls_at (fls_run set_and_exit fls_idle) t = Out"
  "called (fls_mem (fls_run set_and_exit fls_idle)) = [(9, 42)]"
  by (simp_all add: set_and_exit_def set_up_def fls_idle_def run_defs)

lemma idle_reached: "reach threads_start calm_step fls_idle"
  by (rule reach_init) (simp add: threads_start_def fls_start_def fls_idle_def)

theorem fls_calm_runs_safe_witness:
  "fls_ok (fls_mem (fls_run set_and_exit fls_idle)) \<and> called (fls_mem (fls_run set_and_exit fls_idle)) = [(9, 42)]"
  using fls_calm_runs_safe [OF run_reaches(2) [OF idle_reached run_set_and_exit(1)]] run_set_and_exit(2,3) by simp


end
