(* ===== verification/Kernel32.thy ===== *)
theory Kernel32
  imports Prelude
begin

text \<open>
  Model of \<open>src/legacy/shared/kernel32.c\<close> and \<open>src/legacy/4.0/kernel32.c\<close>: the functions of
  kernel32 that old systems lack. System calls answer as the arguments say; the values of the
  constants are those of the Windows headers.
\<close>

definition ERROR_OUTOFMEMORY :: nat where "ERROR_OUTOFMEMORY = 14"
definition ERROR_CALL_NOT_IMPLEMENTED :: nat where "ERROR_CALL_NOT_IMPLEMENTED = 120"
definition ERROR_MOD_NOT_FOUND :: nat where "ERROR_MOD_NOT_FOUND = 126"

lemmas kernel_errors = error_codes ERROR_OUTOFMEMORY_def ERROR_CALL_NOT_IMPLEMENTED_def ERROR_MOD_NOT_FOUND_def

section \<open>Comparing strings\<close>

datatype comparison = Failed | Less_than | Equal_to | Greater_than

text \<open>
  The loop over the first characters of the two memories; \<open>None\<close> is a read beyond the end of one
  of them. A string is in memory with its terminator, and a negative count means all of it.
\<close>

fun compare_loop :: "(WCHAR \<Rightarrow> WCHAR) \<Rightarrow> nat \<Rightarrow> wstring \<Rightarrow> wstring \<Rightarrow> comparison option" where
  "compare_loop f 0 as bs = Some Equal_to"
| "compare_loop f (Suc m) (a # as) (b # bs) =
     (if f a < f b then Some Less_than
      else if f a > f b then Some Greater_than
      else compare_loop f m as bs)"
| "compare_loop f (Suc m) as bs = None"

text \<open>If the characters compared are equal, the counts decide.\<close>

definition settle :: "int \<Rightarrow> int \<Rightarrow> comparison option \<Rightarrow> comparison option" where
  "settle n1 n2 r =
     (if r = Some Equal_to
      then Some (if n1 < n2 then Less_than else if n1 > n2 then Greater_than else Equal_to) else r)"

definition CompareStringOrdinal ::
    "(WCHAR \<Rightarrow> WCHAR) \<Rightarrow> wstring option \<Rightarrow> int \<Rightarrow> wstring option \<Rightarrow> int \<Rightarrow> bool \<Rightarrow> comparison option" where
  "CompareStringOrdinal towlower s1 n1 s2 n2 ignore_case =
     (case (s1, s2) of
        (Some s1, Some s2) \<Rightarrow>
          let n1 = (if n1 < 0 then int (length s1) else n1);
              n2 = (if n2 < 0 then int (length s2) else n2);
              m = nat (min n1 n2)
          in settle n1 n2 (compare_loop (if ignore_case then towlower else (\<lambda>c. c)) m (s1 @ [0]) (s2 @ [0]))
      | _ \<Rightarrow> Some Failed)"

section \<open>Opening a file again\<close>

definition VALID_FLAGS :: DWORD where "VALID_FLAGS = 0x5AFFB7"

definition FILE_FLAG_WRITE_THROUGH :: DWORD where "FILE_FLAG_WRITE_THROUGH = 0x80000000"
definition FILE_FLAG_OVERLAPPED :: DWORD where "FILE_FLAG_OVERLAPPED = 0x40000000"
definition FILE_FLAG_NO_BUFFERING :: DWORD where "FILE_FLAG_NO_BUFFERING = 0x20000000"
definition FILE_FLAG_RANDOM_ACCESS :: DWORD where "FILE_FLAG_RANDOM_ACCESS = 0x10000000"
definition FILE_FLAG_SEQUENTIAL_SCAN :: DWORD where "FILE_FLAG_SEQUENTIAL_SCAN = 0x08000000"
definition FILE_FLAG_DELETE_ON_CLOSE :: DWORD where "FILE_FLAG_DELETE_ON_CLOSE = 0x04000000"
definition FILE_FLAG_BACKUP_SEMANTICS :: DWORD where "FILE_FLAG_BACKUP_SEMANTICS = 0x02000000"
definition FILE_FLAG_POSIX_SEMANTICS :: DWORD where "FILE_FLAG_POSIX_SEMANTICS = 0x01000000"
definition FILE_FLAG_OPEN_REPARSE_POINT :: DWORD where "FILE_FLAG_OPEN_REPARSE_POINT = 0x00200000"
definition FILE_FLAG_OPEN_NO_RECALL :: DWORD where "FILE_FLAG_OPEN_NO_RECALL = 0x00100000"
definition SECURITY_CONTEXT_TRACKING :: DWORD where "SECURITY_CONTEXT_TRACKING = 0x00040000"
definition SECURITY_EFFECTIVE_ONLY :: DWORD where "SECURITY_EFFECTIVE_ONLY = 0x00080000"
definition SECURITY_SQOS_PRESENT :: DWORD where "SECURITY_SQOS_PRESENT = 0x00100000"

definition FILE_WRITE_THROUGH :: DWORD where "FILE_WRITE_THROUGH = 0x2"
definition FILE_SEQUENTIAL_ONLY :: DWORD where "FILE_SEQUENTIAL_ONLY = 0x4"
definition FILE_NO_INTERMEDIATE_BUFFERING :: DWORD where "FILE_NO_INTERMEDIATE_BUFFERING = 0x8"
definition FILE_SYNCHRONOUS_IO_NONALERT :: DWORD where "FILE_SYNCHRONOUS_IO_NONALERT = 0x20"
definition FILE_NON_DIRECTORY_FILE :: DWORD where "FILE_NON_DIRECTORY_FILE = 0x40"
definition FILE_RANDOM_ACCESS :: DWORD where "FILE_RANDOM_ACCESS = 0x800"
definition FILE_DELETE_ON_CLOSE :: DWORD where "FILE_DELETE_ON_CLOSE = 0x1000"
definition FILE_OPEN_FOR_BACKUP_INTENT :: DWORD where "FILE_OPEN_FOR_BACKUP_INTENT = 0x4000"
definition FILE_OPEN_NO_RECALL :: DWORD where "FILE_OPEN_NO_RECALL = 0x00400000"
definition DELETE :: DWORD where "DELETE = 0x00010000"
definition SYNCHRONIZE :: DWORD where "SYNCHRONIZE = 0x00100000"
definition FILE_READ_ATTRIBUTES :: DWORD where "FILE_READ_ATTRIBUTES = 0x80"
definition OBJ_CASE_INSENSITIVE :: DWORD where "OBJ_CASE_INSENSITIVE = 0x40"

lemmas file_flags = VALID_FLAGS_def FILE_FLAG_WRITE_THROUGH_def FILE_FLAG_OVERLAPPED_def
  FILE_FLAG_NO_BUFFERING_def FILE_FLAG_RANDOM_ACCESS_def FILE_FLAG_SEQUENTIAL_SCAN_def
  FILE_FLAG_DELETE_ON_CLOSE_def FILE_FLAG_BACKUP_SEMANTICS_def FILE_FLAG_POSIX_SEMANTICS_def
  FILE_FLAG_OPEN_REPARSE_POINT_def FILE_FLAG_OPEN_NO_RECALL_def SECURITY_SQOS_PRESENT_def

lemmas create_options = FILE_WRITE_THROUGH_def FILE_SEQUENTIAL_ONLY_def FILE_NO_INTERMEDIATE_BUFFERING_def
  FILE_SYNCHRONOUS_IO_NONALERT_def FILE_NON_DIRECTORY_FILE_def FILE_RANDOM_ACCESS_def
  FILE_DELETE_ON_CLOSE_def FILE_OPEN_FOR_BACKUP_INTENT_def FILE_OPEN_NO_RECALL_def

text \<open>What \<open>NtCreateFile\<close> is asked: the access, the sharing, the options, the attributes of
  the object, and the level, the tracking and the restriction of the impersonation.\<close>

record create_request =
  access :: DWORD
  share :: DWORD
  options :: DWORD
  object_attributes :: DWORD
  impersonation :: "(DWORD \<times> bool \<times> bool) option"

definition set_if :: "bool \<Rightarrow> DWORD \<Rightarrow> DWORD \<Rightarrow> DWORD" where
  "set_if b m x = (if b then x OR m else x)"

definition open_options :: "DWORD \<Rightarrow> DWORD" where
  "open_options flags =
     (let has = (\<lambda>f. flags AND f \<noteq> 0) in
      set_if (has FILE_FLAG_DELETE_ON_CLOSE) FILE_DELETE_ON_CLOSE (
      set_if (has FILE_FLAG_OVERLAPPED) FILE_SYNCHRONOUS_IO_NONALERT (
      set_if (has FILE_FLAG_NO_BUFFERING) FILE_NO_INTERMEDIATE_BUFFERING (
      set_if (has FILE_FLAG_OPEN_REPARSE_POINT) FILE_FLAG_OPEN_REPARSE_POINT (
      set_if (has FILE_FLAG_OPEN_NO_RECALL) FILE_OPEN_NO_RECALL (
      set_if (has FILE_FLAG_BACKUP_SEMANTICS) FILE_OPEN_FOR_BACKUP_INTENT (
      set_if (has FILE_FLAG_RANDOM_ACCESS) FILE_RANDOM_ACCESS (
      set_if (has FILE_FLAG_SEQUENTIAL_SCAN) FILE_SEQUENTIAL_ONLY (
      set_if (has FILE_FLAG_WRITE_THROUGH) FILE_WRITE_THROUGH FILE_NON_DIRECTORY_FILE)))))))))"

text \<open>\<open>create\<close> is the kernel's answer to the request, the error or the handle.\<close>

definition ReOpenFile :: "(create_request \<Rightarrow> nat + nat) \<Rightarrow> DWORD \<Rightarrow> DWORD \<Rightarrow> DWORD \<Rightarrow> nat + nat" where
  "ReOpenFile create desired_access share_mode flags =
     (if flags AND VALID_FLAGS \<noteq> 0 then Inl ERROR_INVALID_PARAMETER
      else create
        \<lparr>access = set_if (flags AND FILE_FLAG_DELETE_ON_CLOSE \<noteq> 0) DELETE desired_access
           OR SYNCHRONIZE OR FILE_READ_ATTRIBUTES,
         share = share_mode,
         options = open_options flags,
         object_attributes = (if flags AND FILE_FLAG_POSIX_SEMANTICS = 0 then OBJ_CASE_INSENSITIVE else 0),
         impersonation = (if flags AND SECURITY_SQOS_PRESENT \<noteq> 0 then
           Some (drop_bit 16 flags AND 3, flags AND SECURITY_CONTEXT_TRACKING \<noteq> 0,
             flags AND SECURITY_EFFECTIVE_ONLY \<noteq> 0) else None)\<rparr>)"

section \<open>File positions and sizes\<close>

definition INVALID_SET_FILE_POINTER :: DWORD where "INVALID_SET_FILE_POINTER = 0xFFFFFFFF"
definition INVALID_FILE_SIZE :: DWORD where "INVALID_FILE_SIZE = 0xFFFFFFFF"

text \<open>
  \<open>SetFilePointer\<close> answers the new position, or an error; it returns the lower half, which is
  \<open>INVALID_SET_FILE_POINTER\<close> on an error, and stores the upper half.
\<close>

definition SetFilePointer :: "nat + ULONGLONG \<Rightarrow> DWORD \<times> DWORD" where
  "SetFilePointer answer =
     (case answer of Inl e \<Rightarrow> (INVALID_SET_FILE_POINTER, 0) | Inr p \<Rightarrow> (ucast p, ucast (drop_bit 32 p)))"

definition SetFilePointerEx :: "(ULONGLONG \<Rightarrow> DWORD \<Rightarrow> nat + ULONGLONG) \<Rightarrow> ULONGLONG \<Rightarrow> DWORD \<Rightarrow> ULONGLONG option" where
  "SetFilePointerEx seek distance move_method =
     (case SetFilePointer (seek distance move_method) of
        (low, high) \<Rightarrow>
          if low = INVALID_SET_FILE_POINTER then None
          else Some (push_bit 32 (ucast high) OR ucast low))"

text \<open>
  \<open>GetFileSize\<close> works alike; the caller tells a size by the last error, which a success leaves as it
  was or clears, as \<open>after\<close> says. \<open>stale\<close> is the error the thread has before.
\<close>

definition GetFileSizeEx :: "(nat \<Rightarrow> nat) \<Rightarrow> nat \<Rightarrow> nat + ULONGLONG \<Rightarrow> ULONGLONG option" where
  "GetFileSizeEx after stale answer =
     (case answer of
        Inl e \<Rightarrow> if e \<noteq> 0 then None else Some (push_bit 32 (ucast (0 :: DWORD)) OR ucast INVALID_FILE_SIZE)
      | Inr n \<Rightarrow>
          let low = ucast n :: DWORD; high = ucast (drop_bit 32 n) :: DWORD in
          if low = INVALID_FILE_SIZE \<and> after stale \<noteq> 0 then None
          else Some (push_bit 32 (ucast high) OR ucast low))"

definition GetProcessId :: "nat + nat \<Rightarrow> DWORD" where
  "GetProcessId query = (case query of Inl status \<Rightarrow> 0 | Inr pid \<Rightarrow> of_nat pid)"

section \<open>Modules\<close>

definition MODULE_FLAGS :: DWORD where "MODULE_FLAGS = 4 OR 2"

text \<open>\<open>query\<close>: whether the address is in a region, whether that is an image, and its base.\<close>

definition GetModuleHandleExW_compat ::
    "(nat \<Rightarrow> (bool \<times> nat) option) \<Rightarrow> DWORD \<Rightarrow> nat \<Rightarrow> bool \<Rightarrow> nat + nat" where
  "GetModuleHandleExW_compat query flags address out =
     (if address = 0 \<or> \<not> out then Inl ERROR_INVALID_PARAMETER
      else if flags \<noteq> MODULE_FLAGS then Inl ERROR_CALL_NOT_IMPLEMENTED
      else case query address of
          None \<Rightarrow> Inl ERROR_MOD_NOT_FOUND
        | Some (is_image, base) \<Rightarrow> if \<not> is_image \<or> base = 0 then Inl ERROR_MOD_NOT_FOUND else Inr base)"

section \<open>Small wrappers\<close>

definition MB_ERR_INVALID_CHARS :: DWORD where "MB_ERR_INVALID_CHARS = 8"

definition MultiByteToWideChar_wrapper :: "(DWORD \<Rightarrow> 'a) \<Rightarrow> DWORD \<Rightarrow> 'a" where
  "MultiByteToWideChar_wrapper convert flags = convert (flags AND NOT MB_ERR_INVALID_CHARS)"

definition CREATE_WAITABLE_TIMER_MANUAL_RESET :: DWORD where "CREATE_WAITABLE_TIMER_MANUAL_RESET = 1"

text \<open>The flag for a high resolution only makes the function complain.\<close>

definition CreateWaitableTimerExW :: "(bool \<Rightarrow> nat option) \<Rightarrow> DWORD \<Rightarrow> nat option" where
  "CreateWaitableTimerExW create flags = create (flags AND CREATE_WAITABLE_TIMER_MANUAL_RESET \<noteq> 0)"

definition FindFirstFileExW_wrapper :: "(nat \<Rightarrow> nat + 'a) \<Rightarrow> nat \<Rightarrow> nat + 'a" where
  "FindFirstFileExW_wrapper find_first level = (if level > 1 then Inl ERROR_INVALID_PARAMETER else find_first 0)"

definition InitializeCriticalSectionEx_compat :: "(nat \<Rightarrow> bool) \<Rightarrow> nat \<Rightarrow> nat \<Rightarrow> bool" where
  "InitializeCriticalSectionEx_compat init spin flags = init spin"

section \<open>Waiting for an object\<close>

text \<open>
  A registered wait is a context block, an event to cancel it and a thread. \<open>Registering\<close> answers in
  one step; the thread and the call that unregisters the wait then run side by side. The thread
  reads the context when it starts and when its wait is over, and \<open>safe\<close> becomes false if the
  context is gone then.
\<close>

datatype wait_pc = Starting | Waiting | In_callback bool | Ended
datatype unregister_pc = Registered | Joining | Released

datatype completion = No_event | Invalid_event | Event

record wait =
  thread :: wait_pc
  caller :: unregister_pc
  cancelled :: bool
  context_live :: bool
  event_open :: bool
  thread_open :: bool
  notify :: bool
  notified :: bool
  calls :: "bool list"
  inside :: bool
  safe :: bool

definition WT_EXECUTEONLYONCE :: DWORD where "WT_EXECUTEONLYONCE = 8"

text \<open>
  \<open>usable\<close>: the handle is neither null nor the pseudo handle of the process or the thread, and there
  is a callback. The resources kept are the context and the event.
\<close>

definition RegisterWaitForSingleObject_compat ::
    "bool \<Rightarrow> DWORD \<Rightarrow> bool \<Rightarrow> bool \<Rightarrow> bool \<Rightarrow> nat + wait" where
  "RegisterWaitForSingleObject_compat usable flags memory event started =
     (if \<not> usable then Inl ERROR_INVALID_PARAMETER
      else if flags AND WT_EXECUTEONLYONCE = 0 then Inl ERROR_NOT_SUPPORTED
      else if \<not> memory then Inl ERROR_OUTOFMEMORY
      else if \<not> event then Inl 0
      else if \<not> started then Inl 0
      else Inr \<lparr>thread = Starting, caller = Registered, cancelled = False, context_live = True, event_open = True,
        thread_open = True, notify = False, notified = False, calls = [], inside = False, safe = True\<rparr>)"

definition reads_context :: "wait_pc \<Rightarrow> wait \<Rightarrow> wait" where
  "reads_context pc s = s\<lparr>thread := pc, safe := safe s \<and> context_live s\<rparr>"

text \<open>
  \<open>UnregisterWaitEx\<close>: a null handle and the completion event \<open>INVALID_HANDLE_VALUE\<close> are refused; else
  the event is set, and once the thread has ended both handles are closed, the completion event is
  set if there is one, and the context is freed.
\<close>

definition UnregisterWaitEx_compat :: "bool \<Rightarrow> completion \<Rightarrow> wait \<Rightarrow> bool \<times> wait" where
  "UnregisterWaitEx_compat handle event s =
     (if \<not> handle then (False, s)
      else if event = Invalid_event then (False, s)
      else (True, s\<lparr>caller := Joining, cancelled := True, notify := (event = Event)\<rparr>))"

definition release_wait :: "wait \<Rightarrow> wait" where
  "release_wait s = s\<lparr>caller := Released, event_open := False, thread_open := False,
     notified := notify s, context_live := False\<rparr>"

definition UnregisterWait_compat :: "bool \<Rightarrow> wait \<Rightarrow> bool \<times> wait" where
  "UnregisterWait_compat handle s = UnregisterWaitEx_compat handle No_event s"

inductive wait_step :: "wait \<Rightarrow> wait \<Rightarrow> bool" where
  starts: "thread s = Starting \<Longrightarrow> wait_step s (reads_context Waiting s)"
| signalled: "thread s = Waiting \<Longrightarrow> wait_step s (reads_context (In_callback False) s)"
| times_out: "thread s = Waiting \<Longrightarrow> wait_step s (reads_context (In_callback True) s)"
| stops: "thread s = Waiting \<Longrightarrow> cancelled s \<Longrightarrow> wait_step s (s\<lparr>thread := Ended\<rparr>)"
| wait_fails: "thread s = Waiting \<Longrightarrow> wait_step s (s\<lparr>thread := Ended\<rparr>)"
| returns: "thread s = In_callback b \<Longrightarrow> \<not> inside s \<Longrightarrow>
    wait_step s (s\<lparr>thread := Ended, calls := calls s @ [b]\<rparr>)"
| unregister: "caller s = Registered \<Longrightarrow> wait_step s (snd (UnregisterWaitEx_compat h i s))"
| unregister_inside: "caller s = Registered \<Longrightarrow> thread s = In_callback b \<Longrightarrow>
    UnregisterWaitEx_compat h i s = (True, s') \<Longrightarrow> wait_step s (s'\<lparr>inside := True\<rparr>)"
| release: "caller s = Joining \<Longrightarrow> thread s = Ended \<Longrightarrow> wait_step s (release_wait s)"

inductive_cases wait_stepE: "wait_step s s'"

definition registered :: "wait \<Rightarrow> bool" where
  "registered s \<longleftrightarrow> RegisterWaitForSingleObject_compat True WT_EXECUTEONLYONCE True True True = Inr s"

definition wait_ok :: "wait \<Rightarrow> bool" where
  "wait_ok s \<longleftrightarrow> safe s \<and>
     (context_live s \<longleftrightarrow> caller s \<noteq> Released) \<and> (event_open s \<longleftrightarrow> caller s \<noteq> Released) \<and>
     (thread_open s \<longleftrightarrow> caller s \<noteq> Released) \<and>
     (caller s = Released \<longrightarrow> thread s = Ended) \<and>
     length (calls s) \<le> 1 \<and> (thread s \<noteq> Ended \<longrightarrow> calls s = []) \<and>
     (notified s \<longleftrightarrow> caller s = Released \<and> notify s) \<and>
     (inside s \<longrightarrow> caller s = Joining \<and> (\<exists>b. thread s = In_callback b))"

interpretation waits: step_invariant registered wait_step wait_ok
proof unfold_locales
  show "wait_ok s" if "registered s" for s
    using that by (auto simp: registered_def wait_ok_def RegisterWaitForSingleObject_compat_def WT_EXECUTEONLYONCE_def)
  show "wait_ok s'" if "wait_ok s" "wait_step s s'" for s s'
    using that(2,1)
    by (cases rule: wait_step.cases)
      (auto simp: wait_ok_def reads_context_def release_wait_def UnregisterWaitEx_compat_def split: if_splits)
qed

text \<open>Waiting for itself: once a callback has unregistered its own wait, nothing moves any more.\<close>

interpretation self_join: step_invariant "\<lambda>s. wait_ok s \<and> inside s" wait_step "\<lambda>s. wait_ok s \<and> inside s"
proof unfold_locales
  show "wait_ok s' \<and> inside s'" if "wait_ok s \<and> inside s" "wait_step s s'" for s s'
    using that(2,1) waits.inv_step [of s s']
    by (cases rule: wait_step.cases)
      (auto simp: wait_ok_def reads_context_def release_wait_def UnregisterWaitEx_compat_def split: if_splits)
qed simp

text \<open>
  C29: however the waiting thread and the call that unregisters it interleave, the thread never
  reads a freed context, the callback runs at most once, and when the call has returned the
  thread has ended, the context and both handles are gone, and the completion event is set if
  there is one.
\<close>

theorem wait_lifecycle:
  assumes "reach registered wait_step s"
  shows "safe s \<and> length (calls s) \<le> 1 \<and>
    (if caller s = Released then thread s = Ended \<and> \<not> context_live s \<and> \<not> event_open s \<and> \<not> thread_open s
     else context_live s \<and> event_open s \<and> thread_open s) \<and>
    (notified s \<longleftrightarrow> caller s = Released \<and> notify s)"
  using waits.reach_inv [OF assms] by (simp add: wait_ok_def)

text \<open>
  A callback that unregisters its own wait waits for its own thread: from then on the call
  never returns and the thread never ends.
\<close>

lemma unregister_in_callback_hangs:
  assumes "reach registered wait_step s" "inside s" "reach (\<lambda>u. u = s) wait_step s'"
  shows "caller s' = Joining \<and> (\<exists>b. thread s' = In_callback b)"
proof -
  have "wait_ok s \<and> inside s" using waits.reach_inv [OF assms(1)] assms(2) by simp
  have "reach (\<lambda>s. wait_ok s \<and> inside s) wait_step s'"
    using assms(3) by induction (auto intro: reach.intros simp: \<open>wait_ok s \<and> inside s\<close>)
  then have "wait_ok s' \<and> inside s'" by (rule self_join.reach_inv)
  then show ?thesis by (simp add: wait_ok_def)
qed

definition wait_start :: wait where
  "wait_start = \<lparr>thread = Starting, caller = Registered, cancelled = False, context_live = True, event_open = True,
     thread_open = True, notify = False, notified = False, calls = [], inside = False, safe = True\<rparr>"

lemma reach_in_callback: "reach registered wait_step (wait_start\<lparr>thread := In_callback False\<rparr>)"
proof -
  have "reach registered wait_step wait_start"
    by (rule reach_init)
      (simp add: registered_def wait_start_def RegisterWaitForSingleObject_compat_def WT_EXECUTEONLYONCE_def)
  then have "reach registered wait_step (reads_context Waiting wait_start)"
    by (rule reach_step) (rule starts, simp add: wait_start_def)
  then have "reach registered wait_step (reads_context (In_callback False) (reads_context Waiting wait_start))"
    by (rule reach_step) (rule signalled, simp add: wait_start_def reads_context_def)
  then show ?thesis by (simp add: wait_start_def reads_context_def)
qed

theorem wait_lifecycle_witness:
  "safe (wait_start\<lparr>thread := In_callback False\<rparr>) \<and> context_live (wait_start\<lparr>thread := In_callback False\<rparr>)"
  using wait_lifecycle [OF reach_in_callback] by (simp add: wait_start_def)

definition self_joining :: wait where
  "self_joining = wait_start\<lparr>thread := In_callback False, caller := Joining, cancelled := True, inside := True\<rparr>"

lemma reach_self_joining: "reach registered wait_step self_joining"
proof -
  have "wait_step (wait_start\<lparr>thread := In_callback False\<rparr>)
      ((snd (UnregisterWaitEx_compat True No_event (wait_start\<lparr>thread := In_callback False\<rparr>)))\<lparr>inside := True\<rparr>)"
    by (rule unregister_inside [of _ False True No_event]) (simp_all add: wait_start_def UnregisterWaitEx_compat_def)
  with reach_in_callback show ?thesis
    using reach_step by (fastforce simp: self_joining_def UnregisterWaitEx_compat_def wait_start_def)
qed

lemma unregister_in_callback_hangs_witness: "caller self_joining = Joining \<and> (\<exists>b. thread self_joining = In_callback b)"
proof -
  have "inside self_joining" by (simp add: self_joining_def)
  with unregister_in_callback_hangs [OF reach_self_joining] reach_init [of "\<lambda>u. u = self_joining" self_joining wait_step]
  show ?thesis by blast
qed

section \<open>What comparing, opening and seeking promise\<close>

lemma compare_prefix:
  "settle (int (length as)) (int (length bs)) (compare_loop f (min (length as) (length bs)) (as @ u) (bs @ v)) =
   Some (if map f as = map f bs then Equal_to
     else if ord_class.lexordp (map f as) (map f bs) then Less_than else Greater_than)"
proof (induction as arbitrary: bs)
  case Nil
  show ?case by (cases bs) (simp_all add: settle_def)
next
  case (Cons a as)
  show ?case
  proof (cases bs)
    case Nil
    then show ?thesis by (simp add: settle_def)
  next
    case bs: (Cons b bs')
    have "settle (int (Suc m)) (int (Suc n)) r = settle (int m) (int n) r" for m n r
      by (simp add: settle_def)
    then have lengths: "settle (1 + int m) (1 + int n) r = settle (int m) (int n) r" for m n r by simp
    consider "f a < f b" | "f b < f a" | "f a = f b" by (meson linorder_less_linear)
    then show ?thesis
    proof cases
      case 1
      then show ?thesis using bs by (auto simp: settle_def)
    next
      case 2
      then show ?thesis using bs by (auto simp: settle_def)
    next
      case 3
      then show ?thesis using Cons.IH [of bs'] bs by (simp add: lengths)
    qed
  qed
qed

definition given_chars :: "wstring \<Rightarrow> int \<Rightarrow> wstring" where
  "given_chars s n = (if n < 0 then s else take (nat n) s)"

lemma given_chars_split:
  "n \<le> int (length s) \<Longrightarrow> \<exists>u. s @ [0] = given_chars s n @ u"
  "n \<le> int (length s) \<Longrightarrow> int (length (given_chars s n)) = (if n < 0 then int (length s) else n)"
proof -
  show "\<exists>u. s @ [0] = given_chars s n @ u" by (metis append_assoc append_take_drop_id given_chars_def)
  show "n \<le> int (length s) \<Longrightarrow> int (length (given_chars s n)) = (if n < 0 then int (length s) else n)"
    by (simp add: given_chars_def)
qed

text \<open>
  For counts within the strings, \<open>CompareStringOrdinal\<close> is the lexicographic order of the
  characters given, folded to lower case if asked, in which a proper prefix comes first.
\<close>

lemma compare_ordinal_lexicographic:
  assumes "n1 \<le> int (length s)" "n2 \<le> int (length t)"
    and "f = (if ignore_case then towlower else (\<lambda>c. c))"
    and "as = map f (given_chars s n1)" "bs = map f (given_chars t n2)"
  shows "CompareStringOrdinal towlower (Some s) n1 (Some t) n2 ignore_case =
    Some (if as = bs then Equal_to else if ord_class.lexordp as bs then Less_than else Greater_than)"
proof -
  obtain u where u: "s @ [0] = given_chars s n1 @ u" using given_chars_split(1) [OF assms(1)] by blast
  obtain v where v: "t @ [0] = given_chars t n2 @ v" using given_chars_split(1) [OF assms(2)] by blast
  note len = given_chars_split(2) [OF assms(1)] given_chars_split(2) [OF assms(2)]
  have m: "nat (min (int (length (given_chars s n1))) (int (length (given_chars t n2)))) =
      min (length (given_chars s n1)) (length (given_chars t n2))"
    by linarith
  have "CompareStringOrdinal towlower (Some s) n1 (Some t) n2 ignore_case =
      settle (int (length (given_chars s n1))) (int (length (given_chars t n2)))
        (compare_loop f (min (length (given_chars s n1)) (length (given_chars t n2)))
          (given_chars s n1 @ u) (given_chars t n2 @ v))"
    unfolding CompareStringOrdinal_def prod.case option.case Let_def assms(3) [symmetric] u v len [symmetric] m ..
  then show ?thesis unfolding compare_prefix assms(4,5) .
qed

lemma set_if_mask:
  "m AND k = 0 \<Longrightarrow> set_if b m x AND k = x AND k"
  "m AND k = k \<Longrightarrow> set_if b m x AND k = (if b then k else x AND k)"
  by (auto simp: set_if_def bit.conj_disj_distrib2 bit_eq_iff bit_simps)

lemma forbidden_bits: "flags AND VALID_FLAGS = 0 \<Longrightarrow> m AND VALID_FLAGS = m \<Longrightarrow> flags AND m = 0"
proof -
  assume f: "flags AND VALID_FLAGS = 0" and m: "m AND VALID_FLAGS = m"
  have "flags AND m = flags AND (VALID_FLAGS AND m)" using m by (simp add: and.commute)
  also have "\<dots> = (flags AND VALID_FLAGS) AND m" by (rule and.assoc [symmetric])
  finally show ?thesis using f by simp
qed

text \<open>
  For flags that are accepted, the file is opened for synchronous use exactly if overlapped use
  is asked for, which is the wrong way round; the branches for security flags and for leaving
  remote files where they are can never be taken, since their flag is refused.
\<close>

lemma reopen_flags:
  assumes "flags AND VALID_FLAGS = 0"
  shows "\<exists>r. ReOpenFile create desired share_mode flags = create r \<and> share r = share_mode \<and>
    impersonation r = None \<and> options r AND FILE_OPEN_NO_RECALL = 0 \<and>
    (options r AND FILE_SYNCHRONOUS_IO_NONALERT \<noteq> 0 \<longleftrightarrow> flags AND FILE_FLAG_OVERLAPPED \<noteq> 0) \<and>
    (options r AND FILE_DELETE_ON_CLOSE \<noteq> 0 \<longleftrightarrow> flags AND FILE_FLAG_DELETE_ON_CLOSE \<noteq> 0) \<and>
    (access r AND DELETE \<noteq> 0 \<longleftrightarrow> desired AND DELETE \<noteq> 0 \<or> flags AND FILE_FLAG_DELETE_ON_CLOSE \<noteq> 0)"
proof -
  have dead: "flags AND FILE_FLAG_OPEN_NO_RECALL = 0" "flags AND SECURITY_SQOS_PRESENT = 0"
    by (rule forbidden_bits [OF assms], simp add: file_flags)+
  have "open_options flags AND FILE_OPEN_NO_RECALL = 0"
    unfolding open_options_def Let_def dead(1) by (simp add: set_if_mask create_options file_flags)
  moreover have "open_options flags AND FILE_SYNCHRONOUS_IO_NONALERT \<noteq> 0 \<longleftrightarrow> flags AND FILE_FLAG_OVERLAPPED \<noteq> 0"
    unfolding open_options_def Let_def dead(1) by (simp add: set_if_mask create_options file_flags)
  moreover have "open_options flags AND FILE_DELETE_ON_CLOSE \<noteq> 0 \<longleftrightarrow> flags AND FILE_FLAG_DELETE_ON_CLOSE \<noteq> 0"
    unfolding open_options_def Let_def dead(1) by (simp add: set_if_mask create_options file_flags)
  moreover have "(set_if b DELETE desired OR SYNCHRONIZE OR FILE_READ_ATTRIBUTES) AND DELETE = set_if b DELETE desired AND DELETE" for b
    by (simp add: bit.conj_disj_distrib2 DELETE_def SYNCHRONIZE_def FILE_READ_ATTRIBUTES_def)
  moreover have "set_if b DELETE desired AND DELETE \<noteq> 0 \<longleftrightarrow> desired AND DELETE \<noteq> 0 \<or> b" for b
    by (simp add: set_if_mask DELETE_def)
  moreover let ?b = "flags AND FILE_FLAG_DELETE_ON_CLOSE \<noteq> 0"
  let ?r = "\<lparr>access = set_if ?b DELETE desired OR SYNCHRONIZE OR FILE_READ_ATTRIBUTES, share = share_mode,
    options = open_options flags,
    object_attributes = (if flags AND FILE_FLAG_POSIX_SEMANTICS \<noteq> 0 then 0 else OBJ_CASE_INSENSITIVE), impersonation = None\<rparr>"
  have "ReOpenFile create desired share_mode flags = create ?r"
    using assms dead by (simp add: ReOpenFile_def)
  ultimately show ?thesis by (intro exI [of _ ?r]) simp
qed

lemma halves: "push_bit 32 (ucast (ucast (drop_bit 32 p) :: DWORD)) OR ucast (ucast p :: DWORD) = (p :: ULONGLONG)"
  by (rule bit_eqI) (auto simp: bit_simps not_less)

text \<open>
  \<open>SetFilePointerEx\<close> reports a failure although the file has moved if the lower half of the new
  position is all ones; \<open>GetFileSizeEx\<close> knows that case, but only tells it from a failure if the
  thread had no error before or success clears it. In all other cases they give the whole value.
\<close>

lemma position_and_size:
  "SetFilePointerEx (\<lambda>_ _. Inr p) distance how = (if ucast p = (0xFFFFFFFF :: DWORD) then None else Some p)"
  "GetFileSizeEx after stale (Inr p) =
    (if ucast p = (0xFFFFFFFF :: DWORD) \<and> after stale \<noteq> 0 then None else Some p)"
  by (simp_all add: SetFilePointerEx_def SetFilePointer_def GetFileSizeEx_def INVALID_SET_FILE_POINTER_def
      INVALID_FILE_SIZE_def halves Let_def)

lemma compare_ordinal_lexicographic_witness:
  "CompareStringOrdinal (\<lambda>c. c) (Some (W ''abc'')) 2 (Some (W ''abd'')) (- 1) False = Some Less_than"
proof -
  have "CompareStringOrdinal (\<lambda>c. c) (Some (W ''abc'')) 2 (Some (W ''abd'')) (- 1) False =
    Some (if map (\<lambda>c. c) (given_chars (W ''abc'') 2) = map (\<lambda>c. c) (given_chars (W ''abd'') (- 1)) then Equal_to
      else if ord_class.lexordp (map (\<lambda>c. c) (given_chars (W ''abc'') 2)) (map (\<lambda>c. c) (given_chars (W ''abd'') (- 1)))
        then Less_than else Greater_than)"
    by (rule compare_ordinal_lexicographic [where f = "\<lambda>c. c"]) simp_all
  then show ?thesis by (simp add: given_chars_def numeral_2_eq_2)
qed

lemma reopen_flags_witness:
  "\<exists>r :: create_request. ReOpenFile (\<lambda>r. Inr 4) 0 0 FILE_FLAG_OVERLAPPED = Inr 4 \<and> options r AND FILE_SYNCHRONOUS_IO_NONALERT \<noteq> 0"
proof -
  have "FILE_FLAG_OVERLAPPED AND VALID_FLAGS = 0" by (simp add: file_flags)
  note t = reopen_flags [OF this, of "\<lambda>r. Inr 4" 0 0]
  have "FILE_FLAG_OVERLAPPED AND FILE_FLAG_OVERLAPPED \<noteq> 0" by (simp add: file_flags)
  with t show ?thesis by blast
qed

end
