(* ===== verification/Crashdump.thy ===== *)
theory Crashdump
  imports Prelude
begin

text \<open>
  Model of \<open>src/helpers/crashdump.c\<close>, which writes a dump of a crashed process and scrambles it so
  that it is not reported itself, and of \<open>tools/unscrambler.c\<close>, which restores it. The system calls
  answer as the environment says; open handles are a set, files are a map from paths to bytes.
\<close>

section \<open>Scrambling\<close>

text \<open>Both programs change the mapped file byte by byte.\<close>

function xor_loop :: "nat \<Rightarrow> nat \<Rightarrow> BYTE list \<Rightarrow> BYTE list" where
  "xor_loop i n bs = (if i < n then xor_loop (i + 1) n (bs[i := bs ! i XOR 42]) else bs)"
  by auto
termination by (relation "measure (\<lambda>(i, n, _). n - i)") auto

declare xor_loop.simps [simp del]

lemma xor_loop_map: "i \<le> length bs \<Longrightarrow> xor_loop i (length bs) bs = take i bs @ map (\<lambda>b. b XOR 42) (drop i bs)"
proof (induction "length bs - i" arbitrary: i bs)
  case 0
  then show ?case by (simp add: xor_loop.simps [of i])
next
  case (Suc k)
  let ?bs = "bs[i := bs ! i XOR 42]"
  have i: "i < length bs" using Suc.hyps(2) by simp
  have "xor_loop i (length bs) bs = xor_loop (i + 1) (length ?bs) ?bs"
    using i by (simp add: xor_loop.simps [of i])
  also have "\<dots> = take (i + 1) ?bs @ map (\<lambda>b. b XOR 42) (drop (i + 1) ?bs)"
    using Suc.hyps i by (intro Suc.hyps(1)) simp_all
  also have "take (i + 1) ?bs = take i bs @ [bs ! i XOR 42]"
    using i by (simp add: take_Suc_conv_app_nth)
  also have "drop (i + 1) ?bs = drop (i + 1) bs" by simp
  finally show ?case using i by (simp add: Cons_nth_drop_Suc [symmetric])
qed

lemma xor_loop_all: "xor_loop 0 (length bs) bs = map (\<lambda>b. b XOR 42) bs"
  using xor_loop_map [of 0 bs] by simp

lemma xor_twice: "xor_loop 0 (length bs) (xor_loop 0 (length bs) bs) = bs"
proof -
  have "xor_loop 0 (length bs) (map (\<lambda>b. b XOR 42) bs) = map (\<lambda>b. b XOR 42) (map (\<lambda>b. b XOR 42) bs)"
    by (metis length_map xor_loop_all)
  then show ?thesis by (simp add: xor_loop_all comp_def xor.assoc)
qed

section \<open>The name of the dump\<close>

text \<open>\<open>%08lx\<close>: eight lower-case hexadecimal digits.\<close>

definition hex_digit :: "nat \<Rightarrow> WCHAR" where
  "hex_digit d = of_nat (if d < 10 then 48 + d else 87 + d)"

definition hex8 :: "DWORD \<Rightarrow> wstring" where
  "hex8 n = map (\<lambda>i. hex_digit (unat (drop_bit (4 * (7 - i)) n AND 15))) [0..<8]"

lemma no_nul_hex8: "no_nul (hex8 n)"
proof -
  have "hex_digit (unat (m AND (15 :: DWORD))) \<noteq> 0" for m
  proof -
    have "unat (m AND (15 :: DWORD)) \<le> 15" using word_and_le1 [of m 15] by (simp add: word_le_nat_alt)
    moreover have "hex_digit d \<noteq> 0" if "d \<le> 15" for d
      using that unat_of_nat_small [where ?'a = 16, of "48 + d"] unat_of_nat_small [where ?'a = 16, of "87 + d"]
      by (auto simp: hex_digit_def word_unat_eq_iff)
    ultimately show ?thesis by blast
  qed
  then show ?thesis by (auto simp: no_nul_def hex8_def)
qed

text \<open>The characters after the last backslash, if there is one.\<close>

definition after_slash :: "wstring \<Rightarrow> wstring option" where
  "after_slash s = (if backslash \<in> set s then Some (rev (takeWhile (\<lambda>c. c \<noteq> backslash) (rev s))) else None)"

definition dump_leaf :: "wstring \<Rightarrow> DWORD \<Rightarrow> wstring" where
  "dump_leaf executable pid =
     (case after_slash executable of None \<Rightarrow> W ''Unknown'' | Some s \<Rightarrow> s) @ W ''.'' @ hex8 pid @ W ''.dmp''"

text \<open>
  The name is printed behind the directory for temporary files, with room for \<open>MAX_PATH\<close> less its
  length; then a terminator is written at that number less one, counted from the start. \<open>m\<close> is
  \<open>MAX_PATH\<close>, which is 260 in builds for Windows XP and 4096 in others.
\<close>

definition dump_name :: "nat \<Rightarrow> wstring \<Rightarrow> wstring \<Rightarrow> DWORD \<Rightarrow> wstring" where
  "dump_name m temp executable pid =
     (let n = length temp;
          printed = temp @ take (m - n) (dump_leaf executable pid);
          buf = printed @ replicate (m + 1 - length printed) 0
      in cstr (buf[m - n - 1 := 0]))"

section \<open>Writing the dump\<close>

datatype resource = Dll | File | Mapping | View

record dump_env =
  max_path :: nat
  temp_path :: wstring
  module_file :: "wstring option"
  process_id :: DWORD
  has_dll :: bool
  has_writer :: bool
  creates :: "wstring \<Rightarrow> bool"
  minidump :: "BYTE list option"
  maps :: bool
  views :: bool
  informs :: bool

record dump_state =
  files :: "wstring \<Rightarrow> BYTE list option"
  held :: "resource set"

definition executable_name :: "dump_env \<Rightarrow> wstring" where
  "executable_name env = (case module_file env of None \<Rightarrow> W ''Unknown module'' | Some s \<Rightarrow> s)"

definition cleanup :: "dump_state \<Rightarrow> dump_state" where
  "cleanup s = s\<lparr>held := held s - {View, Mapping, File, Dll}\<rparr>"

definition acquire :: "resource \<Rightarrow> dump_state \<Rightarrow> dump_state" where
  "acquire r s = s\<lparr>held := insert r (held s)\<rparr>"

text \<open>The part that is compiled with \<open>SCRAMBLE_CRASH_DUMP\<close>; the result is whether it succeeded.\<close>

definition scramble_file :: "dump_env \<Rightarrow> wstring \<Rightarrow> dump_state \<Rightarrow> bool \<times> dump_state" where
  "scramble_file env f s =
     (if \<not> maps env then (False, s)
      else let s = acquire Mapping s in
        if \<not> views env then (False, s)
        else let s = acquire View s in
          if \<not> informs env then (False, s)
          else (True, s\<lparr>files := (files s)(f := map_option (\<lambda>bs. xor_loop 0 (length bs) bs) (files s f))\<rparr>))"

definition CrashMiniDumpWriteDumpProc :: "bool \<Rightarrow> dump_env \<Rightarrow> dump_state \<Rightarrow> nat \<times> dump_state" where
  "CrashMiniDumpWriteDumpProc scramble env s =
     (let f = dump_name (max_path env) (temp_path env) (executable_name env) (process_id env) in
      if \<not> has_dll env then (1, s)
      else let s = acquire Dll s in
        if \<not> has_writer env then (1, cleanup s)
        else if \<not> creates env f then (1, cleanup s)
        else let s = (acquire File s)\<lparr>files := (files s)(f \<mapsto> [])\<rparr> in
          case minidump env of
            None \<Rightarrow> (1, cleanup s)
          | Some bs \<Rightarrow>
              let s = s\<lparr>files := (files s)(f \<mapsto> bs)\<rparr> in
              if \<not> scramble then (0, cleanup s)
              else case scramble_file env f s of
                  (True, s) \<Rightarrow> (0, cleanup s)
                | (False, s) \<Rightarrow> (1, cleanup s))"

text \<open>
  The filter runs it in a thread of its own and then always has the handler executed; it shows the
  result of the thread, or all ones if waiting for it fails. \<open>None\<close> is the abort.
\<close>

definition EXCEPTION_EXECUTE_HANDLER :: LONG where "EXCEPTION_EXECUTE_HANDLER = 1"

definition CrashHandlerExceptionFilter ::
    "bool \<Rightarrow> bool \<Rightarrow> bool \<Rightarrow> dump_env \<Rightarrow> dump_state \<Rightarrow> (LONG \<times> DWORD \<times> dump_state) option" where
  "CrashHandlerExceptionFilter spawns waits scramble env s =
     (if \<not> spawns then None
      else case CrashMiniDumpWriteDumpProc scramble env s of
          (r, s) \<Rightarrow> Some (EXCEPTION_EXECUTE_HANDLER, if waits then of_nat r else - 1, s))"

section \<open>Restoring the dump\<close>

definition scrambled_magic :: "BYTE list" where "scrambled_magic = [103, 110, 103, 122]"

definition magic :: "BYTE list" where "magic = [77, 68, 77, 80]"

text \<open>A missing file is created; an empty one cannot be mapped.\<close>

definition unscrambler :: "dump_env \<Rightarrow> wstring list \<Rightarrow> dump_state \<Rightarrow> int \<times> dump_state" where
  "unscrambler env argv s =
     (case argv of
        [program, f] \<Rightarrow>
          if \<not> creates env f then (- 1, s)
          else let bs = (case files s f of None \<Rightarrow> [] | Some bs \<Rightarrow> bs);
                   s = s\<lparr>files := (files s)(f \<mapsto> bs)\<rparr> in
            if bs = [] \<or> \<not> maps env \<or> \<not> views env then (- 1, s)
            else if take 4 bs = scrambled_magic
            then (0, s\<lparr>files := (files s)(f \<mapsto> xor_loop 0 (length bs) bs)\<rparr>)
            else (0, s)
      | _ \<Rightarrow> (- 1, s))"

text \<open>Scrambling and restoring the bytes are a codec of the dumps, which start with their mark.\<close>

definition scramble_bytes :: "BYTE list \<Rightarrow> BYTE list" where
  "scramble_bytes bs = xor_loop 0 (length bs) bs"

definition unscramble_bytes :: "BYTE list \<Rightarrow> BYTE list option" where
  "unscramble_bytes bs = (if take 4 bs = scrambled_magic then Some (xor_loop 0 (length bs) bs) else None)"

definition is_dump :: "BYTE list \<Rightarrow> bool" where "is_dump bs \<longleftrightarrow> take 4 bs = magic"

lemma scramble_magic: "is_dump bs \<Longrightarrow> take 4 (scramble_bytes bs) = scrambled_magic"
  by (simp add: is_dump_def scramble_bytes_def xor_loop_all take_map magic_def scrambled_magic_def)

lemma scramble_length [simp]: "length (scramble_bytes bs) = length bs"
  by (simp add: scramble_bytes_def xor_loop_all)

lemma scramble_twice: "scramble_bytes (scramble_bytes bs) = bs"
  using xor_twice [of bs] scramble_length [of bs] by (simp add: scramble_bytes_def)

interpretation dump_codec: codec scramble_bytes unscramble_bytes is_dump
proof unfold_locales
  show "unscramble_bytes (scramble_bytes bs) = Some bs" if "is_dump bs" for bs
  proof -
    have "xor_loop 0 (length bs) (scramble_bytes bs) = bs"
      using scramble_twice [of bs] unfolding scramble_bytes_def [of "scramble_bytes bs"] by simp
    then show ?thesis using scramble_magic [OF that] by (simp add: unscramble_bytes_def)
  qed
qed

lemma unscrambler_bytes:
  assumes "creates env f" "maps env" "views env" "files s f = Some bs" "bs \<noteq> []"
  shows "unscrambler env [p, f] s =
    (0, s\<lparr>files := (files s)(f \<mapsto> case unscramble_bytes bs of None \<Rightarrow> bs | Some cs \<Rightarrow> cs)\<rparr>)"
  using assms by (auto simp: unscrambler_def unscramble_bytes_def Let_def fun_upd_idem)

text \<open>A dump that is scrambled does not look like one, and a restored one not like a scrambled one.\<close>

lemma marks: "is_dump bs \<Longrightarrow> \<not> is_dump (scramble_bytes bs)" "is_dump bs \<Longrightarrow> unscramble_bytes bs = None"
  using scramble_magic [of bs] by (auto simp: is_dump_def magic_def scrambled_magic_def unscramble_bytes_def)

lemma dump_closes: "held s = {} \<Longrightarrow> held (snd (CrashMiniDumpWriteDumpProc scramble env s)) = {}"
  by (auto simp: CrashMiniDumpWriteDumpProc_def Let_def cleanup_def acquire_def scramble_file_def
      split: option.splits prod.splits bool.splits)

section \<open>What the dump promises\<close>

definition all_succeed :: "dump_env \<Rightarrow> bool" where
  "all_succeed env \<longleftrightarrow> has_dll env \<and> has_writer env \<and> (\<forall>f. creates env f) \<and> maps env \<and> views env \<and> informs env"

lemma dump_written:
  assumes "all_succeed env" "minidump env = Some bs"
    and "f = dump_name (max_path env) (temp_path env) (executable_name env) (process_id env)"
  shows "CrashMiniDumpWriteDumpProc True env s =
    (0, s\<lparr>files := (files s)(f \<mapsto> scramble_bytes bs), held := held s - {View, Mapping, File, Dll}\<rparr>)"
  using assms by (auto simp: CrashMiniDumpWriteDumpProc_def all_succeed_def scramble_file_def Let_def
      acquire_def cleanup_def scramble_bytes_def)


lemma cut_buffer:
  assumes "no_nul s" "k < m"
  shows "cstr ((s @ replicate (m - length s) 0)[k := 0]) = take k s"
proof (cases "k < length s")
  case True
  then have "(s @ replicate (m - length s) 0)[k := 0] = take k s @ 0 # drop (Suc k) s @ replicate (m - length s) 0"
    by (simp add: upd_conv_take_nth_drop list_update_append)
  then show ?thesis using assms(1) by simp
next
  case False
  then obtain j where j: "m - length s = Suc j" using assms(2) by (metis Suc_diff_Suc leI less_le_trans)
  have "(s @ replicate (m - length s) 0)[k := 0] = s @ replicate (m - length s) 0"
    using False by (simp add: list_update_append) (metis list_update_id nth_replicate list_update_beyond not_less length_replicate)
  then show ?thesis using assms(1) False j by simp
qed

text \<open>
  The name of the dump is cut to \<open>MAX_PATH\<close> less the length of the temporary directory and one: it is
  whole exactly if the directory counted twice, the last part and the terminator fit \<open>MAX_PATH\<close>.
\<close>

lemma dump_name_cut:
  assumes "no_nul temp" "no_nul (dump_leaf executable pid)" "length temp < m"
  shows "dump_name m temp executable pid = take (m - 1 - length temp) (temp @ dump_leaf executable pid) \<and>
    (dump_name m temp executable pid = temp @ dump_leaf executable pid \<longleftrightarrow>
     2 * length temp + length (dump_leaf executable pid) + 1 \<le> m)"
proof -
  let ?n = "length temp" and ?l = "dump_leaf executable pid"
  have "dump_name m temp executable pid = take (m - ?n - 1) (temp @ take (m - ?n) ?l)"
    using cut_buffer [of "temp @ take (m - ?n) ?l" "m - ?n - 1" "m + 1"] assms
    by (simp add: dump_name_def Let_def)
  also have "\<dots> = take (m - 1 - ?n) (temp @ ?l)" by (simp add: min_def)
  finally have name: "dump_name m temp executable pid = take (m - 1 - ?n) (temp @ ?l)" .
  have "take (m - 1 - ?n) (temp @ ?l) = temp @ ?l \<longleftrightarrow> length (temp @ ?l) \<le> m - 1 - ?n"
    by (metis length_take min_def nle_le take_all_iff)
  also have "\<dots> \<longleftrightarrow> 2 * ?n + length ?l + 1 \<le> m" using assms(3) by auto
  finally show ?thesis using name by simp
qed

definition plain_dump :: dump_env where
  "plain_dump = \<lparr>max_path = 260, temp_path = W ''t'', module_file = Some (W ''a''), process_id = 10, has_dll = True,
     has_writer = True, creates = (\<lambda>_. True), minidump = Some [77, 68, 77, 80, 1], maps = True, views = True,
     informs = True\<rparr>"


lemma dump_name_cut_witness:
  "dump_name 260 (replicate 130 97) (W ''a'') 10 \<noteq> replicate 130 97 @ dump_leaf (W ''a'') 10"
proof -
  have leaf: "no_nul (dump_leaf (W ''a'') 10)"
    using no_nul_hex8 [of 10] by (simp add: dump_leaf_def after_slash_def backslash_def)
  have "no_nul (replicate 130 (97 :: WCHAR))" by (simp add: no_nul_def)
  moreover have "length (replicate 130 (97 :: WCHAR)) < 260" by simp
  moreover have "\<not> 2 * length (replicate 130 (97 :: WCHAR)) + length (dump_leaf (W ''a'') 10) + 1 \<le> 260" by simp
  ultimately show ?thesis using dump_name_cut [OF _ leaf] by blast
qed

end
