(* ===== verification/Sigcheck.thy ===== *)
theory Sigcheck
  imports Prelude
begin

text \<open>
  Model of \<open>src/dllmain/sigcheck.c\<close>: a file found infected is not reported if it is signed, through a
  catalog or in itself, and the issuer of the certificate is trusted. The system calls answer as the
  environment says: \<open>Inl\<close> or \<open>Some\<close> carry the error \<open>GetLastError\<close> reports after a failure. Contexts,
  stores, messages and blocks of memory are counted.
\<close>

section \<open>The environment\<close>

text \<open>What the calls on one signed file answer. Sizes are those asked of \<open>malloc\<close>.\<close>

record cert_env =
  query_object :: "DWORD option"
  signer_size :: "DWORD + nat"
  memory :: "nat \<Rightarrow> DWORD option"
  signer_info :: "DWORD option"
  find_cert :: "DWORD option"
  name_size :: "DWORD + nat"
  issuer_name :: "DWORD + wstring"

text \<open>A file name that did not fit is \<open>None\<close>: its buffer was not written.\<close>

datatype subject = Catalog wstring wstring "wstring option" | Embedded "wstring option"

record sig_env =
  acquire_admin :: "DWORD option"
  calc_hash :: "DWORD + BYTE list"
  final_path :: "DWORD + wstring option"
  catalog :: "BYTE list \<Rightarrow> DWORD option"
  catalog_info :: "DWORD + wstring"
  verify :: "subject \<Rightarrow> LONG"
  certs :: "wstring option \<Rightarrow> cert_env"

record handles =
  stores :: nat
  messages :: nat
  contexts :: nat
  blocks :: nat
  catalogs :: nat
  admins :: nat

definition TRUST_E_NOSIGNATURE :: LONG where "TRUST_E_NOSIGNATURE = 0x800B0100"
definition ERROR_NOT_FOUND :: DWORD where "ERROR_NOT_FOUND = 1168"

section \<open>The issuer\<close>

text \<open>
  The body of the loop that is left by its breaks: the answer, how many certificate contexts and how
  many blocks it has taken.
\<close>

definition issuer_body :: "cert_env \<Rightarrow> bool \<times> nat \<times> nat" where
  "issuer_body env =
     (case signer_info env of Some _ \<Rightarrow> (False, 0, 0)
      | None \<Rightarrow>
     (case find_cert env of Some _ \<Rightarrow> (False, 0, 0)
      | None \<Rightarrow>
     (case name_size env of Inl _ \<Rightarrow> (False, 1, 0)
      | Inr n \<Rightarrow>
     (case memory env (n * 2) of Some _ \<Rightarrow> (False, 1, 0)
      | None \<Rightarrow>
     (case issuer_name env of Inl _ \<Rightarrow> (False, 1, 1)
      | Inr name \<Rightarrow> (take 10 name = W ''Microsoft '', 1, 1))))))"

text \<open>The result is a \<open>bool\<close>: an error code that is returned is true unless it is zero.\<close>

definition isIssuerTrusted :: "cert_env \<Rightarrow> handles \<Rightarrow> bool \<times> handles" where
  "isIssuerTrusted env h =
     (case query_object env of Some e \<Rightarrow> (e \<noteq> 0, h)
      | None \<Rightarrow>
        let h = h\<lparr>stores := stores h + 1, messages := messages h + 1\<rparr> in
        case signer_size env of Inl e \<Rightarrow> (e \<noteq> 0, h)
        | Inr n \<Rightarrow>
          case memory env n of Some e \<Rightarrow> (e \<noteq> 0, h)
          | None \<Rightarrow>
            let h = h\<lparr>blocks := blocks h + 1\<rparr> in
            case issuer_body env of
              (trusted, c, b) \<Rightarrow>
                let h = h\<lparr>contexts := contexts h + c, blocks := blocks h + b\<rparr>;
                    h = h\<lparr>blocks := blocks h - 1\<rparr>;
                    h = h\<lparr>blocks := blocks h - b\<rparr>
                in (trusted, h))"

section \<open>The check\<close>

text \<open>The member tag: the hash in upper-case hexadecimal digits, two for each byte.\<close>

definition hex_char :: "nat \<Rightarrow> WCHAR" where
  "hex_char d = of_nat (if d < 10 then 48 + d else 55 + d)"

definition member_tag :: "BYTE list \<Rightarrow> wstring" where
  "member_tag bs = concat (map (\<lambda>b. [hex_char (unat b div 16), hex_char (unat b mod 16)]) bs)"

text \<open>
  The subject of the verification and the file whose issuer is asked, or the error returned. The
  context of a catalog is given back as soon as its name is known.
\<close>

definition choose_subject ::
    "sig_env \<Rightarrow> BYTE list \<Rightarrow> wstring option \<Rightarrow> handles \<Rightarrow> (LONG + subject \<times> wstring option) \<times> handles" where
  "choose_subject env bs f h =
     (case catalog env bs of
        None \<Rightarrow>
          let h = h\<lparr>catalogs := catalogs h + 1\<rparr>;
              info = catalog_info env;
              h = h\<lparr>catalogs := catalogs h - 1\<rparr>
          in (case info of
                Inl e \<Rightarrow> (Inl e, h)
              | Inr c \<Rightarrow> (Inr (Catalog (member_tag bs) c f, Some c), h))
      | Some e \<Rightarrow> if e \<noteq> ERROR_NOT_FOUND then (Inl e, h) else (Inr (Embedded f, f), h))"

text \<open>The middle component: whether a false positive is announced.\<close>

definition sigcheck :: "sig_env \<Rightarrow> bool \<Rightarrow> handles \<Rightarrow> LONG \<times> bool \<times> handles" where
  "sigcheck env warnfp h =
     (case calc_hash env of Inl e \<Rightarrow> (e, False, h)
      | Inr bs \<Rightarrow>
        case final_path env of Inl e \<Rightarrow> (e, False, h)
        | Inr f \<Rightarrow>
          case choose_subject env bs f h of
            (Inl e, h) \<Rightarrow> (e, False, h)
          | (Inr (subject, file), h) \<Rightarrow>
              case isIssuerTrusted (certs env file) h of
                (trusted, h) \<Rightarrow>
                  let lsigned = verify env subject in
                  if \<not> trusted then (TRUST_E_NOSIGNATURE, False, h)
                  else (lsigned, warnfp \<and> lsigned = 0, h))"

definition cw_sigcheck :: "sig_env \<Rightarrow> bool \<Rightarrow> handles \<Rightarrow> LONG \<times> bool \<times> handles" where
  "cw_sigcheck env warnfp h =
     (case acquire_admin env of
        Some e \<Rightarrow> (e, False, h)
      | None \<Rightarrow>
          case sigcheck env warnfp (h\<lparr>admins := admins h + 1\<rparr>) of
            (r, announced, h) \<Rightarrow> (r, announced, h\<lparr>admins := admins h - 1\<rparr>))"

section \<open>The program that shows the answer\<close>

text \<open>The names of \<open>tools/sigcheck_app.c\<close>, for codes the system has no message for.\<close>

definition fmtfallback :: "LONG \<Rightarrow> string" where
  "fmtfallback code =
     (if code = 0x80096010 then ''TRUST_E_BAD_DIGEST''
      else if code = 0x80092026 then ''CRYPT_E_SECURITY_SETTINGS''
      else if code = 0x800b0001 then ''TRUST_E_PROVIDER_UNKNOWN''
      else if code = 0x800b0003 then ''TRUST_E_SUBJECT_FORM_UNKNOWN''
      else if code = 0x800b0004 then ''TRUST_E_SUBJECT_NOT_TRUSTED''
      else if code = 0x800b0100 then ''TRUST_E_NOSIGNATURE''
      else if code = 0x800b010e then ''CERT_E_REVOCATION_FAILURE''
      else if code = 0x800b0111 then ''TRUST_E_EXPLICIT_DISTRUST''
      else ''UNKNOWN'')"

text \<open>Its message: that of the system, or else the name.\<close>

definition formatmessage :: "(LONG \<Rightarrow> string option) \<Rightarrow> LONG \<Rightarrow> string" where
  "formatmessage system code = (case system code of Some m \<Rightarrow> m | None \<Rightarrow> fmtfallback code)"

text \<open>The exit status and what is shown; \<open>opened\<close>: whether the file can be opened.\<close>

definition sigcheck_app :: "nat \<Rightarrow> bool \<Rightarrow> (LONG \<Rightarrow> string option) \<Rightarrow> sig_env \<Rightarrow> handles \<Rightarrow> int \<times> string option" where
  "sigcheck_app argc opened system env h =
     (if argc \<noteq> 2 then (1, None)
      else if \<not> opened then (1, None)
      else (0, Some (formatmessage system (fst (cw_sigcheck env False h)))))"

section \<open>What an answer means\<close>

text \<open>The issuer counts as trusted if its name says so, or if the file could not be examined.\<close>

definition says_trusted :: "cert_env \<Rightarrow> bool" where
  "says_trusted env \<longleftrightarrow> query_object env = None \<and>
     (\<exists>n m name. signer_size env = Inr n \<and> memory env n = None \<and> signer_info env = None \<and> find_cert env = None \<and>
        name_size env = Inr m \<and> memory env (m * 2) = None \<and> issuer_name env = Inr name \<and>
        take 10 name = W ''Microsoft '')"

definition not_examined :: "cert_env \<Rightarrow> bool" where
  "not_examined env \<longleftrightarrow>
     (case query_object env of Some e \<Rightarrow> e \<noteq> 0
      | None \<Rightarrow> case signer_size env of Inl e \<Rightarrow> e \<noteq> 0
        | Inr n \<Rightarrow> case memory env n of Some e \<Rightarrow> e \<noteq> 0 | None \<Rightarrow> False)"

text \<open>What examining an issuer leaves open: always the store and the message, often the certificate.\<close>

definition left_open :: "cert_env \<Rightarrow> handles \<Rightarrow> handles" where
  "left_open env h =
     (if query_object env = None
      then h\<lparr>stores := stores h + 1, messages := messages h + 1,
        contexts := contexts h + (if \<exists>n. signer_size env = Inr n \<and> memory env n = None \<and>
          signer_info env = None \<and> find_cert env = None then 1 else 0)\<rparr>
      else h)"

lemma issuer_body_result:
  "issuer_body env =
    ((\<exists>m name. signer_info env = None \<and> find_cert env = None \<and> name_size env = Inr m \<and> memory env (m * 2) = None \<and>
        issuer_name env = Inr name \<and> take 10 name = W ''Microsoft ''),
     (if signer_info env = None \<and> find_cert env = None then 1 else 0), snd (snd (issuer_body env)))"
  by (auto simp: issuer_body_def split: option.splits sum.splits)

lemma issuer_result: "isIssuerTrusted env h = (says_trusted env \<or> not_examined env, left_open env h)"
proof (cases "query_object env")
  case (Some e)
  then show ?thesis by (simp add: isIssuerTrusted_def says_trusted_def not_examined_def left_open_def)
next
  case None
  show ?thesis
  proof (cases "signer_size env")
    case (Inl e)
    then show ?thesis using None
      by (simp add: isIssuerTrusted_def says_trusted_def not_examined_def left_open_def Let_def)
  next
    case (Inr n)
    then show ?thesis using None
      by (cases "memory env n"; subst isIssuerTrusted_def; subst issuer_body_result)
        (auto simp: says_trusted_def not_examined_def left_open_def Let_def)
  qed
qed

text \<open>Which subject is verified, and whose issuer is asked.\<close>

definition verified :: "sig_env \<Rightarrow> (subject \<times> wstring option) option" where
  "verified env =
     (case (acquire_admin env, calc_hash env, final_path env) of
        (None, Inr bs, Inr f) \<Rightarrow>
          (case (catalog env bs, catalog_info env) of
             (None, Inr c) \<Rightarrow> Some (Catalog (member_tag bs) c f, Some c)
           | (Some e, _) \<Rightarrow> if e = ERROR_NOT_FOUND then Some (Embedded f, f) else None
           | _ \<Rightarrow> None)
      | _ \<Rightarrow> None)"

definition errors_not_zero :: "sig_env \<Rightarrow> bool" where
  "errors_not_zero env \<longleftrightarrow> acquire_admin env \<noteq> Some 0 \<and> calc_hash env \<noteq> Inl 0 \<and> final_path env \<noteq> Inl 0 \<and>
     (\<forall>bs. catalog env bs \<noteq> Some 0) \<and> catalog_info env \<noteq> Inl 0"

lemma cw_sigcheck_verified:
  "cw_sigcheck env w h =
    (case verified env of
       Some (subject, file) \<Rightarrow>
         (let t = says_trusted (certs env file) \<or> not_examined (certs env file);
              r = (if t then verify env subject else TRUST_E_NOSIGNATURE)
          in (r, t \<and> w \<and> r = 0, left_open (certs env file) h))
     | None \<Rightarrow> (fst (cw_sigcheck env w h), False, h))"
proof -
  have l: "(left_open c (h\<lparr>admins := Suc (admins h)\<rparr>))
      \<lparr>admins := admins (left_open c (h\<lparr>admins := Suc (admins h)\<rparr>)) - Suc 0\<rparr> = left_open c h" for c
    by (simp add: left_open_def)
  show ?thesis
    by (simp add: cw_sigcheck_def verified_def sigcheck_def choose_subject_def issuer_result Let_def l
        split: option.split sum.split) blast
qed

lemma cw_sigcheck_error: "errors_not_zero env \<Longrightarrow> verified env = None \<Longrightarrow> fst (cw_sigcheck env w h) \<noteq> 0"
  by (auto simp: cw_sigcheck_def verified_def sigcheck_def choose_subject_def errors_not_zero_def Let_def
      split: option.splits sum.splits if_splits)

lemma member_tag_codes: "length (member_tag bs) = 2 * length bs" "member_tag bs = member_tag cs \<Longrightarrow> bs = cs"
proof -
  have hex: "unat (hex_char d) = (if d < 10 then 48 + d else 55 + d)" if "d < 16" for d
    using that unat_of_nat_small [where ?'a = 16, of "48 + d"] unat_of_nat_small [where ?'a = 16, of "55 + d"]
    by (simp add: hex_char_def del: of_nat_add)
  have inj: "d = e" if "hex_char d = hex_char e" "d < 16" "e < 16" for d e
  proof -
    have "unat (hex_char d) = unat (hex_char e)" using that(1) by simp
    then show ?thesis using hex [OF that(2)] hex [OF that(3)] that(2,3) by (simp split: if_splits)
  qed
  have byte: "b = c" if "hex_char (unat b div 16) = hex_char (unat c div 16)"
    "hex_char (unat b mod 16) = hex_char (unat c mod 16)" for b c :: BYTE
  proof -
    have "unat b div 16 < 16" "unat c div 16 < 16" using unat_bound [of b] unat_bound [of c] by auto
    with that inj have "unat b div 16 = unat c div 16" "unat b mod 16 = unat c mod 16" by simp_all
    then have "unat b = unat c" by (metis div_mult_mod_eq)
    then show ?thesis by (simp add: word_unat_eq_iff)
  qed
  show "length (member_tag bs) = 2 * length bs" by (induction bs) (simp_all add: member_tag_def)
  show "member_tag bs = member_tag cs \<Longrightarrow> bs = cs"
  proof (induction bs arbitrary: cs)
    case Nil
    then show ?case by (cases cs) (simp_all add: member_tag_def)
  next
    case (Cons b bs)
    then obtain c cs' where cs: "cs = c # cs'" by (cases cs) (simp_all add: member_tag_def)
    with Cons.prems have "b = c" "member_tag bs = member_tag cs'"
      by (auto simp: member_tag_def intro: byte)
    with Cons.IH cs show ?case by simp
  qed
qed

text \<open>
  C19: if no call fails with the error zero, the check passes a file exactly if the verification of
  the catalog or of the file itself succeeds and the issuer is trusted \<open>or the signature could not be
  examined\<close>; a store, a message and often a certificate stay open, everything else is given back.
\<close>

theorem sigcheck_trusts:
  assumes "errors_not_zero env"
  shows "(fst (cw_sigcheck env w h) = 0 \<longleftrightarrow>
      (\<exists>subject file. verified env = Some (subject, file) \<and> verify env subject = 0 \<and>
         (says_trusted (certs env file) \<or> not_examined (certs env file)))) \<and>
    snd (snd (cw_sigcheck env w h)) =
      (case verified env of None \<Rightarrow> h | Some (_, file) \<Rightarrow> left_open (certs env file) h)"
proof (cases "verified env")
  case None
  with cw_sigcheck_error [OF assms] show ?thesis by (subst (2) cw_sigcheck_verified) simp
next
  case (Some v)
  then show ?thesis
    by (cases v; subst (1 2) cw_sigcheck_verified) (simp add: Let_def TRUST_E_NOSIGNATURE_def)
qed

definition unsigned_file :: cert_env where
  "unsigned_file = \<lparr>query_object = Some 0x80092009, signer_size = Inl 1, memory = (\<lambda>_. None), signer_info = Some 1,
     find_cert = Some 1, name_size = Inl 1, issuer_name = Inl 1\<rparr>"

definition lenient :: sig_env where
  "lenient = \<lparr>acquire_admin = None, calc_hash = Inr [0xAB], final_path = Inr (Some (W ''f'')),
     catalog = (\<lambda>_. Some ERROR_NOT_FOUND), catalog_info = Inl 1, verify = (\<lambda>_. 0), certs = (\<lambda>_. unsigned_file)\<rparr>"

definition no_handles :: handles where
  "no_handles = \<lparr>stores = 0, messages = 0, contexts = 0, blocks = 0, catalogs = 0, admins = 0\<rparr>"

text \<open>Nothing could be read of the certificate of this file; it passes.\<close>

theorem sigcheck_trusts_witness:
  "fst (cw_sigcheck lenient True no_handles) = 0 \<and> \<not> says_trusted unsigned_file"
proof -
  have e: "errors_not_zero lenient" by (simp add: errors_not_zero_def lenient_def ERROR_NOT_FOUND_def)
  have "verified lenient = Some (Embedded (Some (W ''f'')), Some (W ''f''))"
    "verify lenient (Embedded (Some (W ''f''))) = 0" "not_examined (certs lenient (Some (W ''f'')))"
    by (simp_all add: verified_def lenient_def not_examined_def unsigned_file_def)
  then have "fst (cw_sigcheck lenient True no_handles) = 0" using sigcheck_trusts [OF e, of True no_handles] by blast
  then show ?thesis by (simp add: says_trusted_def unsigned_file_def)
qed

end
