(* ===== verification/Crt.thy ===== *)
theory Crt
  imports Prelude
begin

text \<open>
  Model of \<open>src/legacy/shared/crt.c\<close>: the checked variants of string and file functions for systems
  whose C library lacks them. A destination is a buffer, \<open>None\<close> if the pointer is null; the function
  is \<open>None\<close> if it writes outside of it. Strings are those before their terminator.
\<close>

definition EINVAL :: nat where "EINVAL = 22"
definition ERANGE :: nat where "ERANGE = 34"

section \<open>What the C library does\<close>

text \<open>Storing characters from an index on.\<close>

definition store :: "nat \<Rightarrow> 'a list \<Rightarrow> 'a list \<Rightarrow> 'a list option" where
  "store i xs b = (if i + length xs \<le> length b then Some (take i b @ xs @ drop (i + length xs) b) else None)"

definition wcsnlen :: "wstring \<Rightarrow> nat \<Rightarrow> nat" where
  "wcsnlen s n = (if length s < n then length s else n)"

text \<open>
  \<open>wcstombs\<close>: each character is some bytes, or cannot be converted. Without a destination all are
  counted; else the bytes of whole characters are stored as long as they fit, with a terminator if
  there is room left.
\<close>

type_synonym encoding = "WCHAR \<Rightarrow> BYTE list option"

fun all_bytes :: "encoding \<Rightarrow> wstring \<Rightarrow> BYTE list option" where
  "all_bytes enc [] = Some []"
| "all_bytes enc (c # s) =
     (case enc c of None \<Rightarrow> None | Some bs \<Rightarrow> map_option (\<lambda>r. bs @ r) (all_bytes enc s))"

fun fitting_bytes :: "encoding \<Rightarrow> nat \<Rightarrow> wstring \<Rightarrow> BYTE list option" where
  "fitting_bytes enc n [] = Some []"
| "fitting_bytes enc n (c # s) =
     (case enc c of None \<Rightarrow> None
      | Some bs \<Rightarrow>
          if length bs > n then Some [] else map_option (\<lambda>r. bs @ r) (fitting_bytes enc (n - length bs) s))"

text \<open>The bytes of an unsuccessful conversion are not specified; \<open>junk\<close> stands for them.\<close>

definition wcstombs ::
    "encoding \<Rightarrow> BYTE list \<Rightarrow> BYTE list \<Rightarrow> wstring \<Rightarrow> nat \<Rightarrow> (nat option \<times> BYTE list) option" where
  "wcstombs enc junk b s n =
     (case fitting_bytes enc n s of
        None \<Rightarrow> map_option (\<lambda>b. (None, b)) (store 0 (take n junk) b)
      | Some bs \<Rightarrow>
          map_option (\<lambda>b. (Some (length bs), b)) (store 0 (if length bs < n then bs @ [0] else bs) b))"

section \<open>Copying wide strings\<close>

definition reject :: "'a::zero list option \<Rightarrow> nat \<Rightarrow> nat \<Rightarrow> (nat \<times> 'a list option) option" where
  "reject dest n e =
     (case dest of
        Some b \<Rightarrow> if n > 0 then map_option (\<lambda>b. (e, Some b)) (store 0 [0] b) else Some (e, dest)
      | None \<Rightarrow> Some (e, dest))"

definition wcscpy_s_compat ::
    "wstring option \<Rightarrow> nat \<Rightarrow> wstring option \<Rightarrow> (nat \<times> wstring option) option" where
  "wcscpy_s_compat dest n src =
     (case (dest, src) of
        (Some b, Some s) \<Rightarrow>
          if n = 0 then Some (EINVAL, dest)
          else if length s \<ge> n then map_option (\<lambda>b. (ERANGE, Some b)) (store 0 [0] b)
          else map_option (\<lambda>b. (0, Some b)) (store 0 (s @ [0]) b)
      | _ \<Rightarrow> reject dest n EINVAL)"

definition wcsncpy_s_compat ::
    "wstring option \<Rightarrow> nat \<Rightarrow> wstring option \<Rightarrow> nat \<Rightarrow> (nat \<times> wstring option) option" where
  "wcsncpy_s_compat dest n src count =
     (case (dest, src) of
        (Some b, Some s) \<Rightarrow>
          if n = 0 then Some (EINVAL, dest)
          else
            let src_len = wcsnlen s count;
                copy_len = (if src_len < count then src_len else count) in
            if copy_len \<ge> n then map_option (\<lambda>b. (ERANGE, Some b)) (store 0 [0] b)
            else (case store 0 (take copy_len s) b of
                None \<Rightarrow> None
              | Some b \<Rightarrow> map_option (\<lambda>b. (0, Some b)) (store copy_len [0] b))
      | _ \<Rightarrow> reject dest n EINVAL)"

section \<open>Converting to bytes\<close>

text \<open>
  \<open>ret\<close> is whether the caller wants the number of bytes, \<open>conv_error\<close> the error number a failed
  conversion sets; the result holds the error, the number stored, and the buffer.
\<close>

definition wcstombs_s_compat ::
    "encoding \<Rightarrow> BYTE list \<Rightarrow> nat \<Rightarrow> bool \<Rightarrow> BYTE list option \<Rightarrow> nat \<Rightarrow> wstring option \<Rightarrow> nat \<Rightarrow>
     (nat \<times> nat option \<times> BYTE list option) option" where
  "wcstombs_s_compat enc junk conv_error ret mbstr size_in_bytes wcstr count =
     (if mbstr = None \<and> size_in_bytes = 0 then
        (case wcstr of
           None \<Rightarrow> Some (EINVAL, None, mbstr)
         | Some s \<Rightarrow>
             (case all_bytes enc s of
                None \<Rightarrow> Some (conv_error, None, mbstr)
              | Some bs \<Rightarrow> Some (0, if ret then Some (length bs + 1) else None, mbstr)))
      else
        (case (mbstr, wcstr) of
           (Some b, Some s) \<Rightarrow>
             if size_in_bytes = 0 then map_option (\<lambda>(e, d). (e, None, d)) (reject mbstr size_in_bytes EINVAL)
             else
               let max_convert = (if count < size_in_bytes then count else size_in_bytes - 1) in
               (case wcstombs enc junk b s max_convert of
                  None \<Rightarrow> None
                | Some (None, b) \<Rightarrow>
                    map_option (\<lambda>b. (conv_error, if ret then Some 0 else None, Some b)) (store 0 [0] b)
                | Some (Some result, b) \<Rightarrow>
                    map_option (\<lambda>b. (0, if ret then Some result else None, Some b))
                      (store (if result < size_in_bytes then result else size_in_bytes - 1) [0] b))
         | _ \<Rightarrow> map_option (\<lambda>(e, d). (e, None, d)) (reject mbstr size_in_bytes EINVAL)))"

section \<open>Files and assertions\<close>

text \<open>\<open>open_file\<close> answers a descriptor, or the error number it sets. The result is what is stored.\<close>

definition wsopen_s_compat :: "bool \<Rightarrow> nat + int \<Rightarrow> nat \<times> int option" where
  "wsopen_s_compat pfh open_file =
     (if \<not> pfh then (EINVAL, None)
      else case open_file of Inl e \<Rightarrow> (e, Some (- 1)) | Inr fd \<Rightarrow> (0, Some fd))"

definition wfreopen_s_compat :: "bool \<Rightarrow> nat + addr \<Rightarrow> nat \<times> addr option" where
  "wfreopen_s_compat stream reopened =
     (if \<not> stream then (EINVAL, None)
      else case reopened of Inl e \<Rightarrow> (e, Some 0) | Inr p \<Rightarrow> (0, Some p))"

text \<open>A message is printed if it can be converted and there is memory for it.\<close>

definition narrow :: "encoding \<Rightarrow> (nat \<Rightarrow> bool) \<Rightarrow> wstring \<Rightarrow> BYTE list option" where
  "narrow enc memory s =
     (case all_bytes enc s of None \<Rightarrow> None | Some bs \<Rightarrow> if memory (length bs + 1) then Some bs else None)"

definition emu__wassert ::
    "encoding \<Rightarrow> (nat \<Rightarrow> bool) \<Rightarrow> wstring \<Rightarrow> wstring \<Rightarrow> BYTE list option \<times> BYTE list option" where
  "emu__wassert enc memory msg file = (narrow enc memory msg, narrow enc memory file)"

section \<open>What the copies promise\<close>

lemma store_length: "store i xs b = Some b' \<Longrightarrow> length b' = length b"
  by (auto simp: store_def split: if_splits)

lemma store_string:
  "no_nul s \<Longrightarrow> length s < length b \<Longrightarrow> \<exists>b'. store 0 (s @ [0]) b = Some b' \<and> cstr b' = s \<and> length b' = length b"
  by (simp add: store_def)

lemma store_fits: "length xs \<le> length b \<Longrightarrow> \<exists>b'. store 0 xs b = Some b' \<and> length b' = length b"
  by (simp add: store_def)

lemma store_empty: "b \<noteq> [] \<Longrightarrow> \<exists>b'. store 0 [0] b = Some b' \<and> cstr b' = ([] :: 'a::zero list) \<and> length b' = length b"
  using store_string [of "[]" b] by simp

lemma store_then_end:
  assumes "no_nul s" "length s < length b" "t = s \<or> t = s @ [0]" "length t \<le> length b"
  shows "\<exists>b1 b2. store 0 t b = Some b1 \<and> store (length s) [0] b1 = Some b2 \<and> cstr b2 = s \<and> length b2 = length b"
  using assms by (auto simp: store_def)

text \<open>The contract of both copies: what they copy, where it must fit, and what is left behind.\<close>

definition copies ::
    "(nat \<times> wstring option) option \<Rightarrow> wstring \<Rightarrow> nat \<Rightarrow> wstring \<Rightarrow> bool" where
  "copies r b n s \<longleftrightarrow>
     (if n = 0 then r = Some (EINVAL, Some b)
      else \<exists>b'. r = Some (if length s < n then 0 else ERANGE, Some b') \<and> length b' = length b \<and>
        cstr b' = (if length s < n then s else []))"

text \<open>
  Given a buffer of at least the size they are told, \<open>wcscpy_s\<close> and \<open>wcsncpy_s\<close> never write outside
  of it: they copy the whole string, or its first \<open>count\<close> characters, if it fits with the terminator,
  and leave the empty string otherwise.
\<close>

lemma copies_bounded:
  assumes "n \<le> length b" "no_nul s"
  shows "copies (wcscpy_s_compat (Some b) n (Some s)) b n s \<and>
    copies (wcsncpy_s_compat (Some b) n (Some s) count) b n (take count s)"
proof (cases "n = 0")
  case True
  then show ?thesis by (simp add: copies_def wcscpy_s_compat_def wcsncpy_s_compat_def)
next
  case False
  obtain b0 where b0: "store 0 [0] b = Some b0" "cstr b0 = []" "length b0 = length b"
    using store_empty [of b] assms(1) False by (cases b) auto
  have "copies (wcscpy_s_compat (Some b) n (Some s)) b n s"
    using store_string [OF assms(2), of b] assms(1) False b0
    by (cases "length s < n") (auto simp: copies_def wcscpy_s_compat_def)
  moreover have "copies (wcsncpy_s_compat (Some b) n (Some s) count) b n (take count s)"
  proof -
    let ?t = "take count s"
    have "wcsncpy_s_compat (Some b) n (Some s) count =
      (if length ?t \<ge> n then map_option (\<lambda>b. (ERANGE, Some b)) (store 0 [0] b)
       else case store 0 ?t b of None \<Rightarrow> None
         | Some b \<Rightarrow> map_option (\<lambda>b. (0, Some b)) (store (length ?t) [0] b))"
      using False by (cases "length s < count") (simp_all add: wcsncpy_s_compat_def wcsnlen_def Let_def split: option.split)
    moreover have "no_nul ?t" using assms(2) by simp
    ultimately show ?thesis
      using store_then_end [of ?t b ?t] assms(1) b0 False by (cases "length ?t < n") (auto simp: copies_def)
  qed
  ultimately show ?thesis ..
qed

lemma fitting_length: "fitting_bytes enc n s = Some bs \<Longrightarrow> length bs \<le> n"
proof (induction enc n s arbitrary: bs rule: fitting_bytes.induct)
  case (2 enc n c s)
  then show ?case by (fastforce split: option.splits if_splits)
qed simp

lemma fitting_all: "all_bytes enc s = Some bs \<Longrightarrow> length bs \<le> n \<Longrightarrow> fitting_bytes enc n s = Some bs"
  by (induction enc n s arbitrary: bs rule: fitting_bytes.induct) (auto split: option.splits)

text \<open>Characters other than the terminator are encoded without it.\<close>

definition encodes :: "encoding \<Rightarrow> bool" where
  "encodes enc \<longleftrightarrow> (\<forall>c bs. c \<noteq> 0 \<longrightarrow> enc c = Some bs \<longrightarrow> no_nul bs)"

lemma fitting_no_nul: "encodes enc \<Longrightarrow> no_nul s \<Longrightarrow> fitting_bytes enc n s = Some bs \<Longrightarrow> no_nul bs"
proof (induction enc n s arbitrary: bs rule: fitting_bytes.induct)
  case (2 enc n c s)
  then show ?case by (fastforce simp: encodes_def split: option.splits if_splits)
qed simp

text \<open>
  Given a buffer of at least the size it is told, \<open>wcstombs_s\<close> writes inside of it and leaves the
  bytes of the whole characters that fit into \<open>count\<close> bytes and the buffer less the terminator; the
  number it returns does not count the terminator, unlike the one it returns without a buffer.
\<close>

lemma narrow_bounded:
  assumes "0 < n" "n \<le> length b" "encodes enc" "no_nul s"
  shows "\<exists>b'. wcstombs_s_compat enc junk e True (Some b) n (Some s) count =
      (case fitting_bytes enc (min count (n - 1)) s of
         None \<Rightarrow> Some (e, Some 0, Some b')
       | Some bs \<Rightarrow> Some (0, Some (length bs), Some b')) \<and>
    length b' = length b \<and>
    cstr b' = (case fitting_bytes enc (min count (n - 1)) s of None \<Rightarrow> [] | Some bs \<Rightarrow> bs) \<and>
    (\<forall>bs. all_bytes enc s = Some bs \<longrightarrow>
       wcstombs_s_compat enc junk e True None 0 (Some s) count = Some (0, Some (length bs + 1), None))"
proof -
  let ?m = "min count (n - 1)"
  have m: "(if count < n then count else n - 1) = ?m" "?m < length b" using assms(1,2) by auto
  have query: "\<forall>bs. all_bytes enc s = Some bs \<longrightarrow>
      wcstombs_s_compat enc junk e True None 0 (Some s) count = Some (0, Some (length bs + 1), None)"
    by (simp add: wcstombs_s_compat_def)
  show ?thesis
  proof (cases "fitting_bytes enc ?m s")
    case None
    obtain b1 where b1: "store 0 (take ?m junk) b = Some b1" "length b1 = length b"
    proof -
      have "length (take ?m junk) \<le> length b" using m(2) by simp
      from store_fits [OF this] show thesis using that by blast
    qed
    moreover obtain b2 where "store 0 [0] b1 = Some b2" "cstr b2 = []" "length b2 = length b1"
      using store_empty [of b1] b1 m(2) by (cases b1) auto
    ultimately have "wcstombs_s_compat enc junk e True (Some b) n (Some s) count = Some (e, Some 0, Some b2)"
      using assms(1) None by (simp add: wcstombs_s_compat_def wcstombs_def Let_def m(1) del: min.commute)
    with \<open>cstr b2 = []\<close> \<open>length b2 = length b1\<close> b1(2) None query show ?thesis by simp
  next
    case (Some bs)
    then have bs: "length bs \<le> ?m" "no_nul bs" "length bs < n"
      using fitting_length [OF Some] fitting_no_nul [OF assms(3,4) Some] assms(1) by auto
    define t where "t = (if length bs < ?m then bs @ [0] else bs)"
    have t: "t = bs \<or> t = bs @ [0]" "length bs < length b" "length t \<le> length b"
      using bs(1) m(2) unfolding t_def by (simp_all only: split: if_splits) auto
    obtain b1 b2 where "store 0 t b = Some b1"
      "store (length bs) [0] b1 = Some b2" "cstr b2 = bs" "length b2 = length b"
      using store_then_end [OF bs(2) t(2,1,3)] by blast
    moreover from this(1,2) have
      "wcstombs_s_compat enc junk e True (Some b) n (Some s) count = Some (0, Some (length bs), Some b2)"
      using assms(1) Some bs(3) unfolding t_def by (simp add: wcstombs_s_compat_def wcstombs_def Let_def m(1))
    ultimately show ?thesis using Some query by simp
  qed
qed

lemma copies_bounded_witness:
  "copies (wcscpy_s_compat (Some [1, 2]) 2 (Some (W ''a''))) [1, 2] 2 (W ''a'') \<and>
   wcscpy_s_compat (Some [1, 2]) 2 (Some (W ''a'')) = Some (0, Some (W ''a'' @ [0]))"
proof -
  have "(2::nat) \<le> length [1 :: WCHAR, 2]" "no_nul (W ''a'')" by simp_all
  from copies_bounded [OF this] show ?thesis by (simp add: wcscpy_s_compat_def store_def)
qed

definition latin1 :: encoding where "latin1 c = (if c < 256 then Some [ucast c] else None)"

lemma narrow_bounded_witness:
  "\<exists>b'. wcstombs_s_compat latin1 [] 42 True (Some [1, 2]) 2 (Some (W ''ab'')) 9 = Some (0, Some 1, Some b') \<and> cstr b' = [97]"
proof -
  have "encodes latin1"
  proof -
    have "(ucast c :: BYTE) \<noteq> 0" if "c < 256" "c \<noteq> 0" for c :: WCHAR
    proof
      assume "(ucast c :: BYTE) = 0"
      then have "unat c mod 256 = 0" using unsigned_ucast_eq [where ?'a = nat and ?'c = 8, of c] by (simp add: take_bit_eq_mod)
      with that show False by (simp add: word_less_nat_alt unat_eq_zero)
    qed
    then show ?thesis by (auto simp: encodes_def latin1_def split: if_splits)
  qed
  then have "\<exists>b'. wcstombs_s_compat latin1 [] 42 True (Some [1, 2]) 2 (Some (W ''ab'')) 9 =
      (case fitting_bytes latin1 (min 9 (2 - 1)) (W ''ab'') of
         None \<Rightarrow> Some (42, Some 0, Some b') | Some bs \<Rightarrow> Some (0, Some (length bs), Some b')) \<and>
      cstr b' = (case fitting_bytes latin1 (min 9 (2 - 1)) (W ''ab'') of None \<Rightarrow> [] | Some bs \<Rightarrow> bs)"
    using narrow_bounded [of 2 "[1, 2]" latin1 "W ''ab''" "[]" 42 9] by auto
  then show ?thesis by (simp add: latin1_def)
qed

end
