(* ===== verification/Dirent.thy ===== *)
theory Dirent
  imports Prelude
begin

text \<open>
  Model of \<open>src/dllmain/dirent.c\<close>: directories read through the search functions of the system. A
  search handle is the list of what it has still to deliver. The status of the path, its long form,
  the memory, the contents of directories and the conversion of names answer as the environment says.
\<close>

definition ENOENT :: nat where "ENOENT = 2"
definition ENOMEM :: nat where "ENOMEM = 12"
definition ENOTDIR :: nat where "ENOTDIR = 20"
definition ENAMETOOLONG :: nat where "ENAMETOOLONG = 38"

datatype d_type = DT_BLOCK | DT_CHR | DT_DIR | DT_FIFO | DT_LNK | DT_REG | DT_SOCK | DT_UNKNOWN

record find_data =
  wide_name :: wstring
  creation_low :: DWORD
  size_low :: DWORD
  attributes :: DWORD

record dirent =
  d_ino :: WORD
  d_typ :: d_type
  d_name :: "BYTE list"

record DIR =
  dh :: "find_data list option"
  entry :: wstring

text \<open>\<open>max_path\<close> is the constant of that name: 260 in builds for Windows XP, 4096 in others.\<close>

record dir_env =
  max_path :: nat
  stat :: "nat + bool"
  has_memory :: bool
  uncpath :: "wstring option"
  listing :: "wstring \<Rightarrow> find_data list"
  ends_clean :: bool
  to_utf8 :: "wstring \<Rightarrow> nat \<Rightarrow> BYTE list option"

section \<open>Opening\<close>

text \<open>Trailing backslashes are overwritten from the end; the string is then the one before the first.\<close>

fun strip_loop :: "nat \<Rightarrow> wstring \<Rightarrow> wstring" where
  "strip_loop 0 s = s"
| "strip_loop (Suc n) s = (if chr_at s n = backslash then strip_loop n (s[n := 0]) else s)"

definition all_files :: wstring where
  "all_files = [backslash, 42, 46, 42]"

text \<open>
  The result is the error number or the directory, and how many blocks stay allocated. The error is
  \<open>Inl None\<close> where the function sets none itself.
\<close>

definition opendir :: "dir_env \<Rightarrow> (nat option + DIR) \<times> nat" where
  "opendir env =
     (case stat env of
        Inl e \<Rightarrow> (Inl None, 0)
      | Inr is_dir \<Rightarrow>
          if \<not> is_dir then (Inl (Some ENOTDIR), 0)
          else if \<not> has_memory env then (Inl (Some ENOMEM), 0)
          else case uncpath env of
              None \<Rightarrow> (Inl None, 1)
            | Some wpath \<Rightarrow>
                let s = take (max_path env - 1) wpath; len = length s in
                if len \<ge> max_path env - 5 then (Inl (Some ENAMETOOLONG), 0)
                else (Inr \<lparr>dh = None, entry = cstr (strip_loop len s) @ all_files\<rparr>, 1))"

section \<open>Reading\<close>

definition FILE_ATTRIBUTE_DIRECTORY :: DWORD where "FILE_ATTRIBUTE_DIRECTORY = 0x10"

definition inode :: "find_data \<Rightarrow> WORD" where
  "inode f = (let i = ucast (creation_low f XOR size_low f) in if i = 0 then 0x1337 else i)"

definition make_dirent :: "dir_env \<Rightarrow> find_data \<Rightarrow> dirent option" where
  "make_dirent env f =
     (case to_utf8 env (wide_name f) (max_path env - 1) of
        None \<Rightarrow> None
      | Some bs \<Rightarrow> Some \<lparr>d_ino = inode f,
          d_typ = (if attributes f AND FILE_ATTRIBUTE_DIRECTORY \<noteq> 0 then DT_DIR else DT_REG), d_name = bs\<rparr>)"

text \<open>The turns of the loop that take the next file from an open search.\<close>

fun find_next :: "dir_env \<Rightarrow> DIR \<Rightarrow> find_data list \<Rightarrow> (nat + dirent) \<times> DIR" where
  "find_next env d [] = (Inl (if ends_clean env then 0 else ENOENT), d\<lparr>dh := Some []\<rparr>)"
| "find_next env d (f # fs) =
     (case make_dirent env f of
        None \<Rightarrow> find_next env d fs
      | Some e \<Rightarrow> (Inr e, d\<lparr>dh := Some fs\<rparr>))"

definition readdir :: "dir_env \<Rightarrow> DIR \<Rightarrow> (nat + dirent) \<times> DIR" where
  "readdir env d =
     (case dh d of
        None \<Rightarrow>
          (case listing env (entry d) of
             [] \<Rightarrow> (Inl ENOENT, d)
           | f # fs \<Rightarrow>
               (case make_dirent env f of
                  None \<Rightarrow> find_next env d fs
                | Some e \<Rightarrow> (Inr e, d\<lparr>dh := Some fs\<rparr>)))
      | Some fs \<Rightarrow> find_next env d fs)"

text \<open>The second component of \<open>closedir\<close>: whether a search handle was closed.\<close>

definition rewinddir :: "DIR \<Rightarrow> DIR" where
  "rewinddir d = d\<lparr>dh := None\<rparr>"

definition closedir :: "DIR \<Rightarrow> int \<times> bool" where
  "closedir d = (0, dh d \<noteq> None)"

section \<open>What opening promises\<close>

definition without_slashes :: "wstring \<Rightarrow> wstring" where
  "without_slashes s = rev (dropWhile (\<lambda>c. c = backslash) (rev s))"


lemma strip_loop_cstr:
  "n \<le> length s \<Longrightarrow> no_nul (take n s) \<Longrightarrow> (n < length s \<Longrightarrow> s ! n = 0) \<Longrightarrow>
   cstr (strip_loop n s) = without_slashes (take n s)"
proof (induction n arbitrary: s)
  case 0
  then show ?case by (cases s) (auto simp: without_slashes_def cstr_def)
next
  case (Suc n)
  have t: "take (Suc n) s = take n s @ [s ! n]" using Suc.prems(1) by (simp add: take_Suc_conv_app_nth)
  show ?case
  proof (cases "s ! n = backslash")
    case True
    have "cstr (strip_loop n (s[n := 0])) = without_slashes (take n (s[n := 0]))"
      using Suc.prems t by (intro Suc.IH) auto
    with True Suc.prems(1) t show ?thesis by (simp add: without_slashes_def)
  next
    case False
    have "s = take (Suc n) s @ drop (Suc n) s" by simp
    moreover have "drop (Suc n) s = [] \<or> (\<exists>r. drop (Suc n) s = 0 # r)"
      using Suc.prems(3) by (cases "Suc n < length s") (auto simp: Cons_nth_drop_Suc [symmetric])
    ultimately have "cstr s = take (Suc n) s"
      using Suc.prems(2) cstr_terminated [OF Suc.prems(2)] cstr_id [OF Suc.prems(2)] by (metis append_Nil2)
    with False Suc.prems(1) t show ?thesis by (simp add: without_slashes_def)
  qed
qed

lemma without_slashes_length: "length (without_slashes s) \<le> length s"
  by (simp add: without_slashes_def) (metis length_dropWhile_le length_rev)

text \<open>
  Opening a directory searches its long path without trailing backslashes, which fits the entry
  with the pattern; a block stays behind for each open directory, and also if the long path cannot
  be found out.
\<close>

lemma opendir_contract:
  assumes "\<And>w. uncpath env = Some w \<Longrightarrow> no_nul w" "6 \<le> max_path env"
  shows "(\<forall>d n. opendir env = (Inr d, n) \<longleftrightarrow>
      (\<exists>w. stat env = Inr True \<and> has_memory env \<and> uncpath env = Some w \<and> length w < max_path env - 5 \<and> n = 1 \<and>
         d = \<lparr>dh = None, entry = without_slashes w @ all_files\<rparr> \<and> length (entry d) < max_path env)) \<and>
    (\<forall>e n. opendir env = (Inl e, n) \<longrightarrow>
      (n \<noteq> 0 \<longleftrightarrow> stat env = Inr True \<and> has_memory env \<and> uncpath env = None))"
proof -
  have entry: "cstr (strip_loop (length w) (take (max_path env - 1) w)) = without_slashes w"
    if "uncpath env = Some w" "length w < max_path env - 5" for w
    using strip_loop_cstr [of "length w" w] assms(1) [OF that(1)] that(2) by simp
  have fits: "length (without_slashes w @ all_files) < max_path env" if "length w < max_path env - 5" for w
    using without_slashes_length [of w] that by (simp add: all_files_def)
  show ?thesis
    using entry fits
    by (auto simp: opendir_def Let_def min_def split: sum.splits option.splits if_splits)
qed

section \<open>What reading promises\<close>

primrec calls :: "dir_env \<Rightarrow> nat \<Rightarrow> DIR \<Rightarrow> (nat + dirent) list \<times> DIR" where
  "calls env 0 d = ([], d)"
| "calls env (Suc n) d =
     (case readdir env d of (r, d') \<Rightarrow> (case calls env n d' of (rs, d'') \<Rightarrow> (r # rs, d'')))"

definition delivered :: "dir_env \<Rightarrow> find_data list \<Rightarrow> dirent list" where
  "delivered env fs = List.map_filter (make_dirent env) fs"

definition over :: "dir_env \<Rightarrow> nat" where
  "over env = (if ends_clean env then 0 else ENOENT)"

lemma find_next_delivers:
  "find_next env d fs =
    (case delivered env fs of
       [] \<Rightarrow> (Inl (over env), d\<lparr>dh := Some []\<rparr>)
     | e # es \<Rightarrow> (Inr e, snd (find_next env d fs)))"
  "delivered env fs = e # es \<Longrightarrow>
    \<exists>fs'. snd (find_next env d fs) = d\<lparr>dh := Some fs'\<rparr> \<and> delivered env fs' = es"
  by (induction fs arbitrary: e es)
    (auto simp: delivered_def over_def map_filter_simps split: option.splits list.splits)

lemma find_next_any: "find_next env (d\<lparr>dh := x\<rparr>) fs = find_next env d fs"
  by (induction fs) (simp_all split: option.split)

lemma calls_open:
  "dh d = Some fs \<Longrightarrow>
   fst (calls env n d) = take n (map Inr (delivered env fs)) @ replicate (n - length (delivered env fs)) (Inl (over env))"
proof (induction n arbitrary: d fs)
  case (Suc n)
  have r: "readdir env d = find_next env d fs" using Suc.prems by (simp add: readdir_def)
  show ?case
  proof (cases "delivered env fs")
    case Nil
    then have "readdir env d = (Inl (over env), d\<lparr>dh := Some []\<rparr>)" using r find_next_delivers(1) [of env d fs] by simp
    then show ?thesis
      using Nil Suc.IH [of "d\<lparr>dh := Some []\<rparr>" "[]"] by (simp add: split_beta delivered_def map_filter_simps)
  next
    case (Cons e es)
    then obtain fs' where d': "snd (find_next env d fs) = d\<lparr>dh := Some fs'\<rparr>" "delivered env fs' = es"
      using find_next_delivers(2) by blast
    then have "readdir env d = (Inr e, d\<lparr>dh := Some fs'\<rparr>)" using r Cons find_next_delivers(1) [of env d fs] by simp
    then show ?thesis using Cons d'(2) Suc.IH [of "d\<lparr>dh := Some fs'\<rparr>" fs'] by (simp add: split_beta)
  qed
qed simp

lemma first_read:
  "listing env (entry d) \<noteq> [] \<Longrightarrow> dh d = None \<Longrightarrow> readdir env d = find_next env d (listing env (entry d))"
  by (cases "listing env (entry d)") (simp_all add: readdir_def)

text \<open>
  C38: the calls on a rewound directory deliver exactly the files whose names can be converted, in
  order, and from then on the end; a file whose name does not fit into the buffer for it is left out.
\<close>

theorem readdir_enumerates:
  assumes "listing env (entry d) \<noteq> []"
  shows "fst (calls env n (rewinddir d)) =
      (let es = List.map_filter (make_dirent env) (listing env (entry d))
       in take n (map Inr es) @ replicate (n - length es) (Inl (if ends_clean env then 0 else ENOENT)))"
proof (cases n)
  case (Suc m)
  let ?fs = "listing env (entry d)" and ?d = "rewinddir d"
  have "readdir env ?d = find_next env ?d ?fs"
    using first_read [of env ?d] assms by (simp add: rewinddir_def)
  also have "\<dots> = readdir env (?d\<lparr>dh := Some ?fs\<rparr>)"
    by (simp add: readdir_def find_next_any)
  finally have "fst (calls env n ?d) = fst (calls env n (?d\<lparr>dh := Some ?fs\<rparr>))"
    using Suc by simp
  also have "\<dots> = take n (map Inr (delivered env ?fs)) @ replicate (n - length (delivered env ?fs)) (Inl (over env))"
    by (rule calls_open) simp
  finally show ?thesis by (simp add: delivered_def over_def Let_def)
qed simp

definition two_files :: dir_env where
  "two_files = \<lparr>max_path = 260, stat = Inr True, has_memory = True, uncpath = Some (W ''d'' @ [backslash]),
     listing = (\<lambda>_. [\<lparr>wide_name = W ''long'', creation_low = 1, size_low = 1, attributes = 0\<rparr>,
       \<lparr>wide_name = W ''a'', creation_low = 1, size_low = 1, attributes = 0x10\<rparr>]),
     ends_clean = True, to_utf8 = (\<lambda>s n. if s = W ''long'' then None else Some (map ucast s))\<rparr>"

lemma opendir_contract_witness:
  "opendir two_files = (Inr \<lparr>dh = None, entry = without_slashes (W ''d'' @ [backslash]) @ all_files\<rparr>, 1)"
proof -
  have "\<And>w. uncpath two_files = Some w \<Longrightarrow> no_nul w" by (simp add: two_files_def backslash_def)
  from opendir_contract [of two_files, OF this] show ?thesis
    by (simp add: two_files_def without_slashes_def all_files_def backslash_def)
qed

theorem readdir_enumerates_witness:
  "fst (calls two_files 2 (rewinddir \<lparr>dh = None, entry = []\<rparr>)) =
    [Inr \<lparr>d_ino = 0x1337, d_typ = DT_DIR, d_name = [97]\<rparr>, Inl 0]"
proof -
  have "listing two_files (entry \<lparr>dh = None, entry = []\<rparr>) \<noteq> []" by (simp add: two_files_def)
  from readdir_enumerates [OF this, of 2] show ?thesis
    by (simp add: two_files_def Let_def map_filter_simps make_dirent_def inode_def FILE_ATTRIBUTE_DIRECTORY_def)
qed

end
