(* ===== verification/Service.thy ===== *)
theory Service
  imports Prelude
begin

text \<open>
  Model of \<open>src/common/service.c\<close>, of \<open>src/dllmain/uac.c\<close>, which it asks for elevation, and of
  \<open>src/dllmain/syslog.c\<close>. The status is what the control manager is told; the threads of the process,
  the handler of controls and the manager are steps over it. Calls answer as their arguments say.
\<close>

section \<open>The status of the service\<close>

datatype service_state = Unset | Start_pending | Running | Stopped

definition SERVICE_ACCEPT_STOP :: DWORD where "SERVICE_ACCEPT_STOP = 1"
definition SERVICE_ACCEPT_SHUTDOWN :: DWORD where "SERVICE_ACCEPT_SHUTDOWN = 4"

datatype control = Stop | Shutdown | Interrogate | Other_control

text \<open>\<open>reported\<close> holds what the manager was told, \<open>start_event\<close> is the event of the start.\<close>

record service =
  current :: service_state
  controls :: DWORD
  check_point :: DWORD
  reported :: "(service_state \<times> DWORD) list"
  start_event :: bool
  is_ready :: bool

definition SetServiceStatus :: "service \<Rightarrow> service" where
  "SetServiceStatus s = s\<lparr>reported := reported s @ [(current s, controls s)]\<rparr>"

text \<open>The function exits where it is \<open>None\<close>: registering or telling the status failed.\<close>

definition ServiceMain :: "bool \<Rightarrow> bool \<Rightarrow> service \<Rightarrow> service option" where
  "ServiceMain registers tells s =
     (let s = s\<lparr>current := Start_pending, controls := 0, check_point := 0\<rparr> in
      if \<not> registers then None
      else if \<not> tells then None
      else Some ((SetServiceStatus s)\<lparr>start_event := True\<rparr>))"

definition svc_ready :: "bool \<Rightarrow> service \<Rightarrow> service option" where
  "svc_ready tells s =
     (let s = s\<lparr>current := Running, controls := controls s OR (SERVICE_ACCEPT_STOP OR SERVICE_ACCEPT_SHUTDOWN),
        check_point := 0, is_ready := True\<rparr>
      in if tells then Some (SetServiceStatus s) else None)"

text \<open>A division by zero is \<open>None\<close>; the check point wraps.\<close>

definition svc_checkpoint :: "DWORD \<Rightarrow> service \<Rightarrow> service option" where
  "svc_checkpoint every s =
     (if current s = Start_pending then
        let s = s\<lparr>check_point := check_point s + 1\<rparr> in
        if every = 0 then None
        else if check_point s mod every = 0 then Some (SetServiceStatus s) else Some s
      else Some s)"

definition ServiceCtrlHandler :: "control \<Rightarrow> service \<Rightarrow> service" where
  "ServiceCtrlHandler code s =
     (if code = Stop \<or> code = Shutdown
      then SetServiceStatus (s\<lparr>current := Stopped,
        controls := controls s AND NOT (SERVICE_ACCEPT_STOP OR SERVICE_ACCEPT_SHUTDOWN)\<rparr>)
      else SetServiceStatus s)"

text \<open>
  The interval between reports is read from the registry: a value is taken if it has the type and
  the size of a double word. \<open>None\<close>: the key or the value cannot be read.
\<close>

definition svc_getcpvalue :: "(bool \<times> nat \<times> DWORD) option \<Rightarrow> DWORD" where
  "svc_getcpvalue answer =
     (case answer of
        None \<Rightarrow> 5000
      | Some (is_dword, len, value) \<Rightarrow> if len = 4 \<and> is_dword then value else 5000)"

text \<open>
  The steps: the thread of the service starts, the main thread passes check points and announces that
  it is ready once the start event is set, the manager sends the controls the last report accepts.
\<close>

definition accepts :: "service \<Rightarrow> control \<Rightarrow> bool" where
  "accepts s c \<longleftrightarrow> reported s \<noteq> [] \<and>
     (case c of
        Stop \<Rightarrow> snd (last (reported s)) AND SERVICE_ACCEPT_STOP \<noteq> 0
      | Shutdown \<Rightarrow> snd (last (reported s)) AND SERVICE_ACCEPT_SHUTDOWN \<noteq> 0
      | _ \<Rightarrow> True)"

inductive service_step :: "DWORD \<Rightarrow> service \<Rightarrow> service \<Rightarrow> bool" for every where
  starts: "\<not> start_event s \<Longrightarrow> ServiceMain registers tells s = Some s' \<Longrightarrow> service_step every s s'"
| passes: "\<not> is_ready s \<Longrightarrow> svc_checkpoint every s = Some s' \<Longrightarrow> service_step every s s'"
| ready: "start_event s \<Longrightarrow> \<not> is_ready s \<Longrightarrow> svc_ready tells s = Some s' \<Longrightarrow> service_step every s s'"
| control: "accepts s c \<Longrightarrow> service_step every s (ServiceCtrlHandler c s)"

definition service_init :: "service \<Rightarrow> bool" where
  "service_init s \<longleftrightarrow> s = \<lparr>current = Unset, controls = 0, check_point = 0, reported = [], start_event = False,
     is_ready = False\<rparr>"

primrec rank :: "service_state \<Rightarrow> nat" where
  "rank Unset = 0"
| "rank Start_pending = 1"
| "rank Running = 2"
| "rank Stopped = 3"

text \<open>The states in the order a service passes through them.\<close>

instantiation service_state :: linorder
begin

definition less_eq_service_state :: "service_state \<Rightarrow> service_state \<Rightarrow> bool" where
  "less_eq_service_state x y \<longleftrightarrow> rank x \<le> rank y"

definition less_service_state :: "service_state \<Rightarrow> service_state \<Rightarrow> bool" where
  "less_service_state x y \<longleftrightarrow> rank x < rank y"

instance
proof
  show "x = y" if "x \<le> y" "y \<le> x" for x y :: service_state
    using that by (cases x; cases y) (simp_all add: less_eq_service_state_def)
qed (auto simp: less_eq_service_state_def less_service_state_def)

end

lemma service_state_order [simp]: "Start_pending \<le> Running" "Running \<le> Stopped" "Unset \<le> s"
  by (simp_all add: less_eq_service_state_def)

definition forward :: "(service_state \<times> DWORD) list \<Rightarrow> service_state \<Rightarrow> bool" where
  "forward rs st \<longleftrightarrow> sorted (map fst rs @ [st])"

lemma forward_Nil [simp]: "forward [] st"
  by (simp add: forward_def)

lemma forward_report: "forward rs st \<Longrightarrow> st \<le> st' \<Longrightarrow> forward (rs @ [(st', c)]) st'"
  by (fastforce simp: forward_def sorted_append)

lemma forward_same [simp]: "forward rs st \<Longrightarrow> forward (rs @ [(st, c)]) st"
  by (erule forward_report) (rule order_refl)

definition service_ok :: "service \<Rightarrow> bool" where
  "service_ok s \<longleftrightarrow>
     (start_event s \<longleftrightarrow> current s \<noteq> Unset) \<and> (is_ready s \<longleftrightarrow> current s = Running \<or> current s = Stopped) \<and>
     controls s = (if current s = Running then 5 else 0) \<and>
     (reported s = [] \<longleftrightarrow> current s = Unset) \<and>
     (reported s \<noteq> [] \<longrightarrow> last (reported s) = (current s, controls s)) \<and>
     forward (reported s) (current s)"

lemma service_step_ok:
  assumes "service_step every s s'" "service_ok s"
  shows "service_ok s'"
  using assms
proof cases
  case (starts registers tells)
  then have "s' = s\<lparr>current := Start_pending, controls := 0, check_point := 0,
      reported := reported s @ [(Start_pending, 0)], start_event := True\<rparr>"
    by (simp add: ServiceMain_def SetServiceStatus_def Let_def split: if_splits)
  moreover have "reported s = []" using starts(1) assms(2) by (simp add: service_ok_def)
  ultimately show ?thesis
    using starts(1) assms(2) forward_same [of "[]" Start_pending 0] by (auto simp: service_ok_def)
next
  case passes
  then consider "s' = s" | c where "s' = s\<lparr>check_point := c\<rparr>"
    | c where "s' = s\<lparr>check_point := c, reported := reported s @ [(current s, controls s)]\<rparr>" "current s \<noteq> Unset"
    by (auto simp: svc_checkpoint_def SetServiceStatus_def Let_def split: if_splits)
  then show ?thesis using assms(2) by cases (simp_all add: service_ok_def)
next
  case (ready tells)
  then have st: "current s = Start_pending" "controls s = 0" using assms(2)
    by (cases "current s"; simp add: service_ok_def)+
  with ready(3) have "s' = s\<lparr>current := Running, controls := 5, check_point := 0, is_ready := True,
      reported := reported s @ [(Running, 5)]\<rparr>"
    by (simp add: svc_ready_def SetServiceStatus_def Let_def SERVICE_ACCEPT_STOP_def SERVICE_ACCEPT_SHUTDOWN_def
        split: if_splits)
  with st assms(2) forward_report [of "reported s" "current s" Running 5] show ?thesis
    by (simp add: service_ok_def)
next
  case (control c)
  show ?thesis
  proof (cases "c = Stop \<or> c = Shutdown")
    case True
    then have st: "current s = Running" using control(2) assms(2)
      by (cases "current s = Running") (auto simp: accepts_def service_ok_def)
    with True control(1) assms(2) have "s' = s\<lparr>current := Stopped, controls := 0, reported := reported s @ [(Stopped, 0)]\<rparr>"
      by (simp add: ServiceCtrlHandler_def SetServiceStatus_def service_ok_def SERVICE_ACCEPT_STOP_def
          SERVICE_ACCEPT_SHUTDOWN_def)
    with st assms(2) forward_report [of "reported s" "current s" Stopped 0] show ?thesis
      by (simp add: service_ok_def)
  next
    case False
    with control(1) have "s' = s\<lparr>reported := reported s @ [(current s, controls s)]\<rparr>"
      by (simp add: ServiceCtrlHandler_def SetServiceStatus_def)
    moreover have "reported s \<noteq> []" using control(2) by (simp add: accepts_def)
    ultimately show ?thesis using assms(2) by (simp add: service_ok_def)
  qed
qed

interpretation service: step_invariant service_init "service_step every" service_ok
proof unfold_locales
  show "service_ok s" if "service_init s" for s using that by (simp add: service_init_def service_ok_def)
  show "service_ok s'" if "service_ok s" "service_step every s s'" for s s'
    using that by (blast intro: service_step_ok)
qed


definition booting :: service where
  "booting = \<lparr>current = Start_pending, controls = 0, check_point = 0, reported = [(Start_pending, 0)],
     start_event = True, is_ready = False\<rparr>"

lemma reach_booting: "reach service_init (service_step every) booting"
proof -
  let ?s = "\<lparr>current = Unset, controls = 0, check_point = 0, reported = [], start_event = False, is_ready = False\<rparr>"
  have "reach service_init (service_step every) ?s" by (rule reach_init) (simp add: service_init_def)
  moreover have "service_step every ?s booting"
    by (rule starts [where registers = True and tells = True])
      (simp_all add: ServiceMain_def SetServiceStatus_def booting_def)
  ultimately show ?thesis by (rule reach_step)
qed


section \<open>Elevation\<close>

text \<open>The token of the process and what it says; the result with the handles left open.\<close>

definition IsProcessElevated :: "bool \<Rightarrow> bool option \<Rightarrow> bool \<times> nat" where
  "IsProcessElevated opens information =
     (if \<not> opens then (False, 0)
      else (case information of None \<Rightarrow> False | Some elevated \<Rightarrow> elevated, 1 - 1))"

text \<open>
  The console of the parent: what happens to the own one, in order, if the functions are there and
  the process is alone in its console. \<open>attach\<close> is the error of attaching, if any.
\<close>

datatype console_step = Free_console | Show_error nat | Alloc_console | Flush | Reopen string string

definition AttachParentConsole :: "bool \<Rightarrow> nat \<Rightarrow> nat option \<Rightarrow> console_step list" where
  "AttachParentConsole available processes attach =
     (if \<not> available then []
      else if processes \<noteq> 1 then []
      else [Free_console] @
        (case attach of None \<Rightarrow> [] | Some e \<Rightarrow> [Show_error e, Alloc_console]) @
        [Flush, Reopen ''CONOUT$'' ''w'', Reopen ''CONOUT$'' ''w'', Reopen ''CONIN$'' ''r''])"

text \<open>The arguments after the program's name, each followed by a blank but for the last.\<close>

fun join_args :: "wstring list \<Rightarrow> wstring" where
  "join_args [] = []"
| "join_args [a] = a"
| "join_args (a # as) = a @ 32 # join_args as"

text \<open>
  What becomes of the process: it goes on, it gives up, or it starts itself elevated with the
  parameters given and leaves, with the error of the start if there is one.
\<close>

datatype elevation = Goes_on | Gives_up | Restarts wstring "nat option"

record uac_env =
  old_windows :: bool
  is_elevated :: bool
  has_name :: bool
  argv :: "wstring list option"
  allocates :: "nat \<Rightarrow> bool"
  runas :: "wstring \<Rightarrow> nat option"

definition total_length :: "wstring list \<Rightarrow> nat" where
  "total_length as = sum_list (map (\<lambda>a. length a + 1) as)"

definition EnsureElevated :: "uac_env \<Rightarrow> elevation" where
  "EnsureElevated env =
     (if old_windows env then Goes_on
      else if is_elevated env then Goes_on
      else if \<not> has_name env then Gives_up
      else case argv env of
          None \<Rightarrow> Gives_up
        | Some as \<Rightarrow>
            if \<not> allocates env (2 * (total_length (tl as) + 1)) then Gives_up
            else let p = join_args (tl as) in Restarts p (runas env p))"

lemma join_args_fits: "length (join_args as) < total_length as + 1"
  by (induction as rule: join_args.induct) (auto simp: total_length_def)

text \<open>How a command line without quotation marks is taken apart again.\<close>

fun split_blanks :: "wstring \<Rightarrow> wstring list" where
  "split_blanks [] = [[]]"
| "split_blanks (c # s) =
     (if c = 32 then [] # split_blanks s else (c # hd (split_blanks s)) # tl (split_blanks s))"

lemma split_blanks_nonempty: "split_blanks s \<noteq> []"
  by (cases s) auto

lemma split_word: "32 \<notin> set a \<Longrightarrow> split_blanks a = [a]"
  by (induction a) auto

lemma split_append: "32 \<notin> set a \<Longrightarrow> split_blanks (a @ 32 # s) = a # split_blanks s"
  by (induction a) auto

lemma split_count: "length (split_blanks s) = count_list s 32 + 1"
  by (induction s) (auto simp: split_blanks_nonempty Suc_diff_Suc length_greater_0_conv [symmetric])

lemma join_count: "as \<noteq> [] \<Longrightarrow> count_list (join_args as) 32 + 1 = length as + sum_list (map (\<lambda>a. count_list a 32) as)"
  by (induction as rule: join_args.induct) auto

text \<open>
  The joined arguments fit into the memory asked for; they are passed without quotation marks, so
  that taking them apart at the blanks gives them back exactly if none of them contains a blank.
\<close>

lemma elevated_arguments:
  assumes "as \<noteq> []"
  shows "length (join_args as) < total_length as + 1 \<and>
    (split_blanks (join_args as) = as \<longleftrightarrow> (\<forall>a\<in>set as. 32 \<notin> set a))"
proof -
  have "split_blanks (join_args as) = as" if "\<forall>a\<in>set as. 32 \<notin> set a"
    using that assms by (induction as rule: join_args.induct) (auto simp: split_word split_append)
  moreover have "\<forall>a\<in>set as. 32 \<notin> set a" if "split_blanks (join_args as) = as"
  proof -
    have "sum_list (map (\<lambda>a. count_list a (32 :: WCHAR)) as) = 0"
      using that split_count [of "join_args as"] join_count [OF assms] by simp
    then show ?thesis by (simp add: count_list_0_iff)
  qed
  ultimately show ?thesis using join_args_fits by blast
qed

lemma elevated_arguments_witness:
  "split_blanks (join_args [W ''a b'', W ''c'']) \<noteq> [W ''a b'', W ''c'']"
  using elevated_arguments [of "[W ''a b'', W ''c'']"] by simp

section \<open>Registering and stopping\<close>

text \<open>
  Registering reads the interval, creates the event that is not set, and starts the thread of the
  dispatcher; neither creation is checked, a null handle is kept.
\<close>

record registration =
  service_name :: wstring
  checkpoint_every :: DWORD
  ev_start :: nat
  dispatcher :: nat

definition svc_register :: "wstring \<Rightarrow> (bool \<times> nat \<times> DWORD) option \<Rightarrow> nat option \<Rightarrow> nat option \<Rightarrow> registration" where
  "svc_register name answer event thread =
     \<lparr>service_name = name, checkpoint_every = svc_getcpvalue answer,
      ev_start = (case event of None \<Rightarrow> 0 | Some h \<Rightarrow> h), dispatcher = (case thread of None \<Rightarrow> 0 | Some h \<Rightarrow> h)\<rparr>"

text \<open>Control and C ends the process, with status 0; other events count as handled.\<close>

definition CTRL_C_EVENT :: nat where "CTRL_C_EVENT = 0"

definition cw_stop_ctrl_handler :: "nat \<Rightarrow> int + bool" where
  "cw_stop_ctrl_handler ctrl_type = (if ctrl_type = CTRL_C_EVENT then Inl 0 else Inr True)"

section \<open>Installing and removing the service\<close>

definition ERROR_SERVICE_DOES_NOT_EXIST :: nat where "ERROR_SERVICE_DOES_NOT_EXIST = 1060"

text \<open>What the manager answers: the errors of opening it and the service, deleting and creating it.\<close>

record manager =
  elevated :: bool
  open_manager :: "nat option"
  open_service :: "nat option"
  delete_service :: "nat option"
  module_file_name :: "wstring option"
  create_service :: "wstring \<Rightarrow> nat option"

text \<open>What has been done: the services deleted and created, and the handles left open.\<close>

record effects =
  deleted :: nat
  created :: "wstring list"
  open_handles :: nat

definition svc_uninstall :: "manager \<Rightarrow> effects \<Rightarrow> bool \<times> effects" where
  "svc_uninstall m w =
     (if \<not> elevated m then (True, w)
      else if open_manager m \<noteq> None then (False, w)
      else
        let w = w\<lparr>open_handles := open_handles w + 1\<rparr>;
            w = (if open_service m = None
                 then let w = w\<lparr>open_handles := open_handles w + 1\<rparr>;
                          w = (if delete_service m = None then w\<lparr>deleted := deleted w + 1\<rparr> else w)
                      in w\<lparr>open_handles := open_handles w - 1\<rparr>
                 else w)
        in (False, w\<lparr>open_handles := open_handles w - 1\<rparr>))"

definition service_suffix :: wstring where
  "service_suffix = W '' --daemon --service-mode''"

definition binary_path :: "wstring \<Rightarrow> wstring" where
  "binary_path modulepath =
     take 259 ((if 32 \<in> set modulepath then 34 # modulepath @ [34] else modulepath) @ service_suffix)"

definition svc_install :: "manager \<Rightarrow> effects \<Rightarrow> bool \<times> effects" where
  "svc_install m w =
     (if \<not> elevated m then (True, w)
      else case module_file_name m of
          None \<Rightarrow> (False, w)
        | Some p \<Rightarrow>
            let w = snd (svc_uninstall m w) in
            if open_manager m \<noteq> None then (False, w)
            else
              let w = w\<lparr>open_handles := open_handles w + 1\<rparr> in
              case create_service m (binary_path p) of
                Some e \<Rightarrow> (False, w\<lparr>open_handles := open_handles w - 1\<rparr>)
              | None \<Rightarrow>
                  let w = w\<lparr>open_handles := open_handles w + 1, created := created w @ [binary_path p]\<rparr>
                  in (True, w\<lparr>open_handles := open_handles w - 2\<rparr>))"

lemma binary_path_whole:
  "drop (length (binary_path p) - length service_suffix) (binary_path p) = service_suffix"
  if "length p + length service_suffix + 2 \<le> 259"
  using that by (auto simp: binary_path_def)

lemma uninstall_result:
  "svc_uninstall m w = (\<not> elevated m,
    if elevated m \<and> open_manager m = None \<and> open_service m = None \<and> delete_service m = None
    then w\<lparr>deleted := deleted w + 1\<rparr> else w)"
  by (simp add: svc_uninstall_def Let_def)

text \<open>
  Both functions close what they open. Installing replaces the service, even where the old one
  cannot be removed; removing answers false whether it succeeds or not.
\<close>

lemma install_contract:
  "svc_install m w =
    (if \<not> elevated m then (True, w)
     else case module_file_name m of
         None \<Rightarrow> (False, w)
       | Some p \<Rightarrow>
           let removed = (if open_manager m = None \<and> open_service m = None \<and> delete_service m = None then 1 else 0);
               succeeds = (open_manager m = None \<and> create_service m (binary_path p) = None)
           in (succeeds, w\<lparr>deleted := deleted w + removed,
                created := created w @ (if succeeds then [binary_path p] else [])\<rparr>))"
  "fst (svc_uninstall m w) \<longleftrightarrow> \<not> elevated m"
  by (auto simp: svc_install_def uninstall_result Let_def split: option.split)

section \<open>The system log\<close>

datatype event_type = Error_type | Audit_failure | Warning_type | Audit_success | Information_type

definition MapSyslogToWindowsEventType :: "nat \<Rightarrow> event_type" where
  "MapSyslogToWindowsEventType level =
     (if level = 0 \<or> level = 2 \<or> level = 3 then Error_type
      else if level = 1 then Audit_failure
      else if level = 4 then Warning_type
      else if level = 5 then Audit_success
      else Information_type)"

definition MAKE_EVENT_ID :: "DWORD \<Rightarrow> DWORD \<Rightarrow> DWORD \<Rightarrow> DWORD" where
  "MAKE_EVENT_ID severity facility code =
     push_bit 30 (severity AND 3) OR push_bit 16 (facility AND 0xFFF) OR (code AND 0xFFFF)"

definition severity :: "event_type \<Rightarrow> DWORD" where
  "severity t = (case t of Error_type \<Rightarrow> 3 | Audit_failure \<Rightarrow> 3 | Warning_type \<Rightarrow> 2 | _ \<Rightarrow> 1)"

definition CreateCustomEventID :: "event_type \<Rightarrow> DWORD" where
  "CreateCustomEventID t = MAKE_EVENT_ID (severity t) 1 1000"

text \<open>
  The message printed into 1024 characters, \<open>None\<close> if it cannot be printed; the event reported, if
  the log takes it.
\<close>

definition vsyslog ::
    "(event_type \<Rightarrow> DWORD \<Rightarrow> BYTE list \<Rightarrow> bool) \<Rightarrow> nat \<Rightarrow> BYTE list option \<Rightarrow> (event_type \<times> DWORD \<times> BYTE list) option" where
  "vsyslog report priority message =
     (let buffer = (case message of None \<Rightarrow> [] | Some bs \<Rightarrow> take 1023 bs);
          t = MapSyslogToWindowsEventType priority;
          i = CreateCustomEventID t
      in if report t i buffer then Some (t, i, buffer) else None)"

text \<open>The log is a handle or null; closing it does not forget the handle.\<close>

definition openlog :: "nat option \<Rightarrow> nat" where
  "openlog registered = (case registered of None \<Rightarrow> 0 | Some h \<Rightarrow> h)"

definition closelog :: "nat \<Rightarrow> nat list \<times> nat" where
  "closelog log = (if log \<noteq> 0 then [log] else [], log)"

lemma event_id_parts:
  "drop_bit 30 (CreateCustomEventID t) = severity t"
  "CreateCustomEventID t AND 0xFFFF = 1000"
  "drop_bit 16 (CreateCustomEventID t) AND 0xFFF = 1"
  by (cases t; simp add: CreateCustomEventID_def MAKE_EVENT_ID_def severity_def)+

lemma closed_twice: "log \<noteq> 0 \<Longrightarrow> fst (closelog log) @ fst (closelog (snd (closelog log))) = [log, log]"
  by (simp add: closelog_def)

end
