(* ===== verification/Compat.thy ===== *)
theory Compat
  imports Prelude
begin

text \<open>
  Model of the small replacements for functions older systems lack: the precise time
  (\<open>src/dllmain/sysinfoapi.c\<close>), random numbers (\<open>src/legacy/shared/bcryptprimitives.c\<close> and
  \<open>bcrypt.c\<close>), the profile directory (\<open>src/legacy/4.0/userenv.c\<close>), the name of the host
  (\<open>src/legacy/shared/ws2_32.c\<close>), the stubs (\<open>src/legacy/shared/stubs.c\<close>) and the terminal
  (\<open>src/dllmain/termios.c\<close>).
\<close>

section \<open>The precise time\<close>

record clock =
  qpc_base :: ULONGLONG
  qpc_frequency :: ULONGLONG
  ft_low :: DWORD
  ft_high :: DWORD

definition init_sysinfoapi :: "ULONGLONG \<Rightarrow> ULONGLONG \<Rightarrow> DWORD \<times> DWORD \<Rightarrow> clock" where
  "init_sysinfoapi frequency counter now =
     \<lparr>qpc_base = counter, qpc_frequency = frequency, ft_low = fst now, ft_high = snd now\<rparr>"

text \<open>The ticks are multiplied before they are divided, without a sign and in 64 bits.\<close>

definition GetSystemTimePreciseAsFileTime_compat :: "clock \<Rightarrow> ULONGLONG \<Rightarrow> DWORD \<times> DWORD" where
  "GetSystemTimePreciseAsFileTime_compat c qpc_now =
     (let ticks = qpc_now - qpc_base c;
          offset = (ticks * 10000000) div qpc_frequency c;
          base = push_bit 32 (ucast (ft_high c)) OR ucast (ft_low c);
          precise = base + offset
      in (ucast (precise AND 0xFFFFFFFF), ucast (drop_bit 32 precise)))"

definition file_time :: "DWORD \<times> DWORD \<Rightarrow> nat" where
  "file_time t = unat (snd t) * 2 ^ 32 + unat (fst t)"

lemma unat_file_time: "unat (push_bit 32 (ucast (h :: DWORD)) OR ucast (l :: DWORD) :: ULONGLONG) = file_time (l, h)"
proof -
  have "unat h * 2 ^ 32 < 2 ^ 64" using unat_bound [of h] by simp
  then have p: "unat (push_bit 32 (ucast h) :: ULONGLONG) = unat h * 2 ^ 32"
    by (simp add: push_bit_eq_mult unat_word_ariths unsigned_ucast_eq take_bit_nat_eq_self)
  have "(push_bit 32 (ucast h) :: ULONGLONG) AND ucast l = 0"
    by (rule bit_word_eqI) (auto simp: bit_simps dest: bit_imp_le_length)
  then have "push_bit 32 (ucast h) OR ucast l = (push_bit 32 (ucast h) + ucast l :: ULONGLONG)"
    by (simp add: disjunctive_add bit_eq_iff bit_simps)
  moreover have "unat h * 2 ^ 32 + unat l < 2 ^ 64" using unat_bound [of h] unat_bound [of l] by simp
  ultimately show ?thesis using p unat_bound [of l]
    by (simp add: file_time_def unat_word_ariths unsigned_ucast_eq take_bit_nat_eq_self)
qed

lemma file_time_parts: "file_time (ucast (p AND 0xFFFFFFFF), ucast (drop_bit 32 p)) = unat (p :: ULONGLONG)"
proof -
  have m: "(0xFFFFFFFF :: ULONGLONG) = mask 32" by (simp add: mask_eq_exp_minus_1)
  have "p = push_bit 32 (ucast (ucast (drop_bit 32 p) :: DWORD)) OR ucast (ucast (p AND 0xFFFFFFFF) :: DWORD)"
    unfolding m by (rule bit_word_eqI) (auto simp: bit_simps not_le)
  then show ?thesis by (metis unat_file_time)
qed

lemma precise_time_lemma:
  assumes "qpc_frequency c \<noteq> 0"
    and "file_time (ft_low c, ft_high c) + unat (now - qpc_base c) * 10 ^ 7 div unat (qpc_frequency c) < 2 ^ 64"
  shows "file_time (GetSystemTimePreciseAsFileTime_compat c now) = file_time (ft_low c, ft_high c) +
    (unat (now - qpc_base c) * 10 ^ 7 mod 2 ^ 64) div unat (qpc_frequency c)"
proof -
  let ?t = "unat (now - qpc_base c) * 10 ^ 7" and ?f = "unat (qpc_frequency c)"
  have "unat (d * 10000000 div f) = (unat d * 10 ^ 7 mod 2 ^ 64) div unat f" for d f :: ULONGLONG
    by (simp add: unat_div unat_word_ariths)
  note off = this [of "now - qpc_base c" "qpc_frequency c"]
  have "(?t mod 2 ^ 64) div ?f \<le> ?t div ?f" by (rule div_le_mono) simp
  with assms(2) have "file_time (ft_low c, ft_high c) + (?t mod 2 ^ 64) div ?f < 2 ^ 64" by linarith
  moreover have "unat (x + y) = unat x + unat y" if "unat x + unat y < 2 ^ 64" for x y :: ULONGLONG
    using that by (simp add: unat_word_ariths)
  ultimately show ?thesis
    unfolding GetSystemTimePreciseAsFileTime_compat_def Let_def file_time_parts
    by (metis off unat_file_time)
qed

text \<open>
  C39: the time is the base plus the elapsed ticks in units of 100 nanoseconds exactly as long as the
  ticks times ten million fit into 64 bits (51 hours at ten million ticks a second); then the product
  wraps, and the clock starts again at the base.
\<close>

theorem precise_time_exact_iff:
  assumes "qpc_frequency c \<noteq> 0"
    and "ticks = unat (now - qpc_base c)"
    and "file_time (ft_low c, ft_high c) + ticks * 10 ^ 7 div unat (qpc_frequency c) < 2 ^ 64"
  shows "(file_time (GetSystemTimePreciseAsFileTime_compat c now) =
      file_time (ft_low c, ft_high c) + ticks * 10 ^ 7 div unat (qpc_frequency c) \<longleftrightarrow> ticks * 10 ^ 7 < 2 ^ 64) \<and>
    file_time (GetSystemTimePreciseAsFileTime_compat c now) <
      file_time (ft_low c, ft_high c) + 2 ^ 64 div unat (qpc_frequency c) + 1"
proof -
  let ?t = "ticks * 10 ^ 7" and ?f = "unat (qpc_frequency c)"
  have f: "0 < ?f" "?f \<le> 2 ^ 64" using assms(1) unat_bound [of "qpc_frequency c"] by (simp_all add: unat_gt_0)
  have m: "file_time (GetSystemTimePreciseAsFileTime_compat c now) =
      file_time (ft_low c, ft_high c) + (?t mod 2 ^ 64) div ?f"
    using precise_time_lemma [OF assms(1), of now] assms(2,3) by simp
  have "(?t mod 2 ^ 64) div ?f < ?t div ?f" if "2 ^ 64 \<le> ?t"
  proof -
    have "?t mod 2 ^ 64 + ?f \<le> ?t mod 2 ^ 64 + 2 ^ 64" using f(2) by simp
    also have "\<dots> \<le> ?t mod 2 ^ 64 + 2 ^ 64 * (?t div 2 ^ 64)"
      using that by (simp add: div_greater_zero_iff)
    also have "\<dots> = ?t" by (rule mod_mult_div_eq)
    finally have "(?t mod 2 ^ 64 + ?f) div ?f \<le> ?t div ?f" by (rule div_le_mono)
    moreover have "(?t mod 2 ^ 64 + ?f) div ?f = (?t mod 2 ^ 64) div ?f + 1"
      using f(1) by (intro div_add_self2) simp
    ultimately show ?thesis by linarith
  qed
  then have "(?t mod 2 ^ 64) div ?f = ?t div ?f \<longleftrightarrow> ?t < 2 ^ 64"
    by (metis mod_less not_less nless_le)
  moreover have "(?t mod 2 ^ 64) div ?f \<le> 2 ^ 64 div ?f"
    by (rule div_le_mono) (simp add: less_imp_le)
  ultimately show ?thesis using m by simp
qed

definition fast_clock :: clock where
  "fast_clock = \<lparr>qpc_base = 0, qpc_frequency = 10000000, ft_low = 0, ft_high = 0\<rparr>"

text \<open>After 2000000000000 ticks of a clock with ten million ticks a second, 55 hours, the time is wrong.\<close>

theorem precise_time_exact_iff_witness:
  "file_time (GetSystemTimePreciseAsFileTime_compat fast_clock 2000000000000) \<noteq> 2000000000000"
proof -
  have "qpc_frequency fast_clock \<noteq> 0" "2000000000000 = unat (2000000000000 - qpc_base fast_clock)"
    "file_time (ft_low fast_clock, ft_high fast_clock) + 2000000000000 * 10 ^ 7 div unat (qpc_frequency fast_clock) < 2 ^ 64"
    by (simp_all add: fast_clock_def file_time_def)
  from precise_time_exact_iff [OF this] show ?thesis by (simp add: fast_clock_def file_time_def)
qed

section \<open>Random numbers\<close>

text \<open>
  A generator fills as many bytes as it is asked for, with a count of 32 bits, or fails. \<open>rtl\<close> is the
  one imported where the version allows it, \<open>crypt\<close> the one of a context, if that can be acquired.
\<close>

type_synonym generator = "DWORD \<Rightarrow> BYTE list option"

definition imports_generator :: "nat \<Rightarrow> nat \<Rightarrow> generator option \<Rightarrow> generator option" where
  "imports_generator major minor found = (if major < 6 \<or> major = 6 \<and> minor < 2 then None else found)"

definition ProcessPrng :: "generator option \<Rightarrow> generator option \<Rightarrow> BYTE list \<Rightarrow> bool \<times> BYTE list" where
  "ProcessPrng rtl crypt buffer =
     (let n = of_nat (length buffer) :: DWORD;
          fill = (\<lambda>g :: generator. case g n of None \<Rightarrow> (False, buffer)
            | Some bs \<Rightarrow> (True, bs @ drop (length bs) buffer)) in
      case rtl of
        Some g \<Rightarrow> fill g
      | None \<Rightarrow> (case crypt of None \<Rightarrow> (False, buffer) | Some g \<Rightarrow> fill g))"

text \<open>A GUID in memory: four, two and two bytes with the lowest first, then eight bytes.\<close>

record guid =
  data1 :: DWORD
  data2 :: WORD
  data3 :: WORD
  data4 :: "BYTE list"

definition join2 :: "BYTE \<Rightarrow> BYTE \<Rightarrow> WORD" where
  "join2 l h = ucast l OR push_bit 8 (ucast h)"

definition guid_of :: "BYTE list \<Rightarrow> guid" where
  "guid_of bs =
     \<lparr>data1 = ucast (join2 (bs ! 0) (bs ! 1)) OR push_bit 16 (ucast (join2 (bs ! 2) (bs ! 3))),
      data2 = join2 (bs ! 4) (bs ! 5), data3 = join2 (bs ! 6) (bs ! 7), data4 = drop 8 bs\<rparr>"

definition ProcessPrngGuid :: "generator option \<Rightarrow> generator option \<Rightarrow> BYTE list \<Rightarrow> bool \<times> guid" where
  "ProcessPrngGuid rtl crypt buffer =
     (case ProcessPrng rtl crypt buffer of
        (False, bs) \<Rightarrow> (False, guid_of bs)
      | (True, bs) \<Rightarrow>
          let g = guid_of bs;
              g = g\<lparr>data4 := (data4 g)[0 := (data4 g ! 0 AND 0x3F) OR 0x80]\<rparr>;
              g = g\<lparr>data3 := (data3 g AND 0x0FFF) OR 0x4000\<rparr>
          in (True, g))"

definition BCRYPT_USE_SYSTEM_PREFERRED_RNG :: DWORD where "BCRYPT_USE_SYSTEM_PREFERRED_RNG = 2"
definition STATUS_SUCCESS :: DWORD where "STATUS_SUCCESS = 0"
definition STATUS_NOT_IMPLEMENTED :: DWORD where "STATUS_NOT_IMPLEMENTED = 0xC0000002"
definition STATUS_INVALID_PARAMETER :: DWORD where "STATUS_INVALID_PARAMETER = 0xC000000D"

definition BCryptGenRandom ::
    "generator option \<Rightarrow> bool \<Rightarrow> DWORD \<Rightarrow> DWORD \<Rightarrow> DWORD \<times> BYTE list option" where
  "BCryptGenRandom crypt algorithm n flags =
     (if algorithm \<or> flags AND BCRYPT_USE_SYSTEM_PREFERRED_RNG = 0 then (STATUS_NOT_IMPLEMENTED, None)
      else case crypt of
          None \<Rightarrow> (STATUS_INVALID_PARAMETER, None)
        | Some g \<Rightarrow> (case g n of None \<Rightarrow> (STATUS_INVALID_PARAMETER, None) | Some bs \<Rightarrow> (STATUS_SUCCESS, Some bs)))"

text \<open>A GUID carries version 4 and the variant; all other bits are those of the generator.\<close>

lemma guid_is_version_4:
  assumes "ProcessPrngGuid rtl crypt buffer = (True, g)" "length buffer = 16"
    and "\<And>f bs. rtl = Some f \<or> crypt = Some f \<Longrightarrow> f 16 = Some bs \<Longrightarrow> length bs = 16"
  shows "drop_bit 12 (data3 g) = 4" "drop_bit 6 (data4 g ! 0) = 2"
    "\<exists>bs. (rtl = Some f \<longrightarrow> f 16 = Some bs) \<and> data1 g = data1 (guid_of bs) \<and> data2 g = data2 (guid_of bs) \<and>
       data3 g AND 0xFFF = data3 (guid_of bs) AND 0xFFF \<and> data4 g ! 0 AND 0x3F = bs ! 8 AND 0x3F \<and>
       tl (data4 g) = drop 9 bs"
proof -
  from assms(1) obtain bs where bs: "ProcessPrng rtl crypt buffer = (True, bs)"
    and g: "g = (guid_of bs)\<lparr>data4 := (drop 8 bs)[0 := (drop 8 bs ! 0 AND 0x3F) OR 0x80],
      data3 := (data3 (guid_of bs) AND 0x0FFF) OR 0x4000\<rparr>"
    by (auto simp: ProcessPrngGuid_def guid_of_def Let_def split: prod.splits bool.splits)
  from bs assms(2) obtain h xs where h: "rtl = Some h \<or> rtl = None \<and> crypt = Some h" "h 16 = Some xs"
    "bs = xs @ drop (length xs) buffer"
    by (auto simp: ProcessPrng_def Let_def split: option.splits)
  then have "length xs = 16" using assms(3) by blast
  with h assms(2) have len: "length bs = 16" and gen: "rtl = Some f \<longrightarrow> f 16 = Some bs" by auto
  have d: "drop 8 bs = bs ! 8 # drop 9 bs" using len by (simp add: Cons_nth_drop_Suc [symmetric])
  have w: "drop_bit 12 ((w AND 0x0FFF) OR 0x4000) = (4 :: WORD)" "((w AND 0x0FFF) OR 0x4000) AND 0xFFF = w AND (0xFFF :: WORD)" for w
    by (simp_all add: drop_bit_and drop_bit_or bit.conj_disj_distrib2 and.assoc)
  have b: "drop_bit 6 ((w AND 0x3F) OR 0x80) = (2 :: BYTE)" "((w AND 0x3F) OR 0x80) AND 0x3F = w AND (0x3F :: BYTE)" for w
    by (simp_all add: drop_bit_and drop_bit_or bit.conj_disj_distrib2 and.assoc)
  show "drop_bit 12 (data3 g) = 4" "drop_bit 6 (data4 g ! 0) = 2" by (simp_all add: g d w b)
  show "\<exists>bs. (rtl = Some f \<longrightarrow> f 16 = Some bs) \<and> data1 g = data1 (guid_of bs) \<and> data2 g = data2 (guid_of bs) \<and>
       data3 g AND 0xFFF = data3 (guid_of bs) AND 0xFFF \<and> data4 g ! 0 AND 0x3F = bs ! 8 AND 0x3F \<and>
       tl (data4 g) = drop 9 bs"
    by (rule exI [of _ bs]) (simp add: gen g d w b)
qed

text \<open>The count has 32 bits: of a buffer of four gigabytes nothing is filled, with success.\<close>

lemma prng_count_wraps:
  "length buffer = 2 ^ 32 \<Longrightarrow> g 0 = Some [] \<Longrightarrow> ProcessPrng (Some g) crypt buffer = (True, buffer)"
proof -
  assume "length buffer = 2 ^ 32" "g 0 = Some []"
  moreover from this(1) have "(of_nat (length buffer) :: DWORD) = 0" by (simp only: word_of_nat_eq_0_iff) simp
  ultimately show ?thesis unfolding ProcessPrng_def Let_def by (simp only: option.case list.size drop_0 append_Nil)
qed

section \<open>The profile directory and the name of the host\<close>

definition ERROR_INSUFFICIENT_BUFFER :: nat where "ERROR_INSUFFICIENT_BUFFER = 122"

text \<open>
  The size is \<open>None\<close> if the pointer is null; it is updated. \<open>windows\<close> is the directory of the system,
  which fits into the buffer for it, or the error.
\<close>

definition GetUserProfileDirectoryA_compat ::
    "nat + BYTE list \<Rightarrow> nat option \<Rightarrow> (nat + BYTE list) \<times> nat option" where
  "GetUserProfileDirectoryA_compat windows cch =
     (case cch of
        None \<Rightarrow> (Inl ERROR_INVALID_PARAMETER, None)
      | Some n \<Rightarrow>
          (case windows of
             Inl e \<Rightarrow> (Inl e, Some n)
           | Inr dir \<Rightarrow>
               let sz = length dir + 1 in
               if n < sz then (Inl ERROR_INSUFFICIENT_BUFFER, Some sz) else (Inr dir, Some sz)))"

definition GetUserProfileDirectoryW_compat ::
    "(BYTE list \<Rightarrow> wstring option) \<Rightarrow> nat + BYTE list \<Rightarrow> nat option \<Rightarrow> (nat + wstring) \<times> nat option" where
  "GetUserProfileDirectoryW_compat widen windows cch =
     (case cch of
        None \<Rightarrow> (Inl ERROR_INVALID_PARAMETER, None)
      | Some n \<Rightarrow>
          (case GetUserProfileDirectoryA_compat windows cch of
             (Inl e, m) \<Rightarrow> (Inl e, m)
           | (Inr dir, m) \<Rightarrow> (case widen dir of None \<Rightarrow> (Inl 0, m) | Some s \<Rightarrow> (Inr s, m))))"

lemma profile_two_calls:
  assumes "GetUserProfileDirectoryW_compat widen (Inr dir) (Some 0) = (r, Some n)" "widen dir = Some s"
  shows "r = Inl ERROR_INSUFFICIENT_BUFFER \<and> GetUserProfileDirectoryW_compat widen (Inr dir) (Some n) = (Inr s, Some n)"
  using assms by (auto simp: GetUserProfileDirectoryW_compat_def GetUserProfileDirectoryA_compat_def Let_def)

definition WSAEFAULT :: nat where "WSAEFAULT = 10014"

definition GetHostNameW_compat ::
    "nat + BYTE list \<Rightarrow> (BYTE list \<Rightarrow> nat \<Rightarrow> wstring option) \<Rightarrow> bool \<Rightarrow> int \<Rightarrow> nat + wstring" where
  "GetHostNameW_compat host widen buffer namelen =
     (if \<not> buffer \<or> namelen \<le> 0 then Inl WSAEFAULT
      else case host of
          Inl e \<Rightarrow> Inl e
        | Inr bs \<Rightarrow> (case widen bs (nat namelen) of None \<Rightarrow> Inl WSAEFAULT | Some s \<Rightarrow> Inr s))"

section \<open>Stubs\<close>

definition CreateSymbolicLinkW :: "nat + unit" where
  "CreateSymbolicLinkW = Inl ERROR_NOT_SUPPORTED"

definition SetThreadStackGuarantee :: "DWORD option \<Rightarrow> nat + DWORD" where
  "SetThreadStackGuarantee bytes = (case bytes of None \<Rightarrow> Inl ERROR_INVALID_PARAMETER | Some n \<Rightarrow> Inr n)"

text \<open>The list is its field, \<open>None\<close> if the pointer is null; \<open>required\<close> is the size of the structure.\<close>

definition InitializeProcThreadAttributeList ::
    "nat \<Rightarrow> nat option \<Rightarrow> nat option \<Rightarrow> (nat + unit) \<times> nat option \<times> nat option" where
  "InitializeProcThreadAttributeList required attributes sz =
     (case sz of
        None \<Rightarrow> (Inl ERROR_INVALID_PARAMETER, attributes, None)
      | Some n \<Rightarrow>
          (case attributes of
             None \<Rightarrow> (Inl ERROR_INSUFFICIENT_BUFFER, None, Some required)
           | Some a \<Rightarrow>
               if n < required then (Inl ERROR_INSUFFICIENT_BUFFER, Some a, Some n)
               else (Inr (), Some required, Some n)))"

definition DeleteProcThreadAttributeList :: "nat option \<Rightarrow> nat option" where
  "DeleteProcThreadAttributeList attributes = map_option (\<lambda>_. 0) attributes"

definition UpdateProcThreadAttribute :: "nat + unit" where
  "UpdateProcThreadAttribute = Inl ERROR_NOT_SUPPORTED"

lemma attribute_list_two_calls:
  assumes "InitializeProcThreadAttributeList required None (Some n) = (r, p, Some m)"
  shows "r = Inl ERROR_INSUFFICIENT_BUFFER \<and>
    InitializeProcThreadAttributeList required (Some a) (Some m) = (Inr (), Some required, Some m)"
  using assms by (auto simp: InitializeProcThreadAttributeList_def)

section \<open>The terminal\<close>

definition EBADF :: nat where "EBADF = 9"

text \<open>The console is its mode, \<open>None\<close> if the standard input is none.\<close>

definition tcgetattr :: "int \<Rightarrow> bool \<Rightarrow> DWORD option \<Rightarrow> nat + DWORD" where
  "tcgetattr fd has_input console =
     (if fd \<noteq> 0 \<or> \<not> has_input then Inl EBADF
      else case console of None \<Rightarrow> Inl EBADF | Some m \<Rightarrow> Inr m)"

definition tcsetattr :: "int \<Rightarrow> bool \<Rightarrow> DWORD \<Rightarrow> DWORD option \<Rightarrow> (nat + unit) \<times> DWORD option" where
  "tcsetattr fd has_input c_lflag console =
     (if fd \<noteq> 0 \<or> \<not> has_input then (Inl EBADF, console)
      else case console of None \<Rightarrow> (Inl EBADF, None) | Some _ \<Rightarrow> (Inr (), Some c_lflag))"

lemma terminal_restored:
  "tcgetattr 0 True console = Inr m \<Longrightarrow> snd (tcsetattr 0 True m (snd (tcsetattr 0 True m' console))) = console"
  by (auto simp: tcgetattr_def tcsetattr_def split: option.splits)

end
