(* ===== verification/Startup.thy ===== *)
theory Startup
  imports Compat
begin

text \<open>
  Model of how the program starts: the attachment of the library (\<open>src/dllmain/dllmain.c\<close>), the hook
  for functions that are missing (\<open>delayload.c\<close>), the import of functions by name
  (\<open>include/dynload.h\<close>, \<open>include/loadlibrary.h\<close> and the initialisers of the compatibility layer), the
  conversions of \<open>include/cw_inline.h\<close>, and the report on the heaps (\<open>src/helpers/mallinfo.c\<close>).
  A function pointer is an address, \<open>None\<close> if it is null; a module is its table of exports.
\<close>

section \<open>Importing functions\<close>

type_synonym pointers = "string \<Rightarrow> addr option"
type_synonym exports = "string \<Rightarrow> addr option"

definition IMPORT_FUNCTION :: "exports \<Rightarrow> string \<Rightarrow> pointers \<Rightarrow> pointers" where
  "IMPORT_FUNCTION lib f p = (case lib f of None \<Rightarrow> p | Some a \<Rightarrow> p(f \<mapsto> a))"

text \<open>An initialiser: the module, if it is there, and the functions it imports from it in order.\<close>

definition initialise :: "exports option \<Rightarrow> string list \<Rightarrow> pointers \<Rightarrow> pointers" where
  "initialise lib fs p = (case lib of None \<Rightarrow> p | Some e \<Rightarrow> fold (IMPORT_FUNCTION e) fs p)"

definition init_kernel32_shared :: "exports option \<Rightarrow> pointers \<Rightarrow> pointers" where
  "init_kernel32_shared kernel32 = initialise kernel32 [''FindFirstFileExW'', ''InitializeCriticalSectionEx'']"

definition init_kernel32_4_0 :: "exports option \<Rightarrow> pointers \<Rightarrow> pointers" where
  "init_kernel32_4_0 kernel32 = initialise kernel32
     [''MultiByteToWideChar'', ''GetModuleHandleExW'', ''RegisterWaitForSingleObject'', ''UnregisterWait'',
      ''UnregisterWaitEx'', ''AddVectoredExceptionHandler'', ''CreateHardLinkW'', ''CreateToolhelp32Snapshot'',
      ''Process32FirstW'', ''Process32NextW'', ''Module32FirstW'', ''Module32NextW'']"

definition init_ws2_32 :: "exports option \<Rightarrow> pointers \<Rightarrow> pointers" where
  "init_ws2_32 ws2_32 = initialise ws2_32 [''GetHostNameW'']"

definition init_userenv_4_0 :: "nat \<Rightarrow> exports option \<Rightarrow> pointers \<Rightarrow> pointers" where
  "init_userenv_4_0 major userenv p =
     (if major < 5 then p else initialise userenv [''GetUserProfileDirectoryW''] p)"

definition init_unrar :: "exports option \<Rightarrow> pointers \<Rightarrow> pointers" where
  "init_unrar kernel32 = initialise kernel32 [''GetLongPathNameW'', ''TzSpecificLocalTimeToSystemTime'']"

definition init_resolver :: "exports option \<Rightarrow> pointers \<Rightarrow> pointers" where
  "init_resolver dnsapi = initialise dnsapi [''DnsQuery_A'', ''DnsRecordListFree'']"

text \<open>A pointer ends up as what the module exports, or else stays what it was.\<close>

lemma fold_import:
  "fold (IMPORT_FUNCTION e) fs p f = (if f \<in> set fs then (case e f of None \<Rightarrow> p f | Some a \<Rightarrow> Some a) else p f)"
  by (induction fs arbitrary: p) (auto simp: IMPORT_FUNCTION_def split: option.splits)

lemma initialise_prefers_native:
  "initialise lib fs p f =
     (case lib of Some e \<Rightarrow> if f \<in> set fs \<and> e f \<noteq> None then e f else p f | None \<Rightarrow> p f)"
  by (simp add: initialise_def fold_import split: option.split)

lemma replacements_stay: "p f \<noteq> None \<Longrightarrow> initialise lib fs p f \<noteq> None"
  by (simp add: initialise_prefers_native split: option.split)

text \<open>The library is loaded from the directory of the system; the whole path must fit \<open>MAX_PATH\<close> characters.\<close>

definition LoadLibraryFromWin32 :: "nat \<Rightarrow> (wstring \<Rightarrow> exports option) \<Rightarrow> wstring \<Rightarrow> wstring option \<Rightarrow> exports option" where
  "LoadLibraryFromWin32 max_path load sysdir name =
     (case name of
        None \<Rightarrow> None
      | Some s \<Rightarrow>
          if s = [] then None
          else if sysdir = [] \<or> length sysdir \<ge> max_path then None
          else if length (sysdir @ backslash # s) \<ge> max_path then None
          else load (sysdir @ backslash # s))"

section \<open>Small conversions\<close>

text \<open>The seconds are cut to 32 bits.\<close>

definition gettimeofday :: "ULONGLONG \<Rightarrow> WORD \<Rightarrow> LONG \<times> LONG" where
  "gettimeofday seconds millis = (ucast seconds, 1000 * ucast millis)"

text \<open>The block that is returned holds the string and its terminator; otherwise none is left.\<close>

definition mb2wc :: "(BYTE list \<Rightarrow> wstring option) \<Rightarrow> (nat \<Rightarrow> bool) \<Rightarrow> BYTE list \<Rightarrow> wstring option" where
  "mb2wc convert allocates mb =
     (case convert mb of
        None \<Rightarrow> None
      | Some s \<Rightarrow> if allocates (2 * (length s + 1)) then convert mb else None)"

section \<open>Attaching the library\<close>

record dll_env =
  kernel32 :: "exports option"
  is_64_bit :: bool
  wow64_answer :: "bool option"
  debugged :: bool
  heap_answer :: "nat option"
  wsa_answer :: nat
  performance :: "ULONGLONG \<times> ULONGLONG"
  system_time :: "DWORD \<times> DWORD"

record dll =
  pointers_of :: pointers
  bIsWow64 :: bool
  base_clock :: clock
  heap_set :: bool
  wsa_started :: bool
  preloaded :: "string list"
  complaints :: "string list"

definition complain :: "string \<Rightarrow> dll \<Rightarrow> dll" where
  "complain m d = d\<lparr>complaints := complaints d @ [m]\<rparr>"

definition check_wow64 :: "dll_env \<Rightarrow> exports \<Rightarrow> dll \<Rightarrow> dll" where
  "check_wow64 env e d =
     (if is_64_bit env then d
      else
        let d = d\<lparr>pointers_of := IMPORT_FUNCTION e ''IsWow64Process'' (pointers_of d)\<rparr> in
        if pointers_of d ''IsWow64Process'' = None then d
        else case wow64_answer env of
            None \<Rightarrow> complain ''IsWow64Process() failed'' d
          | Some w \<Rightarrow>
              let d = d\<lparr>bIsWow64 := w\<rparr> in
              if w then d\<lparr>pointers_of := IMPORT_FUNCTION e ''Wow64DisableWow64FsRedirection'' (pointers_of d)\<rparr> else d)"

definition set_heap :: "dll_env \<Rightarrow> dll \<Rightarrow> dll" where
  "set_heap env d =
     (if debugged env \<or> pointers_of d ''HeapSetInformation'' = None then d
      else case heap_answer env of
          None \<Rightarrow> d\<lparr>heap_set := True\<rparr>
        | Some le \<Rightarrow> if le \<notin> {50, 120, 31} then complain ''Error setting up low-fragmentation heap'' d else d)"

definition processattach :: "dll_env \<Rightarrow> dll \<Rightarrow> dll" where
  "processattach env d =
     (let d = d\<lparr>base_clock := init_sysinfoapi (fst (performance env)) (snd (performance env)) (system_time env)\<rparr>;
          d = (case kernel32 env of
                 None \<Rightarrow> d
               | Some e \<Rightarrow>
                   check_wow64 env e (d\<lparr>pointers_of := fold (IMPORT_FUNCTION e)
                     [''HeapSetInformation'', ''GetSystemTimePreciseAsFileTime'', ''AttachConsole'',
                      ''GetConsoleProcessList''] (pointers_of d)\<rparr>));
          d = set_heap env d;
          d = (if wsa_answer env = 0 then d\<lparr>wsa_started := True\<rparr> else complain ''Error at WSAStartup()'' d)
      in if \<not> is_64_bit env \<and> bIsWow64 d
         then d\<lparr>preloaded := [''mswsock.dll'', ''winrnr.dll'', ''wshtcpip.dll'', ''iphlpapi.dll'', ''rsaenh.dll'']\<rparr>
         else d)"

datatype reason = Process_attach | Process_detach | Thread_attach | Thread_detach

definition DllMain :: "dll_env \<Rightarrow> reason \<Rightarrow> dll \<Rightarrow> dll" where
  "DllMain env r d =
     (case r of
        Process_attach \<Rightarrow> processattach env d
      | Process_detach \<Rightarrow> d\<lparr>wsa_started := False\<rparr>
      | _ \<Rightarrow> d)"

text \<open>\<open>None\<close>: the null pointer is called. The answer is that of the system.\<close>

definition disablefsredir :: "bool \<Rightarrow> dll \<Rightarrow> bool option" where
  "disablefsredir answer d =
     (if bIsWow64 d then (if pointers_of d ''Wow64DisableWow64FsRedirection'' = None then None else Some answer)
      else Some True)"

lemma processattach_wow64:
  assumes "\<not> bIsWow64 d" "\<not> is_64_bit env" "kernel32 env = Some e"
  shows "bIsWow64 (processattach env d) \<longleftrightarrow>
    (e ''IsWow64Process'' \<noteq> None \<or> pointers_of d ''IsWow64Process'' \<noteq> None) \<and> wow64_answer env = Some True"
proof -
  have heap: "bIsWow64 (set_heap env x) = bIsWow64 x" for x
    by (simp add: set_heap_def complain_def split: option.split)
  have import_iff: "IMPORT_FUNCTION e f p f = None \<longleftrightarrow> e f = None \<and> p f = None" for f p
    by (simp add: IMPORT_FUNCTION_def split: option.split)
  have wow: "bIsWow64 (check_wow64 env e x) \<longleftrightarrow>
      (e ''IsWow64Process'' \<noteq> None \<or> pointers_of x ''IsWow64Process'' \<noteq> None) \<and> wow64_answer env = Some True"
    if "\<not> bIsWow64 x" for x
    using that assms(2) import_iff [of "''IsWow64Process''" "pointers_of x"]
    by (simp add: check_wow64_def complain_def Let_def split: option.split bool.split)
  have other: "IMPORT_FUNCTION e g p f = p f" if "f \<noteq> g" for f g p
    using that by (simp add: IMPORT_FUNCTION_def split: option.split)
  show ?thesis
    using assms by (simp add: processattach_def Let_def complain_def heap wow other)
qed

section \<open>Missing functions\<close>

datatype hooked = Null_pointer | Replacement string | Aborts string

text \<open>\<open>missing\<close>: the hook is asked for a procedure; \<open>None\<close> is one imported by number.\<close>

definition MyDelayLoadFailureHook :: "bool \<Rightarrow> string option \<Rightarrow> hooked" where
  "MyDelayLoadFailureHook missing name =
     (if \<not> missing then Null_pointer
      else case name of
          None \<Rightarrow> Null_pointer
        | Some f \<Rightarrow>
            if f \<in> {''ProcessPrng'', ''WakeByAddressSingle'', ''WaitOnAddress'', ''WakeByAddressAll''}
            then Replacement (f @ ''_compat'') else Aborts f)"

section \<open>The heaps\<close>

record heap_entry =
  uncommitted :: bool
  busy :: bool
  cb_data :: DWORD

record mallinfo_data =
  arena :: ULONGLONG
  ordblks :: nat
  smblks :: nat
  hblks :: nat
  hblkhd :: ULONGLONG
  usmblks :: ULONGLONG
  fsmblks :: ULONGLONG
  uordblks :: ULONGLONG
  fordblks :: ULONGLONG
  keepcost :: ULONGLONG

text \<open>The loop over the entries of one heap: the free bytes and the free blocks found so far.\<close>

fun heap_walk :: "heap_entry list \<Rightarrow> ULONGLONG \<times> nat \<Rightarrow> ULONGLONG \<times> nat" where
  "heap_walk [] acc = acc"
| "heap_walk (h # hs) (bytes, n) =
     (if uncommitted h then heap_walk hs (bytes, n)
      else if busy h then heap_walk hs (bytes, n)
      else heap_walk hs (bytes + ucast (cb_data h), n + 1))"

fun heaps_loop :: "heap_entry list option list \<Rightarrow> ULONGLONG \<times> nat \<Rightarrow> ULONGLONG \<times> nat" where
  "heaps_loop [] acc = acc"
| "heaps_loop (None # hs) acc = heaps_loop hs acc"
| "heaps_loop (Some es # hs) acc = heaps_loop hs (heap_walk es acc)"

text \<open>
  The counters of the process are its working set and its private bytes, \<open>None\<close> if they cannot be
  read; a heap is its entries, \<open>None\<close> if it cannot be locked.
\<close>

definition mallinfo ::
    "(ULONGLONG \<times> ULONGLONG) option \<Rightarrow> bool \<Rightarrow> heap_entry list option list \<Rightarrow> mallinfo_data" where
  "mallinfo process_memory has_memory heaps =
     (let (working, private) = (case process_memory of None \<Rightarrow> (0, 0) | Some c \<Rightarrow> c);
          (free_size, regions) = (if has_memory then heaps_loop heaps (0, 0) else (0, 0))
      in \<lparr>arena = working, ordblks = regions, smblks = 0, hblks = length heaps, hblkhd = private, usmblks = 0,
          fsmblks = free_size, uordblks = private - free_size, fordblks = free_size, keepcost = free_size\<rparr>)"

text \<open>What the loops compute: the sum and the number of the free entries of the heaps locked.\<close>

definition free_entries :: "heap_entry list option list \<Rightarrow> heap_entry list" where
  "free_entries heaps = filter (\<lambda>h. \<not> uncommitted h \<and> \<not> busy h) (concat (map (case_option [] id) heaps))"

lemma heap_walk_sum:
  "heap_walk es (b, n) =
    (b + sum_list (map (\<lambda>h. ucast (cb_data h)) (filter (\<lambda>h. \<not> uncommitted h \<and> \<not> busy h) es)),
     n + length (filter (\<lambda>h. \<not> uncommitted h \<and> \<not> busy h) es))"
  by (induction es arbitrary: b n) auto

lemma heaps_loop_sum:
  "heaps_loop hs (b, n) =
    (b + sum_list (map (\<lambda>h. ucast (cb_data h)) (free_entries hs)), n + length (free_entries hs))"
  by (induction hs "(b, n)" arbitrary: b n rule: heaps_loop.induct)
    (auto simp: free_entries_def heap_walk_sum)

text \<open>
  Free and used bytes add up to the private bytes of the process modulo the width of the word;
  the used bytes are right exactly if the free ones do not exceed the private ones, which are zero
  if they cannot be read.
\<close>

lemma mallinfo_totals:
  assumes "i = mallinfo (Some (working, private)) True heaps"
  shows "fordblks i = sum_list (map (\<lambda>h. ucast (cb_data h)) (free_entries heaps)) \<and>
    ordblks i = length (free_entries heaps) \<and> uordblks i + fordblks i = private \<and>
    (unat (uordblks i) + unat (fordblks i) = unat private \<longleftrightarrow> fordblks i \<le> private)"
proof -
  let ?f = "sum_list (map (\<lambda>h. ucast (cb_data h)) (free_entries heaps)) :: ULONGLONG"
  have i: "fordblks i = ?f" "ordblks i = length (free_entries heaps)" "uordblks i = private - ?f"
    using assms by (simp_all add: mallinfo_def heaps_loop_sum)
  have "unat (private - ?f) + unat ?f = unat private \<longleftrightarrow> ?f \<le> private"
  proof (cases "?f \<le> private")
    case True
    then show ?thesis by (simp add: unat_sub word_le_nat_alt)
  next
    case False
    then show ?thesis by (simp add: word_le_nat_alt)
  qed
  with i show ?thesis by simp
qed

end
