(* ===== verification/Spec2Isabelle.thy ===== *)
theory Spec2Isabelle
  imports LinkedList Resolver Errno SyncQueues RunOnce TzApi ScanMem FinalPath DosPath FileApi FlsRaces Kernel32
    Crashdump Sigcheck Crt Dirent Service Compat Startup
begin

text \<open>
  Verification library for the Windows port of ClamAV: the replacements of POSIX functions the
  scanner is built with, the compatibility layer for old versions of Windows, and the Windows parts
  of the programs themselves. Paths are relative to the root of the repository.

  \<^bold>\<open>The program and its parts.\<close> The engine of ClamAV is not in this repository (it is a submodule);
  the code here is what surrounds it. \<open>src/dllmain\<close> and \<open>src/helpers\<close> are linked into it and give it
  errors, sockets, directories, the resolver, the system log, crash dumps. \<open>src/common\<close> holds features of
  the programs: the scan of the memory, the actions on infected files, the service. \<open>src/legacy\<close>
  replaces functions of Windows that older systems lack; each replacement is called through a pointer
  that an initialiser sets to the native function if there is one. The parts meet in few places:
  the condition variables, futexes and one-time initialisation rest on the linked list; the memory scan
  hands its infected files to the actions; renaming by handle asks for the final path, and that asks for
  the long path; the signature check asks for the final path; the service asks for elevation.

  \<^bold>\<open>Theories.\<close>
  \<^item> \<open>Prelude\<close>: machine types, strings, buffers, error codes; the interfaces \<open>codec\<close> and
    \<open>step_invariant\<close>, and the states \<open>reach\<close>ed by a step relation.
  \<^item> \<open>LinkedList\<close>: \<open>src/legacy/shared/list.h\<close> over an explicit heap of links. \<open>dlist\<close> relates a list
    head to the sequence of its elements; every operation refines one on sequences.
  \<^item> \<open>SyncApi\<close>, \<open>SyncSteps\<close>: \<open>src/legacy/shared/synchapi.c\<close>. The first has the critical sections of the
    queues as functions, refining operations on lists of waiters; the second has slim locks, condition
    variables and futexes as step relations, one step for each interlocked operation, critical section
    or return of a system call, with their invariants and the schedules that break the slim lock.
    \<open>SyncQueues\<close> joins them: the steps on lists of threads are what the linked queues do.
  \<^item> \<open>RunOnce\<close>: \<open>runonce.c\<close>, turn by turn; one initialiser, one context, and when calls never return.
  \<^item> \<open>Fls\<close>: \<open>fibersapi.c\<close>; keys and values are blocks of a heap, refining a map from threads and
    indexes to data. \<open>FlsSteps\<close> has the same calls as steps of many threads, from one critical
    section or library call to the next, and shows that a call alone is that of \<open>Fls\<close>; \<open>FlsRaces\<close> has
    the invariant of their interleavings, and the runs that go wrong.
  \<^item> \<open>Kernel32\<close>: \<open>kernel32.c\<close> of \<open>shared\<close> and \<open>4.0\<close>; the registered waits are a step
    relation between the waiting thread and the call that unregisters the wait.
  \<^item> \<open>FinalPath\<close>: \<open>getfinalpathnamebyhandlew.c\<close>; \<open>DosPath\<close>: \<open>getlongpathnamew.c\<close>; \<open>FileApi\<close>:
    \<open>fileapi.c\<close>; \<open>TzApi\<close>: \<open>tzapi.c\<close>; \<open>Crt\<close>: \<open>crt.c\<close>; \<open>Compat\<close>: \<open>sysinfoapi.c\<close>, \<open>bcryptprimitives.c\<close>,
    \<open>bcrypt.c\<close>, \<open>userenv.c\<close>, \<open>ws2_32.c\<close>, \<open>stubs.c\<close>, \<open>termios.c\<close>; \<open>Startup\<close>: \<open>dllmain.c\<close>,
    \<open>delayload.c\<close>, \<open>mallinfo.c\<close>, the initialisers, \<open>include/loadlibrary.h\<close>, \<open>include/cw_inline.h\<close>.
  \<^item> \<open>Resolver\<close>: \<open>src/helpers/resolver.c\<close>; \<open>Errno\<close>: \<open>posix-errno.c\<close>, \<open>fcntl.c\<close>,
    \<open>include/posix-errno.h\<close>, \<open>include/socket_inline.h\<close>; \<open>Dirent\<close>: \<open>dirent.c\<close>; \<open>Crashdump\<close>:
    \<open>crashdump.c\<close> and \<open>tools/unscrambler.c\<close>; \<open>Sigcheck\<close>: \<open>sigcheck.c\<close> and \<open>tools/sigcheck_app.c\<close>.
  \<^item> \<open>Actions\<close>: \<open>win32actions.c\<close>; \<open>ScanMem\<close>: \<open>scanmem.c\<close>; \<open>Service\<close>: \<open>service.c\<close>, \<open>uac.c\<close>, \<open>syslog.c\<close>.
  \<^item> This theory: final paths and long paths composed, as the compatibility layer composes them.

  \<^bold>\<open>Correspondence.\<close> A definition has the name of the function it models (with \<open>_loop\<close>, \<open>_turn\<close> or
  a word for what it does where it models a part). Structures are records, addresses are numbers with 0
  for null. What the code reads of the system, from the allocations on, is a field of an environment
  or an argument; \<open>Inl\<close> carries an error. Results that the code gives through pointers are
  components of the result. Resources (blocks, handles, descriptors, files) are counted or recorded in
  the state where the code can lose them. \<open>MAX_PATH\<close> is 260 in \<open>include/platform.h\<close> for Windows XP and
  4096 for later systems: it is an argument where both builds have the code, and 260 in the
  compatibility layer and in \<open>ScanMem\<close>.

  \<^bold>\<open>What the lemmas show.\<close> Functional behaviour on all branches, errors included; refinement of abstract
  operations (lists of waiters, maps of thread data, sequences of links); invariants of the step
  relations; bounds of every buffer written to; which paths leak; round trips (names of the resolver,
  local and universal time, crash dumps); and equivalence with reference definitions (the wire form of
  names, the calendar, the expansion of paths). Where the code does not keep what it means to keep, the
  theorem states when: two owners of a slim lock, an index freed while a thread uses it, waits that
  never return, a clock that restarts, a signature that counts as trusted because it could not be read.

  \<^bold>\<open>Termination.\<close> Loops over data are structural or have a measure (what is left of the string or the
  array). Those that may run forever in the code (the counting of a broken list, the request to a device,
  the registration of a waiter, the walk over waiters or blocks) are partial functions into an option,
  \<open>None\<close> when they do not return; their theorems state when they do. No fuel is used, but for the number
  of calls in \<open>Dirent.calls\<close>, the number of steps in \<open>FlsSteps.fls_alone\<close>, which its theorem shows to
  exist, and the schedules given as lists.

  \<^bold>\<open>Not modelled.\<close> \<open>cw_main.c\<close> (calls the real main), \<open>src/dllmain/ws2_32.c\<close> (nothing is compiled),
  the assembly files of import thunks, \<open>src/legacy/tests\<close>, \<open>tools/exeScanner_app.c\<close>, the resources, the
  installer, the build files; the vendored headers of LLVM and bzip2 and the generated \<open>clamav-config.h\<close>;
  tracing and messages, but where they are the only result. In the models of \<open>Actions\<close> and
  \<open>ScanMem\<close> calls run one after the other, as the programs make them. In \<open>FlsSteps\<close> the callbacks do
  not call back into fiber-local storage.
\<close>

section \<open>Final path names and long path names together\<close>

text \<open>
  \<open>GetFinalPathNameByHandleW\<close> falls back to \<open>GetLongPathNameW\<close>, which it calls with the same buffer
  for the path and the result. The compatibility layer is both.
\<close>

definition long_path_by :: "lp_env \<Rightarrow> wstring \<Rightarrow> nat \<Rightarrow> nat \<times> wstring" where
  "long_path_by lp s n =
     (case GetLongPathNameW lp (Some s) True True n of
        (r, All_written t) \<Rightarrow> (r, t)
      | (r, _) \<Rightarrow> (r, s))"

definition device_prefix :: wstring where
  "device_prefix = [backslash, backslash, 63, backslash]"

lemma device_prefix_split: "take 4 s = device_prefix \<Longrightarrow> \<exists>r. s = backslash # backslash # 63 # backslash # r"
  by (metis append_Cons append_Nil append_take_drop_id device_prefix_def)

lemma long_path_by_device:
  assumes "take 4 s = device_prefix" "attributes_ok lp s" "length s < n"
  shows "long_path_by lp s n = (length s, s)"
proof -
  from device_prefix_split [OF assms(1)] obtain r where "s = backslash # backslash # 63 # backslash # r" by blast
  with assms(2,3) device_path_unchanged_lemma [of lp r True True n] show ?thesis
    by (simp add: long_path_by_def)
qed

lemma prefix_names:
  "UncPath env c = (Inr (Some v), c') \<Longrightarrow> take 4 v = device_prefix"
  "dos_letter env l c = (Inr (Some v), c') \<Longrightarrow> take 4 v = device_prefix"
  "prefixed_path c r = (Inr (Some v), c') \<Longrightarrow> take 4 v = device_prefix"
  by (auto simp: UncPath_def dos_letter_def prefixed_path_def device_prefix_def split: sum.splits if_splits)

lemma prefix_drives: "match_drives env src fn ds c = (Inr (Some v), c') \<Longrightarrow> take 4 v = device_prefix"
  by (induction env src fn ds c rule: match_drives.induct)
    (auto dest: prefix_names split: option.splits bool.splits)

lemma take_4: "4 \<le> length p \<Longrightarrow> take 4 p = [p ! 0, p ! 1, p ! 2, p ! 3]"
  by (rule nth_equalityI) (auto simp: less_Suc_eq numeral_eq_Suc)

lemma prefix_volume: "is_volume_name p \<Longrightarrow> take 4 (p[1 := backslash]) = device_prefix"
  using take_4 [of "p[1 := backslash]"] by (auto simp: is_volume_name_def device_prefix_def)

lemma prefix_pick:
  "pick_volume env i ps (got, w, c) = (True, Some v, c') \<Longrightarrow> (\<And>u. got \<Longrightarrow> w = Some u \<Longrightarrow> take 4 u = device_prefix) \<Longrightarrow>
   take 4 v = device_prefix"
proof (induction env i ps "(got, w, c)" arbitrary: got w c rule: pick_volume.induct)
  case (2 env i p ps got w c)
  show ?case
  proof (cases "is_volume_name p")
    case True
    with 2(3) have m: "mem env (100 + i)" by (auto split: if_splits)
    with True 2(3) have "pick_volume env (i + 1) ps (True, Some (p[1 := backslash]), gained 1 c) = (True, Some v, c')"
      by simp
    then show ?thesis by (rule 2(2) [rotated 2]) (use True m prefix_volume [OF True] in auto)
  next
    case False
    with 2 show ?thesis by simp
  qed
qed simp

lemma prefix_guid:
  assumes "BasepGetVolumeGUIDFromNTName env src c = Some (Inr (Some v), c')"
  shows "take 4 v = device_prefix"
proof -
  from assms obtain r where r: "volume_of_points env c r = (Inr (Some v), c')"
    by (auto simp: BasepGetVolumeGUIDFromNTName_def split: if_splits)
  then obtain ps where "r = Inr ps" by (cases r) (auto simp: volume_of_points_def)
  with r have "pick_volume env 0 ps (False, None, c) = (True, Some v, c')"
    by (auto simp: volume_of_points_def split: prod.splits if_splits)
  then show ?thesis by (rule prefix_pick) simp
qed

lemma prefix_dos:
  "BasepGetVolumeDosLetterNameFromNTName env src c = Some (Inr (Some v), c') \<Longrightarrow> take 4 v = device_prefix"
  by (auto simp: BasepGetVolumeDosLetterNameFromNTName_def dest: prefix_names split: if_splits)

lemma prefix_volume_name:
  "vt \<noteq> Type_NT \<Longrightarrow> volume_name env vt nt fn c = Some (Inr (Some v, n), c') \<Longrightarrow> take 4 v = device_prefix"
  by (auto simp: volume_name_def BasepGetVolumeDosLetterNameFromNTNameAndFileName_def
      dest: prefix_guid prefix_dos prefix_drives
      split: volume_type.splits option.splits prod.splits sum.splits if_splits)

text \<open>
  C40: but for the volume names of the kernel, the names \<open>GetFinalPathNameByHandleW\<close> puts before a
  file name start with \<open>\\?\<close>, and \<open>GetLongPathNameW\<close> leaves such paths alone: the fallback that
  normalises the name through it asks for a long path and gets the very path it gave, for all
  files, and goes on with one block more than it had.
\<close>

theorem fallback_normalises_nothing:
  assumes "vt \<noteq> Type_NT" "volume_name env vt nt fileName c = Some (Inr (Some v, n), c')"
    and "long_path env = long_path_by lp" "attributes_ok lp (v @ fileName)"
  shows "long_path env (v @ fileName) (length fileName + length v + 1) = (length (v @ fileName), v @ fileName) \<and>
    normalise_by_long_path env vt (Some v) n fileName c' =
      Some (if mem env 7 then (Go_on, gained 1 c') else (Abandon ERROR_NOT_ENOUGH_MEMORY, c'))"
proof -
  have v: "take 4 v = device_prefix" by (rule prefix_volume_name [OF assms(1,2)])
  have "take 4 (v @ fileName) = device_prefix"
    using device_prefix_split [OF v] v by auto
  from long_path_by_device [OF this assms(4)]
  have lp: "long_path env (v @ fileName) (length fileName + length v + 1) = (length (v @ fileName), v @ fileName)"
    by (simp add: assms(3))
  moreover have "v \<noteq> []" using device_prefix_split [OF v] by auto
  ultimately have "normalise_from env (Some v) None fileName c' =
      (if mem env 7 then (Go_on, gained 1 c') else (Abandon ERROR_NOT_ENOUGH_MEMORY, c'))"
    by (simp add: normalise_from_def Let_def)
  with lp assms(1) show ?thesis by (simp add: normalise_by_long_path_def)
qed

definition old_system_long :: genv where
  "old_system_long = old_system\<lparr>long_path := long_path_by tiny_dir\<rparr>"

theorem fallback_normalises_nothing_witness:
  "long_path old_system_long [92, 92, 63, 92, 67, 58, 92, 65, 126, 49] 11 =
     (10, [92, 92, 63, 92, 67, 58, 92, 65, 126, 49])"
proof -
  have "volume_name old_system_long Type_DOS (W ''/D'') [92, 65, 126, 49] \<lparr>live = 2, devices = 0\<rparr> =
      Some (Inr (Some [92, 92, 63, 92, 67, 58], Some (W ''/D'')), \<lparr>live = 3, devices = 0\<rparr>)"
    by (simp add: old_system_long_def old_system_def volume_name_def BasepGetVolumeDosLetterNameFromNTName_def
        same_start_def lower_w_def backslash_def error_codes
        BasepGetVolumeDosLetterNameFromNTNameAndFileName_def drive_match_def contains_def lanman_def
        dos_letter_def gained_def)
  from fallback_normalises_nothing [OF _ this, of tiny_dir] show ?thesis
    by (simp add: old_system_long_def tiny_env numeral_eq_Suc)
qed

end
